(* ===== verification/Prelude.thy ===== *)
theory Prelude
  imports Main "HOL-Library.Word"
begin

text \<open>
  Shared vocabulary of the development: the machine integer types of the Rust
  sources, slice access, the first-match searches that Rust iterators perform,
  and the generic facts about lists and words that the component theories use.

  Integers keep the width of the source. The kernel image is built with the
  release profile, which compiles \<^verbatim>\<open>+\<close>, \<^verbatim>\<open>-\<close> and \<^verbatim>\<open>*\<close> without overflow checks, so
  they are the wrapping operations of the word type. Indexing outside a slice
  still aborts in that profile and is modelled as an error where it can happen.
\<close>

unbundle bit_operations_syntax

type_synonym u8 = "8 word"
type_synonym u16 = "16 word"
type_synonym u32 = "32 word"
type_synonym u64 = "64 word"

named_theorems frame_simps \<open>what an operation leaves unchanged\<close>
named_theorems inv_intros \<open>preservation of component invariants\<close>

subsection \<open>Slices and first-match searches\<close>

definition slice_get :: "'a list \<Rightarrow> nat \<Rightarrow> 'a option" where
  "slice_get xs i = (if i < length xs then Some (xs ! i) else None)"

fun position :: "('a \<Rightarrow> bool) \<Rightarrow> 'a list \<Rightarrow> nat option" where
  "position P [] = None"
| "position P (x # xs) = (if P x then Some 0 else map_option Suc (position P xs))"

fun update_first :: "('a \<Rightarrow> bool) \<Rightarrow> ('a \<Rightarrow> 'a) \<Rightarrow> 'a list \<Rightarrow> 'a list" where
  "update_first P f [] = []"
| "update_first P f (x # xs) = (if P x then f x # xs else x # update_first P f xs)"

lemma slice_get_None [simp]: "slice_get xs i = None \<longleftrightarrow> length xs \<le> i"
  by (simp add: slice_get_def)

lemma slice_get_Some: "slice_get xs i = Some x \<longleftrightarrow> i < length xs \<and> xs ! i = x"
  by (auto simp: slice_get_def)

lemma slice_get_append_old [simp]: "i < length xs \<Longrightarrow> slice_get (xs @ ys) i = Some (xs ! i)"
  by (simp add: slice_get_def nth_append)

lemma slice_get_snoc:
  "slice_get (xs @ [y]) i = (if i = length xs then Some y else slice_get xs i)"
  by (auto simp: slice_get_def nth_append)

lemma slice_get_update:
  "slice_get (xs[j := y]) i = (if i = j \<and> j < length xs then Some y else slice_get xs i)"
  by (auto simp: slice_get_def)

lemma slice_get_in_set: "slice_get xs i = Some x \<Longrightarrow> x \<in> set xs"
  by (auto simp: slice_get_Some)

lemma position_None: "position P xs = None \<longleftrightarrow> (\<forall>x \<in> set xs. \<not> P x)"
  by (induction xs) auto

lemma position_Some:
  "position P xs = Some i \<longleftrightarrow> i < length xs \<and> P (xs ! i) \<and> (\<forall>j < i. \<not> P (xs ! j))"
proof (induction xs arbitrary: i)
  case Nil
  then show ?case by simp
next
  case (Cons x xs)
  show ?case
    by (cases i) (auto simp: Cons.IH All_less_Suc2 split: if_splits)
qed

lemma update_first_position:
  "update_first P f xs = (case position P xs of None \<Rightarrow> xs | Some i \<Rightarrow> xs[i := f (xs ! i)])"
  by (induction xs) (auto split: option.splits)

lemma length_update_first [simp]: "length (update_first P f xs) = length xs"
  by (induction xs) auto

lemma find_position:
  "List.find P xs = (case position P xs of None \<Rightarrow> None | Some i \<Rightarrow> Some (xs ! i))"
  by (induction xs) (auto split: option.splits)

subsection \<open>Loops that may fail\<close>

text \<open>A \<^verbatim>\<open>for\<close> loop over a list whose body may abort with \<open>None\<close>.\<close>

primrec fold_opt :: "('a \<Rightarrow> 's \<Rightarrow> 's option) \<Rightarrow> 'a list \<Rightarrow> 's \<Rightarrow> 's option" where
  "fold_opt f [] s = Some s"
| "fold_opt f (x # xs) s = (case f x s of None \<Rightarrow> None | Some s' \<Rightarrow> fold_opt f xs s')"

lemma fold_opt_append:
  "fold_opt f (xs @ ys) s = (case fold_opt f xs s of None \<Rightarrow> None | Some s' \<Rightarrow> fold_opt f ys s')"
  by (induction xs arbitrary: s) (auto split: option.split)

lemma fold_opt_inv:
  assumes "fold_opt f xs s = Some s'" "P s" "\<And>x s s'. x \<in> set xs \<Longrightarrow> P s \<Longrightarrow> f x s = Some s' \<Longrightarrow> P s'"
  shows "P s'"
  using assms
proof (induction xs arbitrary: s)
  case (Cons x xs)
  then obtain s1 where s1: "f x s = Some s1" "fold_opt f xs s1 = Some s'" by (auto split: option.splits)
  have "P s1" by (rule Cons.prems(3) [OF _ Cons.prems(2) s1(1)]) simp
  then show ?case by (rule Cons.IH [OF s1(2)]) (rule Cons.prems(3); simp)
qed simp

text \<open>A loop whose body always succeeds and adds \<open>A x\<close> to a set that the state holds.\<close>

lemma fold_opt_union:
  assumes "\<And>x s. x \<in> set xs \<Longrightarrow> P s \<Longrightarrow> \<exists>s'. f x s = Some s' \<and> P s' \<and> F s' = F s \<union> A x" and "P s"
  shows "\<exists>s'. fold_opt f xs s = Some s' \<and> P s' \<and> F s' = F s \<union> (\<Union>x \<in> set xs. A x)"
  using assms
proof (induction xs arbitrary: s)
  case (Cons x xs)
  obtain s1 where s1: "f x s = Some s1" "P s1" "F s1 = F s \<union> A x" using Cons.prems by force
  obtain s2 where "fold_opt f xs s1 = Some s2" "P s2" "F s2 = F s1 \<union> (\<Union>x \<in> set xs. A x)"
    using Cons.IH [OF _ s1(2)] Cons.prems(1) by force
  with s1 show ?case by auto
qed simp

lemma guard_Inr: "(if P then Inl e else r) = Inr y \<longleftrightarrow> \<not> P \<and> r = Inr y"
  by simp

subsection \<open>Sliding windows\<close>

definition keep_last :: "nat \<Rightarrow> 'b list \<Rightarrow> 'b list" where
  "keep_last n xs = drop (length xs - n) xs"

lemma keep_last_push:
  assumes "length xs \<le> n" and "0 < n"
  shows "keep_last n (keep_last n (xs @ [x]) @ ys) = keep_last n (xs @ x # ys)"
proof (cases "length xs = n")
  case True
  with assms show ?thesis by (auto simp: keep_last_def)
next
  case False
  with assms show ?thesis by (simp add: keep_last_def)
qed

subsection \<open>Word ranges\<close>

lemma unat_u64_less: "unat (w :: u64) < 2 ^ 64"
  using unsigned_less [of w, where ?'a = nat] by simp

lemma unat_u32_less: "unat (w :: u32) < 2 ^ 32"
  using unsigned_less [of w, where ?'a = nat] by simp

lemma unat_u8_less: "unat (w :: u8) < 2 ^ 8"
  using unsigned_less [of w, where ?'a = nat] by simp

lemma align_down:
  assumes "k < 64"
  shows "unat (w AND NOT (2 ^ k - 1) :: u64) = unat w div 2 ^ k * 2 ^ k"
proof -
  have "w AND NOT (2 ^ k - 1) = push_bit k (drop_bit k w)"
    unfolding mask_eq_exp_minus_1 [symmetric] by (rule bit_word_eqI) (auto simp: bit_simps)
  then have "unat (w AND NOT (2 ^ k - 1)) = take_bit 64 (push_bit k (drop_bit k (unat w)))"
    by (simp only: unsigned_push_bit_eq unat_drop_bit_eq) simp
  also have "\<dots> = unat w div 2 ^ k * 2 ^ k"
  proof -
    have "unat w div 2 ^ k * 2 ^ k < 2 ^ 64"
      using div_times_less_eq_dividend [of "unat w" "2 ^ k"] unat_u64_less [of w] by linarith
    then show ?thesis by (simp add: push_bit_eq_mult drop_bit_eq_div take_bit_eq_mod)
  qed
  finally show ?thesis .
qed

end
