(* ===== verification/Audit_Log.thy ===== *)
theory Audit_Log
  imports Prelude
begin

text \<open>
  The in-kernel audit log, \<^verbatim>\<open>src/kernel_rs/src/audit.rs\<close>. The statics \<^verbatim>\<open>LOG\<close> and \<^verbatim>\<open>NEXT_SEQ\<close>
  are the fields of the record \<open>audit_state\<close>; the lazily created \<^verbatim>\<open>Option<VecDeque>\<close> is
  the list itself, empty before the first use, as \<^verbatim>\<open>log_mut\<close> makes it. The third field is
  the identity \<^verbatim>\<open>thread::current_id()\<close> returns. Other components extend this record with
  their own statics, so every operation here is stated for any extension of it.

  The lemmas show that the log is a contiguous window of the event history: it never holds
  more than \<open>MAX_RECORDS\<close> records, its sequence numbers are consecutive and end just below
  \<open>NEXT_SEQ\<close>, and it equals the last \<open>MAX_RECORDS\<close> records of everything ever recorded.
\<close>

subsection \<open>Data\<close>

datatype AuditEvent =
    Grant (ev_object_id: u32) (ev_rights: u32)
  | Derive (ev_object_id: u32) (ev_rights: u32)
  | Revoke (ev_object_id: u32)
  | Denied (ev_cap_id: u32)
  | IpcSend (ev_object_id: u32)
  | IpcReceive (ev_object_id: u32)
  | InterruptDelivered (ev_vector: u8)
  | InterruptAcknowledged (ev_vector: u8)
  | PolicyDenied (ev_rights: u32)
  | IommuFault (ev_source_id: u16) (ev_reason: u8)
  | ProcessCrashed (ev_bdf: u32) (ev_fault_vector: u8)
  | ProcessRestarted (ev_bdf: u32) (ev_attempt: u32)
  | ProcessQuarantined (ev_bdf: u32)
  | ManifestDenied (ev_kind: u8)
  | AgentUiAction (ev_target_object: u32) (ev_action_type: u32)

record AuditRecord =
  ar_seq :: u64
  ar_actor_tid :: u64
  ar_event :: AuditEvent

record audit_state =
  LOG :: "AuditRecord list"
  NEXT_SEQ :: u64
  current_tid :: u64

definition MAX_RECORDS :: nat where
  "MAX_RECORDS = 4096"

subsection \<open>Operations\<close>

definition audit_record :: "AuditEvent \<Rightarrow> 'a audit_state_scheme \<Rightarrow> 'a audit_state_scheme" where
  "audit_record ev s =
     (let sq = NEXT_SEQ s;
          log = LOG s;
          log' = (if length log \<ge> MAX_RECORDS then tl log else log)
      in s\<lparr>LOG := log' @ [\<lparr>ar_seq = sq, ar_actor_tid = current_tid s, ar_event = ev\<rparr>],
           NEXT_SEQ := sq + 1\<rparr>)"

definition audit_len :: "'a audit_state_scheme \<Rightarrow> nat" where
  "audit_len s = length (LOG s)"

definition last_n :: "nat \<Rightarrow> 'a audit_state_scheme \<Rightarrow> AuditRecord list" where
  "last_n n s = drop (length (LOG s) - n) (LOG s)"

definition records_by_actor :: "u64 \<Rightarrow> nat \<Rightarrow> 'a audit_state_scheme \<Rightarrow> AuditRecord list" where
  "records_by_actor tid mx s = take mx (filter (\<lambda>r. ar_actor_tid r = tid) (rev (LOG s)))"

subsection \<open>What recording changes\<close>

lemma audit_record_frame [frame_simps, simp]:
  "current_tid (audit_record ev s) = current_tid s"
  "audit_state.more (audit_record ev s) = audit_state.more s"
  "NEXT_SEQ (audit_record ev s) = NEXT_SEQ s + 1"
  by (simp_all add: audit_record_def Let_def)

lemma LOG_audit_record:
  "LOG (audit_record ev s) =
     (if length (LOG s) \<ge> MAX_RECORDS then tl (LOG s) else LOG s)
     @ [\<lparr>ar_seq = NEXT_SEQ s, ar_actor_tid = current_tid s, ar_event = ev\<rparr>]"
  by (simp add: audit_record_def Let_def)

lemma last_LOG_audit_record [simp]:
  "LOG (audit_record ev s) \<noteq> []"
  "last (LOG (audit_record ev s)) =
     \<lparr>ar_seq = NEXT_SEQ s, ar_actor_tid = current_tid s, ar_event = ev\<rparr>"
  by (simp_all add: LOG_audit_record)

subsection \<open>The log is a window of the history\<close>

definition log_wf :: "'a audit_state_scheme \<Rightarrow> bool" where
  "log_wf s \<longleftrightarrow>
     length (LOG s) \<le> MAX_RECORDS \<and>
     (\<forall>i < length (LOG s).
        ar_seq (LOG s ! i) = NEXT_SEQ s - of_nat (length (LOG s)) + of_nat i)"

definition init_audit :: "u64 \<Rightarrow> audit_state" where
  "init_audit tid = \<lparr>LOG = [], NEXT_SEQ = 0, current_tid = tid\<rparr>"

fun record_all :: "AuditEvent list \<Rightarrow> 'a audit_state_scheme \<Rightarrow> 'a audit_state_scheme" where
  "record_all [] s = s"
| "record_all (e # es) s = record_all es (audit_record e s)"

lemma log_wf_init [inv_intros]: "log_wf (init_audit tid)"
  by (simp add: log_wf_def init_audit_def)

lemma log_wf_audit_record [inv_intros]:
  assumes "log_wf s"
  shows "log_wf (audit_record ev s)"
proof -
  let ?t = "if length (LOG s) \<ge> MAX_RECORDS then tl (LOG s) else LOG s"
  let ?d = "if length (LOG s) \<ge> MAX_RECORDS then 1 else 0 :: nat"
  have len: "length ?t + ?d = length (LOG s)" and cap: "length ?t < MAX_RECORDS"
    using assms by (auto simp: log_wf_def MAX_RECORDS_def)
  have old: "ar_seq (?t ! i) = NEXT_SEQ s - of_nat (length (LOG s)) + of_nat (i + ?d)"
    if "i < length ?t" for i
    using assms that by (auto simp: log_wf_def nth_tl)
  have "of_nat (length (LOG s)) = (of_nat (length ?t) + of_nat ?d :: u64)"
    using len by (metis of_nat_add)
  with old have "ar_seq (?t ! i) = NEXT_SEQ s - of_nat (length ?t) + of_nat i"
    if "i < length ?t" for i
    using that by (simp add: algebra_simps)
  then show ?thesis
    using cap by (auto simp: log_wf_def LOG_audit_record nth_append less_Suc_eq Let_def)
qed

lemma log_wf_record_all [inv_intros]: "log_wf s \<Longrightarrow> log_wf (record_all es s)"
  by (induction es arbitrary: s) (auto intro: log_wf_audit_record)

text \<open>The specification: the whole history, of which the log keeps the end.\<close>

definition stamp :: "u64 \<Rightarrow> u64 \<Rightarrow> nat \<Rightarrow> AuditEvent \<Rightarrow> AuditRecord" where
  "stamp start tid i ev = \<lparr>ar_seq = start + of_nat i, ar_actor_tid = tid, ar_event = ev\<rparr>"

definition history :: "u64 \<Rightarrow> u64 \<Rightarrow> AuditEvent list \<Rightarrow> AuditRecord list" where
  "history start tid es = map2 (stamp start tid) [0..<length es] es"

lemma length_history [simp]: "length (history start tid es) = length es"
  by (simp add: history_def)

lemma history_Cons:
  "history start tid (e # es) = stamp start tid 0 e # history (start + 1) tid es"
  by (rule nth_equalityI)
     (auto simp: history_def nth_Cons' stamp_def algebra_simps simp del: upt_Suc)

lemma LOG_record_keep:
  assumes "length (LOG s) \<le> MAX_RECORDS"
  shows "LOG (audit_record ev s) =
    keep_last MAX_RECORDS (LOG s @ [stamp (NEXT_SEQ s) (current_tid s) 0 ev])"
  using assms
  by (cases "LOG s") (auto simp: LOG_audit_record keep_last_def stamp_def MAX_RECORDS_def)

lemma record_all_window:
  assumes "length (LOG s) \<le> MAX_RECORDS"
  shows "LOG (record_all es s) =
    keep_last MAX_RECORDS (LOG s @ history (NEXT_SEQ s) (current_tid s) es)"
  using assms
proof (induction es arbitrary: s)
  case Nil
  then show ?case by (simp add: keep_last_def history_def)
next
  case (Cons e es)
  let ?s = "audit_record e s"
  have len: "length (LOG ?s) \<le> MAX_RECORDS"
    using Cons.prems by (simp add: LOG_audit_record MAX_RECORDS_def)
  have "LOG (record_all es ?s) =
      keep_last MAX_RECORDS (LOG ?s @ history (NEXT_SEQ ?s) (current_tid ?s) es)"
    using len by (rule Cons.IH)
  also have "\<dots> = keep_last MAX_RECORDS
      (LOG s @ stamp (NEXT_SEQ s) (current_tid s) 0 e # history (NEXT_SEQ s + 1) (current_tid s) es)"
    using Cons.prems by (simp add: LOG_record_keep keep_last_push MAX_RECORDS_def)
  finally show ?case by (simp add: history_Cons)
qed

lemma record_all_tid [simp]: "current_tid (record_all es s) = current_tid s"
  by (induction es arbitrary: s) simp_all

text \<open>
  C5. From an empty log, whatever events are recorded, the log holds exactly the last
  \<open>MAX_RECORDS\<close> of them in order, each stamped with its own position in the whole history.
  Nothing but the oldest records is ever lost.
\<close>

theorem audit_log_is_history_window:
  "LOG (record_all es (init_audit tid)) = keep_last MAX_RECORDS (history 0 tid es)"
  using record_all_window [of "init_audit tid" es] by (simp add: init_audit_def)

text \<open>
  In a well-formed log an actor query returns only records of that actor, newest first,
  and leaves out none of them when the limit is not reached.
\<close>

lemma records_by_actor_own_slice:
  "set (records_by_actor tid mx s) \<subseteq> {r \<in> set (LOG s). ar_actor_tid r = tid} \<and>
   length (records_by_actor tid mx s) =
     min mx (length (filter (\<lambda>r. ar_actor_tid r = tid) (LOG s))) \<and>
   rev (records_by_actor tid mx s) =
     keep_last mx (filter (\<lambda>r. ar_actor_tid r = tid) (LOG s))"
proof -
  have "rev (take mx (rev xs)) = keep_last mx xs" for xs :: "AuditRecord list"
    by (simp add: keep_last_def take_rev)
  then show ?thesis
    by (auto simp: records_by_actor_def rev_filter [symmetric] dest: in_set_takeD)
qed

end
