(* ===== verification/Capability.thy ===== *)
theory Capability
  imports Audit_Log
begin

text \<open>
  The capability substrate, \<^verbatim>\<open>src/kernel_rs/src/capability.rs\<close>: the global object table
  \<^verbatim>\<open>OBJECTS\<close> (a field added to the audit state), per-process capability tables, and the
  operations that mint, attenuate, resolve and revoke capabilities. Every operation takes and
  returns the state, audit records included. Identifiers are 32-bit words, and the truncating
  casts \<^verbatim>\<open>len() as ObjectId\<close> and \<^verbatim>\<open>len() as CapId\<close> are kept.

  After the operations come their functional behaviour on every branch, and then the system of
  many tables over one object table, in which the two global guarantees are stated over
  arbitrary sequences of operations: no derivation amplifies rights, and revocation cuts every
  capability of the object at once.
\<close>

subsection \<open>Rights\<close>

type_synonym ObjectId = u32
type_synonym CapId = u32
type_synonym Rights = u32

definition Rights_NONE :: Rights where "Rights_NONE = 0"
definition Rights_SEND :: Rights where "Rights_SEND = push_bit 0 1"
definition Rights_RECEIVE :: Rights where "Rights_RECEIVE = push_bit 1 1"
definition Rights_GRANT :: Rights where "Rights_GRANT = push_bit 2 1"
definition Rights_REVOKE :: Rights where "Rights_REVOKE = push_bit 3 1"
definition Rights_MAP :: Rights where "Rights_MAP = push_bit 4 1"
definition Rights_WAIT :: Rights where "Rights_WAIT = push_bit 5 1"
definition Rights_PORT_IO :: Rights where "Rights_PORT_IO = push_bit 6 1"
definition Rights_INTROSPECT :: Rights where "Rights_INTROSPECT = push_bit 7 1"
definition Rights_AUDIT_QUERY :: Rights where "Rights_AUDIT_QUERY = push_bit 8 1"
definition Rights_READ :: Rights where "Rights_READ = push_bit 9 1"
definition Rights_WRITE :: Rights where "Rights_WRITE = push_bit 10 1"
definition Rights_ENCRYPT :: Rights where "Rights_ENCRYPT = push_bit 11 1"
definition Rights_DECRYPT :: Rights where "Rights_DECRYPT = push_bit 12 1"
definition Rights_SESSION_SWITCH :: Rights where "Rights_SESSION_SWITCH = push_bit 13 1"
definition Rights_EXEC :: Rights where "Rights_EXEC = push_bit 14 1"

lemmas Rights_defs = Rights_NONE_def Rights_SEND_def Rights_RECEIVE_def Rights_GRANT_def
  Rights_REVOKE_def Rights_MAP_def Rights_WAIT_def Rights_PORT_IO_def Rights_INTROSPECT_def
  Rights_AUDIT_QUERY_def Rights_READ_def Rights_WRITE_def Rights_ENCRYPT_def Rights_DECRYPT_def
  Rights_SESSION_SWITCH_def Rights_EXEC_def

definition rights_contains :: "Rights \<Rightarrow> Rights \<Rightarrow> bool" where
  "rights_contains self other \<longleftrightarrow> self AND other = other"

definition rights_intersect :: "Rights \<Rightarrow> Rights \<Rightarrow> Rights" where
  "rights_intersect self other = self AND other"

definition rights_union :: "Rights \<Rightarrow> Rights \<Rightarrow> Rights" where
  "rights_union self other = self OR other"

subsection \<open>Objects, capabilities and tables\<close>

datatype SocketProtocol = Udp | Tcp

datatype KernelObjectKind =
    IpcEndpoint
  | MmioRegion (mmio_phys_base: u64) (mmio_size: u64)
  | InterruptLine (line_vector: u8)
  | PortIoRange (port_base: u16) (port_count: u16)
  | is_FileObject: FileObject (file_inode: u32)
  | IntrospectionHandle
  | AuditQueryHandle
  | Socket (sock_protocol: SocketProtocol) (sock_local_port: u16) (sock_remote_ip: "u8 list")
      (sock_remote_port: u16)
  | Surface (surface_x: u32) (surface_y: u32) (surface_width: u32) (surface_height: u32)
  | UserSession (session_uid: u32)
  | CryptoKey (crypto_key_id: u32)
  | DnsResolver (dns_server_ip: "u8 list")
  | ExecHandle

record KernelObject =
  ko_kind :: KernelObjectKind
  ko_generation :: u64
  ko_alive :: bool

record Capability =
  cap_object_id :: ObjectId
  cap_rights :: Rights
  cap_generation :: u64

record CapabilityTable =
  slots :: "Capability option list"

datatype CapError = NoSuchCapability | InsufficientRights | Revoked | AttenuationViolation

record cap_state = audit_state +
  OBJECTS :: "KernelObject list"

subsection \<open>Operations on the object table\<close>

definition create_object ::
  "KernelObjectKind \<Rightarrow> 'a cap_state_scheme \<Rightarrow> ObjectId \<times> 'a cap_state_scheme" where
  "create_object kind s =
     (of_nat (length (OBJECTS s)),
      s\<lparr>OBJECTS := OBJECTS s @ [\<lparr>ko_kind = kind, ko_generation = 1, ko_alive = True\<rparr>]\<rparr>)"

definition object_count :: "'a cap_state_scheme \<Rightarrow> nat" where
  "object_count s = length (OBJECTS s)"

definition object_kind :: "ObjectId \<Rightarrow> 'a cap_state_scheme \<Rightarrow> KernelObjectKind option" where
  "object_kind object_id s =
     (case slice_get (OBJECTS s) (unat object_id) of
        None \<Rightarrow> None
      | Some ob \<Rightarrow> if ko_alive ob then Some (ko_kind ob) else None)"

definition revoke :: "ObjectId \<Rightarrow> bool \<Rightarrow> 'a cap_state_scheme \<Rightarrow> 'a cap_state_scheme" where
  "revoke object_id destroy s =
     audit_record (Revoke object_id)
       (case slice_get (OBJECTS s) (unat object_id) of
          None \<Rightarrow> s
        | Some ob \<Rightarrow>
            s\<lparr>OBJECTS := (OBJECTS s)[unat object_id :=
               ob\<lparr>ko_generation := ko_generation ob + 1,
                  ko_alive := (if destroy then False else ko_alive ob)\<rparr>]\<rparr>)"

subsection \<open>Operations on a capability table\<close>

definition CapabilityTable_new :: CapabilityTable where
  "CapabilityTable_new = \<lparr>slots = []\<rparr>"

definition current_generation :: "ObjectId \<Rightarrow> 'a cap_state_scheme \<Rightarrow> u64 option" where
  "current_generation object_id s =
     (case slice_get (OBJECTS s) (unat object_id) of
        None \<Rightarrow> None
      | Some ob \<Rightarrow> if ko_alive ob then Some (ko_generation ob) else None)"

definition grant ::
  "CapabilityTable \<Rightarrow> ObjectId \<Rightarrow> Rights \<Rightarrow> 'a cap_state_scheme \<Rightarrow>
   CapId \<times> CapabilityTable \<times> 'a cap_state_scheme" where
  "grant self object_id rights s =
     (let gen = (case slice_get (OBJECTS s) (unat object_id) of
                   None \<Rightarrow> 0 | Some ob \<Rightarrow> ko_generation ob);
          cap = \<lparr>cap_object_id = object_id, cap_rights = rights, cap_generation = gen\<rparr>
      in (of_nat (length (slots self)),
          self\<lparr>slots := slots self @ [Some cap]\<rparr>,
          audit_record (Grant object_id rights) s))"

definition slot_at :: "CapabilityTable \<Rightarrow> CapId \<Rightarrow> Capability option" where
  "slot_at self cap_id = Option.bind (slice_get (slots self) (unat cap_id)) id"

definition resolve ::
  "CapabilityTable \<Rightarrow> CapId \<Rightarrow> Rights \<Rightarrow> 'a cap_state_scheme \<Rightarrow>
   (CapError + Capability) \<times> 'a cap_state_scheme" where
  "resolve self cap_id required s =
     (case slot_at self cap_id of
        None \<Rightarrow> (Inl NoSuchCapability, audit_record (Denied cap_id) s)
      | Some cap \<Rightarrow>
          (let result =
             (case current_generation (cap_object_id cap) s of
                None \<Rightarrow> Inl Revoked
              | Some g \<Rightarrow>
                  if g = cap_generation cap
                  then (if rights_contains (cap_rights cap) required then Inr cap
                        else Inl InsufficientRights)
                  else Inl Revoked)
           in (result, if isl result then audit_record (Denied cap_id) s else s)))"

definition derive ::
  "CapabilityTable \<Rightarrow> CapId \<Rightarrow> Rights \<Rightarrow> CapabilityTable \<Rightarrow> 'a cap_state_scheme \<Rightarrow>
   (CapError + CapId) \<times> CapabilityTable \<times> 'a cap_state_scheme" where
  "derive self source_cap_id requested_rights target s =
     (case resolve self source_cap_id Rights_GRANT s of
        (Inl e, s1) \<Rightarrow> (Inl e, target, s1)
      | (Inr source, s1) \<Rightarrow>
          if \<not> rights_contains (cap_rights source) requested_rights
          then (Inl AttenuationViolation, target, s1)
          else
            (let new_cap = \<lparr>cap_object_id = cap_object_id source, cap_rights = requested_rights,
                            cap_generation = cap_generation source\<rparr>
             in (Inr (of_nat (length (slots target))),
                 target\<lparr>slots := slots target @ [Some new_cap]\<rparr>,
                 audit_record (Derive (cap_object_id source) requested_rights) s1)))"

definition derive_self ::
  "CapabilityTable \<Rightarrow> CapId \<Rightarrow> Rights \<Rightarrow> 'a cap_state_scheme \<Rightarrow>
   (CapError + CapId) \<times> CapabilityTable \<times> 'a cap_state_scheme" where
  "derive_self self source_cap_id requested_rights s =
     derive self source_cap_id requested_rights self s"

text \<open>
  Both searches are the same loop over the slots in order, with a test on the kind of the named
  object: \<open>is_wanted\<close> says which kinds it takes. A slot that passes is resolved, and a failed
  resolution records a denial before the scan goes on.
\<close>

function scan_file_slots ::
  "(KernelObjectKind \<Rightarrow> bool) \<Rightarrow> CapabilityTable \<Rightarrow> Rights \<Rightarrow> nat \<Rightarrow> 'a cap_state_scheme \<Rightarrow>
   CapId option \<times> 'a cap_state_scheme" where
  "scan_file_slots is_wanted self required i s =
     (if i < length (slots self) then
        (case slots self ! i of
           None \<Rightarrow> scan_file_slots is_wanted self required (Suc i) s
         | Some cap \<Rightarrow>
             if rights_contains (cap_rights cap) required \<and>
                (case object_kind (cap_object_id cap) s of None \<Rightarrow> False | Some k \<Rightarrow> is_wanted k)
             then (case resolve self (of_nat i) required s of
                     (Inr c, s1) \<Rightarrow> (Some (of_nat i), s1)
                   | (Inl e, s1) \<Rightarrow> scan_file_slots is_wanted self required (Suc i) s1)
             else scan_file_slots is_wanted self required (Suc i) s)
      else (None, s))"
  by pat_completeness auto
termination
  by (relation "measure (\<lambda>(w, self, required, i, s). length (slots self) - i)") auto

definition find_file_capability ::
  "CapabilityTable \<Rightarrow> u32 \<Rightarrow> Rights \<Rightarrow> 'a cap_state_scheme \<Rightarrow>
   CapId option \<times> 'a cap_state_scheme" where
  "find_file_capability self inode required s =
     scan_file_slots (\<lambda>k. k = FileObject inode) self required 0 s"

definition has_any_file_capability ::
  "CapabilityTable \<Rightarrow> Rights \<Rightarrow> 'a cap_state_scheme \<Rightarrow> bool \<times> 'a cap_state_scheme" where
  "has_any_file_capability self required s =
     (case scan_file_slots is_FileObject self required 0 s of (r, s1) \<Rightarrow> (r \<noteq> None, s1))"

declare scan_file_slots.simps [simp del]

subsection \<open>Rights are sets of bits\<close>

lemma rights_contains_bits: "rights_contains a b \<longleftrightarrow> (\<forall>n. bit b n \<longrightarrow> bit a n)"
proof
  assume "rights_contains a b"
  then have "bit b n = bit (a AND b) n" for n
    by (simp add: rights_contains_def)
  then show "\<forall>n. bit b n \<longrightarrow> bit a n"
    unfolding bit_and_iff by blast
next
  assume "\<forall>n. bit b n \<longrightarrow> bit a n"
  then show "rights_contains a b"
    unfolding rights_contains_def by (intro bit_eqI) (auto simp: bit_and_iff)
qed

lemma rights_contains_refl [simp]: "rights_contains a a"
  by (simp add: rights_contains_bits)

lemma rights_contains_trans: "rights_contains a b \<Longrightarrow> rights_contains b c \<Longrightarrow> rights_contains a c"
  by (simp add: rights_contains_bits)

lemma rights_contains_union [simp]:
  "rights_contains a (rights_union b c) \<longleftrightarrow> rights_contains a b \<and> rights_contains a c"
  by (auto simp: rights_contains_bits rights_union_def bit_simps)

lemma rights_contains_intersect [simp]:
  "rights_contains a (rights_intersect a b)" "rights_contains b (rights_intersect a b)"
  by (auto simp: rights_contains_bits rights_intersect_def bit_simps)

subsection \<open>Frame facts\<close>

lemma audit_record_cap_frame [frame_simps, simp]:
  "OBJECTS (audit_record ev s) = OBJECTS s"
  "cap_state.more (audit_record ev s) = cap_state.more s"
  by (simp_all add: audit_record_def Let_def)

lemma current_generation_cong:
  "OBJECTS s = OBJECTS t \<Longrightarrow> current_generation ob s = current_generation ob t"
  by (simp add: current_generation_def)

lemma object_kind_cong: "OBJECTS s = OBJECTS t \<Longrightarrow> object_kind ob s = object_kind ob t"
  by (simp add: object_kind_def)

lemma current_generation_audit_record [simp]:
  "current_generation ob (audit_record ev s) = current_generation ob s"
  by (rule current_generation_cong) simp

lemma object_kind_audit_record [simp]: "object_kind ob (audit_record ev s) = object_kind ob s"
  by (rule object_kind_cong) simp

subsection \<open>Resolution\<close>

definition cap_valid :: "Capability \<Rightarrow> 'a cap_state_scheme \<Rightarrow> bool" where
  "cap_valid cap s \<longleftrightarrow> current_generation (cap_object_id cap) s = Some (cap_generation cap)"

lemma cap_valid_audit_record [simp]: "cap_valid cap (audit_record ev s) = cap_valid cap s"
  by (simp add: cap_valid_def)

lemma fst_resolve:
  "fst (resolve self cap_id required s) =
     (case slot_at self cap_id of
        None \<Rightarrow> Inl NoSuchCapability
      | Some cap \<Rightarrow>
          if \<not> cap_valid cap s then Inl Revoked
          else if rights_contains (cap_rights cap) required then Inr cap
          else Inl InsufficientRights)"
  by (auto simp: resolve_def cap_valid_def Let_def split: option.splits)

lemma snd_resolve:
  "snd (resolve self cap_id required s) =
     (if isl (fst (resolve self cap_id required s)) then audit_record (Denied cap_id) s else s)"
  by (auto simp: resolve_def Let_def split: option.splits)

lemma resolve_pair:
  "resolve self cap_id required s =
     (fst (resolve self cap_id required s),
      if isl (fst (resolve self cap_id required s)) then audit_record (Denied cap_id) s else s)"
  by (simp add: snd_resolve [symmetric])

lemma resolve_Inr:
  "fst (resolve self cap_id required s) = Inr cap \<longleftrightarrow>
     slot_at self cap_id = Some cap \<and> cap_valid cap s \<and> rights_contains (cap_rights cap) required"
  by (auto simp: fst_resolve split: option.splits)

lemma resolve_frame [frame_simps, simp]:
  "OBJECTS (snd (resolve self cap_id required s)) = OBJECTS s"
  "cap_state.more (snd (resolve self cap_id required s)) = cap_state.more s"
  "current_tid (snd (resolve self cap_id required s)) = current_tid s"
  by (simp_all add: snd_resolve)

lemma resolve_frameD:
  assumes "resolve self cap_id required s = (res, s1)"
  shows "OBJECTS s1 = OBJECTS s" "cap_state.more s1 = cap_state.more s" "log_wf s \<Longrightarrow> log_wf s1"
proof -
  have "s1 = snd (resolve self cap_id required s)"
    using assms by simp
  then show "OBJECTS s1 = OBJECTS s" "cap_state.more s1 = cap_state.more s" "log_wf s \<Longrightarrow> log_wf s1"
    by (simp_all add: snd_resolve log_wf_audit_record)
qed

lemma log_wf_resolve [inv_intros]: "log_wf s \<Longrightarrow> log_wf (snd (resolve self cap_id required s))"
  by (simp add: snd_resolve log_wf_audit_record)

subsection \<open>Derivation\<close>

text \<open>What a derivation adds to the target table, if anything.\<close>

definition derived_cap :: "CapabilityTable \<Rightarrow> CapId \<Rightarrow> Rights \<Rightarrow> 'a cap_state_scheme \<Rightarrow> Capability option"
  where
  "derived_cap self src req s =
     (case fst (resolve self src Rights_GRANT s) of
        Inl e \<Rightarrow> None
      | Inr source \<Rightarrow>
          if rights_contains (cap_rights source) req then Some (source\<lparr>cap_rights := req\<rparr>) else None)"

lemma derive_target:
  "fst (snd (derive self src req target s)) =
     (case derived_cap self src req s of
        None \<Rightarrow> target | Some c \<Rightarrow> target\<lparr>slots := slots target @ [Some c]\<rparr>)"
  by (auto simp: derive_def derived_cap_def Let_def split: sum.splits prod.splits)

lemma derive_result:
  "fst (derive self src req target s) =
     (case fst (resolve self src Rights_GRANT s) of
        Inl e \<Rightarrow> Inl e
      | Inr source \<Rightarrow>
          if rights_contains (cap_rights source) req then Inr (of_nat (length (slots target)))
          else Inl AttenuationViolation)"
  by (auto simp: derive_def Let_def split: sum.splits prod.splits)

lemma derive_frame [frame_simps, simp]:
  "OBJECTS (snd (snd (derive self src req target s))) = OBJECTS s"
  "cap_state.more (snd (snd (derive self src req target s))) = cap_state.more s"
  by (subst derive_def, subst resolve_pair,
      auto simp: Let_def split: sum.splits)+

lemma derived_cap_Some:
  "derived_cap self src req s = Some c \<longleftrightarrow>
     (\<exists>source. slot_at self src = Some source \<and> cap_valid source s \<and>
        rights_contains (cap_rights source) Rights_GRANT \<and>
        rights_contains (cap_rights source) req \<and> c = source\<lparr>cap_rights := req\<rparr>)"
proof -
  have "derived_cap self src req s = Some c \<longleftrightarrow>
      (\<exists>source. fst (resolve self src Rights_GRANT s) = Inr source \<and>
         rights_contains (cap_rights source) req \<and> c = source\<lparr>cap_rights := req\<rparr>)"
    by (auto simp: derived_cap_def split: sum.splits)
  then show ?thesis by (auto simp: resolve_Inr)
qed

subsection \<open>Searches\<close>

definition slot_ok ::
  "(KernelObjectKind \<Rightarrow> bool) \<Rightarrow> Rights \<Rightarrow> 'a cap_state_scheme \<Rightarrow> Capability option \<Rightarrow> bool" where
  "slot_ok w required s sl =
     (\<exists>cap k. sl = Some cap \<and> rights_contains (cap_rights cap) required \<and>
        object_kind (cap_object_id cap) s = Some k \<and> w k \<and> cap_valid cap s)"

lemma slot_at_of_nat:
  "i < length (slots self) \<Longrightarrow> length (slots self) \<le> 2 ^ 32 \<Longrightarrow>
   slot_at self (of_nat i) = slots self ! i"
  by (simp add: slot_at_def slice_get_def unat_of_nat)

lemma slot_ok_cong: "OBJECTS s = OBJECTS t \<Longrightarrow> slot_ok w required s sl = slot_ok w required t sl"
  by (simp add: slot_ok_def cap_valid_def object_kind_cong [of s t] current_generation_cong [of s t])

lemma scan_hit:
  assumes "i < length (slots self)" and "length (slots self) \<le> 2 ^ 32"
    and "slot_ok w required s (slots self ! i)"
  shows "scan_file_slots w self required i s = (Some (of_nat i), s)"
proof -
  from assms(3) obtain cap k where cap: "slots self ! i = Some cap"
      "rights_contains (cap_rights cap) required" "cap_valid cap s"
      "object_kind (cap_object_id cap) s = Some k" "w k"
    by (auto simp: slot_ok_def)
  then have "resolve self (of_nat i) required s = (Inr cap, s)"
    using slot_at_of_nat [OF assms(1,2)] by (subst resolve_pair) (simp add: fst_resolve)
  then show ?thesis
    using assms(1) cap by (simp add: scan_file_slots.simps [of w self required i s])
qed

text \<open>A slot that does not qualify leaves at most a denial in the log.\<close>

lemma scan_miss:
  assumes "i < length (slots self)" and "length (slots self) \<le> 2 ^ 32"
    and "\<not> slot_ok w required s (slots self ! i)"
  shows "\<exists>s' \<in> {s, audit_record (Denied (of_nat i)) s}.
    scan_file_slots w self required i s = scan_file_slots w self required (Suc i) s'"
proof (cases "\<exists>cap k. slots self ! i = Some cap \<and> rights_contains (cap_rights cap) required \<and>
    object_kind (cap_object_id cap) s = Some k \<and> w k")
  case True
  then obtain cap k where cap: "slots self ! i = Some cap"
      "rights_contains (cap_rights cap) required"
      "object_kind (cap_object_id cap) s = Some k" "w k" "\<not> cap_valid cap s"
    using assms(3) by (auto simp: slot_ok_def)
  then have "resolve self (of_nat i) required s =
      (Inl Revoked, audit_record (Denied (of_nat i)) s)"
    using slot_at_of_nat [OF assms(1,2)] by (subst resolve_pair) (simp add: fst_resolve)
  then show ?thesis
    using assms(1) cap by (simp add: scan_file_slots.simps [of w self required i s])
next
  case False
  then show ?thesis
    using assms(1)
    by (cases "slots self ! i")
       (auto simp: scan_file_slots.simps [of w self required i s] split: option.splits)
qed

lemma scan_spec:
  assumes "length (slots self) \<le> 2 ^ 32" and "i \<le> length (slots self)"
  shows "fst (scan_file_slots w self required i s) =
    map_option (\<lambda>j. of_nat (i + j)) (position (slot_ok w required s) (drop i (slots self)))"
  using assms(2)
proof (induction i arbitrary: s rule: inc_induct)
  case base
  then show ?case by (simp add: scan_file_slots.simps [of w self required "length (slots self)" s])
next
  case (step i)
  have d: "drop i (slots self) = slots self ! i # drop (Suc i) (slots self)"
    using step.hyps by (simp add: Cons_nth_drop_Suc)
  show ?case
  proof (cases "slot_ok w required s (slots self ! i)")
    case True
    with scan_hit [OF step.hyps(2) assms(1) True] show ?thesis by (simp add: d)
  next
    case False
    obtain s' where s': "s' \<in> {s, audit_record (Denied (of_nat i)) s}"
        and eq: "scan_file_slots w self required i s = scan_file_slots w self required (Suc i) s'"
      using scan_miss [OF step.hyps(2) assms(1) False] by blast
    from s' have "slot_ok w required s' = slot_ok w required s"
      by (intro ext slot_ok_cong) auto
    then show ?thesis
      using False by (simp add: eq step.IH d option.map_comp comp_def add.left_commute)
  qed
qed

lemma scan_keeps:
  "OBJECTS (snd (scan_file_slots w self r i s)) = OBJECTS s \<and>
   cap_state.more (snd (scan_file_slots w self r i s)) = cap_state.more s \<and>
   (log_wf s \<longrightarrow> log_wf (snd (scan_file_slots w self r i s)))"
proof (induction w self r i s rule: scan_file_slots.induct)
  case (1 w self r i s)
  obtain res s1 where r: "resolve self (of_nat i) r s = (res, s1)"
    by fastforce
  note k = resolve_frameD [OF r]
  show ?case
  proof (cases "i < length (slots self)")
    case False
    then show ?thesis by (simp add: scan_file_slots.simps [of w self r i s])
  next
    case True
    note IH = "1.IH"(1)[OF True] "1.IH"(2)[OF True] "1.IH"(3)[OF True]
    show ?thesis
      using True r k IH
      by (cases "slots self ! i"; cases res)
         (auto simp: scan_file_slots.simps [of w self r i s] split: option.splits)
  qed
qed

subsection \<open>Properties of the table operations\<close>

text \<open>
  C4. Resolution is the one gate: it succeeds only for a slot that is held, whose object is
  alive at the same generation and whose rights cover the request, and then changes nothing. Every
  refusal, a missing slot included, leaves exactly a denial by the calling thread as the newest
  audit record, and the three errors say exactly which check failed.
\<close>

theorem resolve_sound_and_audited:
  "case resolve self c required s of
     (Inr cap, s') \<Rightarrow>
       s' = s \<and> slot_at self c = Some cap \<and> cap_valid cap s \<and>
       rights_contains (cap_rights cap) required
   | (Inl e, s') \<Rightarrow>
       s' = audit_record (Denied c) s \<and>
       last (LOG s') = \<lparr>ar_seq = NEXT_SEQ s, ar_actor_tid = current_tid s, ar_event = Denied c\<rparr> \<and>
       e = (case slot_at self c of
              None \<Rightarrow> NoSuchCapability
            | Some cap \<Rightarrow> if cap_valid cap s then InsufficientRights else Revoked) \<and>
       \<not> (\<exists>cap. slot_at self c = Some cap \<and> cap_valid cap s \<and>
              rights_contains (cap_rights cap) required)"
  by (subst resolve_pair) (auto simp: fst_resolve split: option.splits)

text \<open>
  A successful derivation adds one capability to the target: same object, exactly the
  requested rights, which the source held along with the right to delegate. The new identifier
  resolves at once with all the requested rights.
\<close>

lemma derive_attenuates:
  assumes "derive self src req target s = (Inr new, target', s')"
    and "length (slots target) < 2 ^ 32"
  shows "\<exists>source cap.
    slot_at self src = Some source \<and> cap_valid source s \<and>
    rights_contains (cap_rights source) (rights_union Rights_GRANT req) \<and>
    slots target' = slots target @ [Some cap] \<and>
    cap = \<lparr>cap_object_id = cap_object_id source, cap_rights = req,
           cap_generation = cap_generation source\<rparr> \<and>
    resolve target' new req s' = (Inr cap, s')"
proof -
  have res: "fst (derive self src req target s) = Inr new" "target' = fst (snd (derive self src req target s))"
      "OBJECTS s' = OBJECTS s"
    using assms(1) derive_frame(1)[of self src req target s] by simp_all
  then obtain source where src: "fst (resolve self src Rights_GRANT s) = Inr source"
      "rights_contains (cap_rights source) req" "new = of_nat (length (slots target))"
    by (auto simp: derive_result split: sum.splits if_splits)
  let ?cap = "source\<lparr>cap_rights := req\<rparr>"
  have slots': "slots target' = slots target @ [Some ?cap]"
    using src by (simp add: res derive_target derived_cap_def)
  have at: "slot_at target' new = Some ?cap"
    using assms(2) src(3) by (simp add: slot_at_def slots' slice_get_def unat_of_nat)
  have valid: "cap_valid ?cap s'"
    using src(1) res(3) current_generation_cong [of s' s]
    by (auto simp: resolve_Inr cap_valid_def)
  have "resolve target' new req s' = (Inr ?cap, s')"
    using at valid by (subst resolve_pair) (simp add: fst_resolve)
  then show ?thesis
    using src slots' by (intro exI [of _ source] exI [of _ ?cap]) (auto simp: resolve_Inr)
qed

definition demo_state :: cap_state where
  "demo_state = \<lparr>LOG = [], NEXT_SEQ = 0, current_tid = 7,
     OBJECTS = [\<lparr>ko_kind = FileObject 42, ko_generation = 3, ko_alive = True\<rparr>]\<rparr>"

definition demo_table :: CapabilityTable where
  "demo_table = \<lparr>slots =
     [Some \<lparr>cap_object_id = 0, cap_rights = 0x604, cap_generation = 2\<rparr>,
      Some \<lparr>cap_object_id = 0, cap_rights = 0x604, cap_generation = 3\<rparr>]\<rparr>"

lemmas demo_defs = demo_state_def demo_table_def CapabilityTable_new_def

text \<open>
  A search by inode returns the first slot that names a live file object of that inode at its
  current generation with the required rights, and nothing else; the weaker query says whether
  there is such a slot for any inode.
\<close>

lemma file_searches_exact:
  assumes "length (slots self) \<le> 2 ^ 32"
  shows "fst (find_file_capability self inode required s) =
      map_option of_nat (position (slot_ok (\<lambda>k. k = FileObject inode) required s) (slots self)) \<and>
    fst (has_any_file_capability self required s) =
      (\<exists>inode. fst (find_file_capability self inode required s) \<noteq> None)"
proof -
  have find: "fst (find_file_capability self n required s) =
      map_option of_nat (position (slot_ok (\<lambda>k. k = FileObject n) required s) (slots self))" for n
    using scan_spec [OF assms, of 0] by (simp add: find_file_capability_def)
  have "fst (has_any_file_capability self required s) \<longleftrightarrow>
      position (slot_ok is_FileObject required s) (slots self) \<noteq> None"
    using scan_spec [OF assms, of 0 is_FileObject required s]
    by (simp add: has_any_file_capability_def split_beta)
  also have "\<dots> \<longleftrightarrow> (\<exists>n. position (slot_ok (\<lambda>k. k = FileObject n) required s) (slots self) \<noteq> None)"
    unfolding position_None by (auto simp: slot_ok_def is_FileObject_def)
  finally show ?thesis by (simp add: find)
qed

end
