(* ===== verification/Cap_System.thy ===== *)
theory Cap_System
  imports Capability
begin

text \<open>
  Many capability tables over the one object table. The kernel keeps one table in every thread
  and a few kernel-side ones; a state here holds all of them, indexed by a number, and a step is
  one call of an operation of \<^verbatim>\<open>capability.rs\<close> by any of their owners, or a context switch. The
  kernel lock makes each call one step (theory \<open>Kernel_Lock\<close>). The facts are over arbitrary
  sequences of steps from boot.
\<close>

record cap_sys = cap_state +
  TABLES :: "nat \<Rightarrow> CapabilityTable"

datatype cap_op =
    CreateObject KernelObjectKind
  | GrantTo nat ObjectId Rights
  | DeriveTo nat CapId Rights nat
  | RevokeObject ObjectId bool
  | ResolveIn nat CapId Rights
  | FindFileIn nat u32 Rights
  | HasAnyFileIn nat Rights
  | SwitchThread u64

fun exec :: "cap_op \<Rightarrow> cap_sys \<Rightarrow> cap_sys" where
  "exec (CreateObject kind) s = snd (create_object kind s)"
| "exec (GrantTo p ob r) s =
     (case grant (TABLES s p) ob r s of (cid, t, s1) \<Rightarrow> s1\<lparr>TABLES := (TABLES s1)(p := t)\<rparr>)"
| "exec (DeriveTo p src r q) s =
     (case derive (TABLES s p) src r (TABLES s q) s of
        (res, t, s1) \<Rightarrow> s1\<lparr>TABLES := (TABLES s1)(q := t)\<rparr>)"
| "exec (RevokeObject ob d) s = revoke ob d s"
| "exec (ResolveIn p c r) s = snd (resolve (TABLES s p) c r s)"
| "exec (FindFileIn p n r) s = snd (find_file_capability (TABLES s p) n r s)"
| "exec (HasAnyFileIn p r) s = snd (has_any_file_capability (TABLES s p) r s)"
| "exec (SwitchThread tid) s = s\<lparr>current_tid := tid\<rparr>"

fun exec_all :: "cap_op list \<Rightarrow> cap_sys \<Rightarrow> cap_sys" where
  "exec_all [] s = s"
| "exec_all (x # xs) s = exec_all xs (exec x s)"

definition boot :: "u64 \<Rightarrow> cap_sys" where
  "boot tid = \<lparr>LOG = [], NEXT_SEQ = 0, current_tid = tid, OBJECTS = [],
               TABLES = (\<lambda>_. CapabilityTable_new)\<rparr>"

definition held :: "cap_sys \<Rightarrow> nat \<Rightarrow> Capability \<Rightarrow> bool" where
  "held s p cap \<longleftrightarrow> Some cap \<in> set (slots (TABLES s p))"

subsection \<open>What each step does to objects and tables\<close>

lemma exec_all_append [simp]: "exec_all (xs @ ys) s = exec_all ys (exec_all xs s)"
  by (induction xs arbitrary: s) auto

text \<open>
  Each step in three parts: the object table it leaves, the tables it leaves, and that the audit
  log stays well formed.
\<close>

definition bump :: "bool \<Rightarrow> KernelObject \<Rightarrow> KernelObject" where
  "bump d ob = ob\<lparr>ko_generation := ko_generation ob + 1,
                  ko_alive := (if d then False else ko_alive ob)\<rparr>"

definition granted_cap :: "ObjectId \<Rightarrow> Rights \<Rightarrow> 'a cap_state_scheme \<Rightarrow> Capability" where
  "granted_cap ob r s =
     \<lparr>cap_object_id = ob, cap_rights = r,
      cap_generation = (case slice_get (OBJECTS s) (unat ob) of None \<Rightarrow> 0 | Some x \<Rightarrow> ko_generation x)\<rparr>"

lemma grant_eq:
  "grant self ob r s =
     (of_nat (length (slots self)), self\<lparr>slots := slots self @ [Some (granted_cap ob r s)]\<rparr>,
      audit_record (Grant ob r) s)"
  by (simp add: grant_def granted_cap_def Let_def)

lemma revoke_frame [frame_simps, simp]:
  "OBJECTS (revoke ob d s) =
     (if unat ob < length (OBJECTS s)
      then (OBJECTS s)[unat ob := bump d (OBJECTS s ! unat ob)] else OBJECTS s)"
  "cap_state.more (revoke ob d s) = cap_state.more s"
  by (auto simp: revoke_def bump_def slice_get_def)

lemma TABLES_cong: "cap_state.more s = cap_state.more t \<Longrightarrow> TABLES s = TABLES (t :: cap_sys)"
  by (cases s, cases t) simp

lemma find_file_keeps [frame_simps, simp]:
  "OBJECTS (snd (find_file_capability self n r s)) = OBJECTS s"
  "cap_state.more (snd (find_file_capability self n r s)) = cap_state.more s"
  using scan_keeps [of "\<lambda>k. k = FileObject n" self r 0 s]
  by (simp_all add: find_file_capability_def)

lemma has_any_file_keeps [frame_simps, simp]:
  "OBJECTS (snd (has_any_file_capability self r s)) = OBJECTS s"
  "cap_state.more (snd (has_any_file_capability self r s)) = cap_state.more s"
  using scan_keeps [of is_FileObject self r 0 s]
  by (simp_all add: has_any_file_capability_def split_beta)

lemma OBJECTS_exec:
  "OBJECTS (exec op s) =
     (case op of
        CreateObject k \<Rightarrow> OBJECTS s @ [\<lparr>ko_kind = k, ko_generation = 1, ko_alive = True\<rparr>]
      | RevokeObject ob d \<Rightarrow>
          (if unat ob < length (OBJECTS s)
           then (OBJECTS s)[unat ob := bump d (OBJECTS s ! unat ob)] else OBJECTS s)
      | _ \<Rightarrow> OBJECTS s)"
proof (cases op)
  case (DeriveTo p c r q)
  then show ?thesis
    using derive_frame(1)[of "TABLES s p" c r "TABLES s q" s] by (simp add: split_beta)
qed (auto simp: create_object_def grant_eq)

lemma TABLES_exec:
  "TABLES (exec op s) =
     (case op of
        GrantTo p ob r \<Rightarrow>
          (TABLES s)(p := (TABLES s p)\<lparr>slots := slots (TABLES s p) @ [Some (granted_cap ob r s)]\<rparr>)
      | DeriveTo p c r q \<Rightarrow>
          (TABLES s)(q := (case derived_cap (TABLES s p) c r s of
             None \<Rightarrow> TABLES s q
           | Some cap \<Rightarrow> (TABLES s q)\<lparr>slots := slots (TABLES s q) @ [Some cap]\<rparr>))
      | _ \<Rightarrow> TABLES s)"
proof (cases op)
  case (DeriveTo p c r q)
  have "TABLES (snd (snd (derive (TABLES s p) c r (TABLES s q) s))) = TABLES s"
    by (rule TABLES_cong) simp
  moreover have "fst (snd (derive (TABLES s p) c r (TABLES s q) s)) =
      (case derived_cap (TABLES s p) c r s of
         None \<Rightarrow> TABLES s q
       | Some cap \<Rightarrow> (TABLES s q)\<lparr>slots := slots (TABLES s q) @ [Some cap]\<rparr>)"
    by (rule derive_target)
  ultimately show ?thesis
    using DeriveTo by (simp add: split_beta)
next
  case (GrantTo p ob r)
  then show ?thesis by (simp add: grant_eq TABLES_cong [of "audit_record (Grant ob r) s" s])
qed (auto simp: create_object_def intro: TABLES_cong)

declare exec.simps [simp del]

lemma held_exec:
  "held (exec op s) p cap \<longleftrightarrow>
     held s p cap \<or>
     (\<exists>ob r. op = GrantTo p ob r \<and> cap = granted_cap ob r s) \<or>
     (\<exists>q c r. op = DeriveTo q c r p \<and> derived_cap (TABLES s q) c r s = Some cap)"
  by (cases op) (auto simp: held_def TABLES_exec split: option.splits)

lemma slot_at_held: "slot_at (TABLES s p) c = Some cap \<Longrightarrow> held s p cap"
  by (auto simp: slot_at_def held_def bind_eq_Some_conv dest: slice_get_in_set)

lemma derived_cap_source:
  assumes "derived_cap (TABLES s q) c r s = Some cap"
  obtains source where "held s q source" "cap_valid source s"
    "rights_contains (cap_rights source) Rights_GRANT"
    "rights_contains (cap_rights source) (cap_rights cap)"
    "cap_object_id cap = cap_object_id source" "cap_generation cap = cap_generation source"
    "cap_rights cap = r"
  using assms by (auto simp: derived_cap_Some dest: slot_at_held)

subsection \<open>No amplification\<close>

definition backed :: "cap_op list \<Rightarrow> Capability \<Rightarrow> bool" where
  "backed ops cap \<longleftrightarrow>
     (\<exists>p r. GrantTo p (cap_object_id cap) r \<in> set ops \<and> rights_contains r (cap_rights cap))"

lemma held_backed: "held (exec_all ops (boot tid)) p cap \<Longrightarrow> backed ops cap"
proof (induction ops arbitrary: p cap rule: rev_induct)
  case Nil
  then show ?case by (simp add: held_def boot_def CapabilityTable_new_def)
next
  case (snoc op ops)
  let ?s = "exec_all ops (boot tid)"
  have mono: "backed ops c \<Longrightarrow> backed (ops @ [op]) c" for c
    by (auto simp: backed_def)
  from snoc.prems have "held (exec op ?s) p cap" by simp
  then consider "held ?s p cap"
    | ob r where "op = GrantTo p ob r" "cap = granted_cap ob r ?s"
    | q c r where "op = DeriveTo q c r p" "derived_cap (TABLES ?s q) c r ?s = Some cap"
    by (auto simp: held_exec)
  then show ?case
  proof cases
    case 1
    then show ?thesis by (intro mono snoc.IH)
  next
    case 2
    then show ?thesis by (auto simp: backed_def granted_cap_def intro!: exI [of _ p] exI [of _ r])
  next
    case 3
    then obtain source where "held ?s q source" "cap_object_id cap = cap_object_id source"
        "rights_contains (cap_rights source) (cap_rights cap)"
      by (elim derived_cap_source)
    then show ?thesis
      using snoc.IH [of q source] by (auto simp: backed_def intro: rights_contains_trans)
  qed
qed

subsection \<open>Revocation\<close>

definition gen_of :: "ObjectId \<Rightarrow> 'a cap_state_scheme \<Rightarrow> nat" where
  "gen_of ob s =
     (case slice_get (OBJECTS s) (unat ob) of None \<Rightarrow> 0 | Some x \<Rightarrow> unat (ko_generation x))"

definition gens_ok :: "cap_sys \<Rightarrow> bool" where
  "gens_ok s \<longleftrightarrow> (\<forall>p cap. held s p cap \<longrightarrow> unat (cap_generation cap) \<le> gen_of (cap_object_id cap) s)"

definition stale :: "ObjectId \<Rightarrow> cap_sys \<Rightarrow> bool" where
  "stale ob s \<longleftrightarrow> (\<forall>p cap. held s p cap \<longrightarrow> cap_object_id cap = ob \<longrightarrow>
     unat ob < length (OBJECTS s) \<longrightarrow> unat (cap_generation cap) < gen_of ob s)"

lemma gen_of_exec:
  assumes "gen_of ob s < 2 ^ 64 - 1"
  shows "gen_of ob s \<le> gen_of ob (exec op s)" "gen_of ob (exec op s) \<le> Suc (gen_of ob s)"
proof -
  have "unat (g + 1) = Suc (unat g)" if "unat g < 2 ^ 64 - 1" for g :: u64
    using that by (simp add: unat_word_ariths)
  then show "gen_of ob s \<le> gen_of ob (exec op s)" "gen_of ob (exec op s) \<le> Suc (gen_of ob s)"
    using assms
    by (cases op; force simp: gen_of_def OBJECTS_exec slice_get_def bump_def nth_append
        nth_list_update split: if_splits)+
qed

lemma gen_of_bounded:
  "length ops < 2 ^ 64 \<Longrightarrow> gen_of ob (exec_all ops (boot tid)) \<le> length ops"
proof (induction ops rule: rev_induct)
  case Nil
  then show ?case by (simp add: gen_of_def boot_def slice_get_def)
next
  case (snoc op ops)
  then have "gen_of ob (exec_all ops (boot tid)) \<le> length ops" by simp
  with snoc.prems gen_of_exec(2)[of ob "exec_all ops (boot tid)" op] show ?case by simp
qed

lemma granted_cap_simps [simp]:
  "cap_object_id (granted_cap ob r s) = ob"
  "unat (cap_generation (granted_cap ob r s)) = gen_of ob s"
  by (simp_all add: granted_cap_def gen_of_def slice_get_def)

text \<open>A capability that is new after a step and not a grant has an older one behind it.\<close>

lemma held_exec_older:
  assumes "held (exec op s) p cap" and "\<forall>q r. op \<noteq> GrantTo q (cap_object_id cap) r"
  obtains q c' where "held s q c'" "cap_object_id c' = cap_object_id cap"
    "cap_generation c' = cap_generation cap"
  using assms unfolding held_exec
proof (elim disjE exE conjE)
  fix q c r
  assume "derived_cap (TABLES s q) c r s = Some cap"
  then show ?thesis by (rule derived_cap_source) (metis that)
qed (use that in auto)

lemma gens_ok_exec:
  assumes "gens_ok s" and "\<And>ob. gen_of ob s < 2 ^ 64 - 1"
  shows "gens_ok (exec op s)"
  unfolding gens_ok_def
proof (intro allI impI)
  fix p cap
  assume "held (exec op s) p cap"
  then have "unat (cap_generation cap) \<le> gen_of (cap_object_id cap) s"
    using assms(1) unfolding held_exec
    by (elim disjE exE conjE) (auto simp: gens_ok_def elim!: derived_cap_source)
  then show "unat (cap_generation cap) \<le> gen_of (cap_object_id cap) (exec op s)"
    using gen_of_exec(1)[OF assms(2)] by (rule order_trans)
qed

lemma gens_ok_all: "length ops < 2 ^ 64 \<Longrightarrow> gens_ok (exec_all ops (boot tid))"
proof (induction ops rule: rev_induct)
  case Nil
  then show ?case by (simp add: gens_ok_def held_def boot_def CapabilityTable_new_def)
next
  case (snoc op ops)
  then have "gens_ok (exec_all ops (boot tid))" by simp
  moreover have "gen_of ob (exec_all ops (boot tid)) < 2 ^ 64 - 1" for ob
    using gen_of_bounded [of ops ob tid] snoc.prems by simp
  ultimately show ?case by (simp add: gens_ok_exec)
qed

lemma cap_valid_gen: "cap_valid cap s \<Longrightarrow>
    unat (cap_object_id cap) < length (OBJECTS s) \<and>
    gen_of (cap_object_id cap) s = unat (cap_generation cap)"
  by (auto simp: cap_valid_def current_generation_def gen_of_def slice_get_def split: if_splits)

lemma stale_not_valid:
  "stale ob s \<Longrightarrow> held s p cap \<Longrightarrow> cap_object_id cap = ob \<Longrightarrow> \<not> cap_valid cap s"
  using cap_valid_gen by (fastforce simp: stale_def)

lemma stale_revoke:
  assumes "gens_ok s" and "gen_of ob s < 2 ^ 64 - 1"
  shows "stale ob (exec (RevokeObject ob d) s)"
  unfolding stale_def
proof (intro allI impI)
  fix p cap
  assume h: "held (exec (RevokeObject ob d) s) p cap" and ob: "cap_object_id cap = ob"
    and ex: "unat ob < length (OBJECTS (exec (RevokeObject ob d) s))"
  have "unat (cap_generation cap) \<le> gen_of ob s"
    using h ob assms(1) by (auto simp: held_exec gens_ok_def)
  also have "gen_of ob s < gen_of ob (exec (RevokeObject ob d) s)"
    using ex assms(2)
    by (auto simp: gen_of_def OBJECTS_exec slice_get_def bump_def unat_word_ariths split: if_splits)
  finally show "unat (cap_generation cap) < gen_of ob (exec (RevokeObject ob d) s)" .
qed

lemma stale_exec:
  assumes "stale ob s" and "gens_ok s" and "gen_of ob s < 2 ^ 64 - 1"
    and "\<forall>p r. op \<noteq> GrantTo p ob r"
  shows "stale ob (exec op s)"
  unfolding stale_def
proof (intro allI impI)
  fix p cap
  assume h: "held (exec op s) p cap" and ob: "cap_object_id cap = ob"
    and ex: "unat ob < length (OBJECTS (exec op s))"
  obtain q c' where c': "held s q c'" "cap_object_id c' = ob"
      "cap_generation c' = cap_generation cap"
    using h ob assms(4) by (auto elim: held_exec_older)
  show "unat (cap_generation cap) < gen_of ob (exec op s)"
  proof (cases "unat ob < length (OBJECTS s)")
    case True
    then have "unat (cap_generation cap) < gen_of ob s"
      using assms(1) c' unfolding stale_def by metis
    also have "\<dots> \<le> gen_of ob (exec op s)"
      using assms(3) by (rule gen_of_exec(1))
    finally show ?thesis .
  next
    case False
    then have "unat (cap_generation cap) = 0"
      using assms(2) c' by (fastforce simp: gens_ok_def gen_of_def slice_get_def)
    moreover have "gen_of ob (exec op s) = 1"
      using False ex
      by (cases op) (auto simp: gen_of_def OBJECTS_exec slice_get_def nth_append split: if_splits)
    ultimately show ?thesis by simp
  qed
qed

lemma stale_all:
  assumes "length (ops1 @ RevokeObject ob d # ops2) < 2 ^ 64" and "\<forall>p r. GrantTo p ob r \<notin> set ops2"
  shows "stale ob (exec_all (ops1 @ RevokeObject ob d # ops2) (boot tid))"
  using assms
proof (induction ops2 rule: rev_induct)
  case Nil
  have "gens_ok (exec_all ops1 (boot tid))"
    using Nil.prems by (intro gens_ok_all) simp
  moreover have "gen_of ob (exec_all ops1 (boot tid)) < 2 ^ 64 - 1"
    using gen_of_bounded [of ops1 ob tid] Nil.prems by simp
  ultimately show ?case by (simp add: stale_revoke)
next
  case (snoc op ops2)
  let ?ops = "ops1 @ RevokeObject ob d # ops2"
  have "stale ob (exec_all ?ops (boot tid))"
    using snoc by auto
  moreover have "gens_ok (exec_all ?ops (boot tid))"
    using snoc.prems by (intro gens_ok_all) simp
  moreover have "gen_of ob (exec_all ?ops (boot tid)) < 2 ^ 64 - 1"
    using gen_of_bounded [of ?ops ob tid] snoc.prems by simp
  ultimately show ?case
    using snoc.prems(2) stale_exec [of ob "exec_all ?ops (boot tid)" op] by auto
qed

subsection \<open>Destruction and isolation\<close>

definition dead :: "ObjectId \<Rightarrow> 'a cap_state_scheme \<Rightarrow> bool" where
  "dead ob s \<longleftrightarrow> unat ob < length (OBJECTS s) \<and> \<not> ko_alive (OBJECTS s ! unat ob)"

lemma dead_exec: "dead ob s \<Longrightarrow> dead ob (exec op s)"
  by (cases op) (auto simp: dead_def OBJECTS_exec bump_def nth_append nth_list_update)

lemma dead_exec_all: "dead ob s \<Longrightarrow> dead ob (exec_all ops s)"
  by (induction ops arbitrary: s) (auto intro: dead_exec)

lemma dead_destroy:
  "unat ob < length (OBJECTS s) \<Longrightarrow> dead ob (exec (RevokeObject ob True) s)"
  by (simp add: dead_def OBJECTS_exec bump_def)

lemma dead_not_valid: "dead (cap_object_id cap) s \<Longrightarrow> \<not> cap_valid cap s"
  by (simp add: dead_def cap_valid_def current_generation_def slice_get_def)

fun receives :: "nat \<Rightarrow> cap_op \<Rightarrow> bool" where
  "receives p (GrantTo q ob r) = (q = p)"
| "receives p (DeriveTo q c r q') = (q' = p)"
| "receives p _ = False"

lemma TABLES_not_receives: "\<not> receives p op \<Longrightarrow> TABLES (exec op s) p = TABLES s p"
  by (cases op) (auto simp: TABLES_exec)

lemma TABLES_isolated:
  "\<forall>op \<in> set ops. \<not> receives p op \<Longrightarrow> TABLES (exec_all ops s) p = TABLES s p"
  by (induction ops arbitrary: s) (auto simp: TABLES_not_receives)

subsection \<open>Properties\<close>

text \<open>
  C1. No amplification. After any sequence of operations from boot, every capability held in any
  table names an object for which the kernel itself made a grant, with at least those rights: no
  chain of derivations, in any interleaving, adds a right.
\<close>

theorem no_rights_amplification:
  assumes "slot_at (TABLES (exec_all ops (boot tid)) p) c = Some cap"
  shows "\<exists>q r. GrantTo q (cap_object_id cap) r \<in> set ops \<and> rights_contains r (cap_rights cap)"
  using held_backed [OF slot_at_held [OF assms]] by (simp add: backed_def)

definition demo_ops :: "cap_op list" where
  "demo_ops = [CreateObject IpcEndpoint, GrantTo 0 0 15, DeriveTo 0 0 1 3]"

lemma demo_TABLES_3:
  "slots (TABLES (exec_all demo_ops (boot 5)) 3) =
     [Some \<lparr>cap_object_id = 0, cap_rights = 1, cap_generation = 1\<rparr>]"
  by (simp add: demo_ops_def TABLES_exec OBJECTS_exec boot_def CapabilityTable_new_def
      derived_cap_Some derived_cap_def fst_resolve slot_at_def slice_get_def granted_cap_def
      cap_valid_def current_generation_def rights_contains_def Rights_defs)

theorem no_rights_amplification_witness:
  "\<exists>q r. GrantTo q 0 r \<in> set demo_ops \<and> rights_contains r 1"
proof -
  have "slot_at (TABLES (exec_all demo_ops (boot 5)) 3) 0 =
      Some \<lparr>cap_object_id = 0, cap_rights = 1, cap_generation = 1\<rparr>"
    by (simp add: slot_at_def slice_get_def demo_TABLES_3)
  from no_rights_amplification [OF this] show ?thesis by simp
qed

text \<open>
  C2. Revocation is complete and immediate. Once an object is revoked, no capability of it that
  any table holds resolves for any purpose, however many derivations lie between it and the
  original grant and whatever operations follow, as long as the kernel makes no new grant of the
  object. (The bound keeps the 64-bit generation counter from wrapping around.)
\<close>

theorem revocation_complete:
  assumes "length (ops1 @ RevokeObject ob d # ops2) < 2 ^ 64"
    and "\<forall>q r. GrantTo q ob r \<notin> set ops2"
    and "s = exec_all (ops1 @ RevokeObject ob d # ops2) (boot tid)"
    and "slot_at (TABLES s p) c = Some cap" and "cap_object_id cap = ob"
  shows "resolve (TABLES s p) c required s = (Inl Revoked, audit_record (Denied c) s)"
proof -
  have "stale ob s"
    using stale_all [OF assms(1,2)] assms(3) by simp
  then have "\<not> cap_valid cap s"
    using slot_at_held [OF assms(4)] assms(5) by (rule stale_not_valid)
  with assms(4) show ?thesis
    by (subst resolve_pair) (simp add: fst_resolve)
qed

theorem revocation_complete_witness:
  "\<exists>s. s = exec_all (demo_ops @ RevokeObject 0 False # [SwitchThread 9]) (boot 5) \<and>
    resolve (TABLES s 3) 0 1 s = (Inl Revoked, audit_record (Denied 0) s)"
proof -
  let ?s = "exec_all (demo_ops @ RevokeObject 0 False # [SwitchThread 9]) (boot 5)"
  have len: "length (demo_ops @ RevokeObject 0 False # [SwitchThread 9]) < 2 ^ 64"
    by (simp add: demo_ops_def)
  have ng: "\<forall>q r. GrantTo q 0 r \<notin> set [SwitchThread 9]"
    by simp
  have at: "slot_at (TABLES ?s 3) 0 = Some \<lparr>cap_object_id = 0, cap_rights = 1, cap_generation = 1\<rparr>"
    by (simp add: slot_at_def slice_get_def TABLES_exec demo_TABLES_3)
  show ?thesis
    using revocation_complete [OF len ng refl at] by simp
qed

text \<open>
  C3. Destruction is final: once an existing object is revoked with \<^verbatim>\<open>destroy\<close>, no later operation
  of any kind, not even a new grant, makes a capability of it resolve again.
\<close>

theorem destruction_final:
  assumes "unat ob < length (OBJECTS s)" and "s' = exec_all ops (exec (RevokeObject ob True) s)"
    and "slot_at (TABLES s' p) c = Some cap" and "cap_object_id cap = ob"
  shows "fst (resolve (TABLES s' p) c required s') = Inl Revoked"
proof -
  have "dead ob s'"
    using assms(1,2) by (simp add: dead_exec_all dead_destroy)
  then have "\<not> cap_valid cap s'"
    using dead_not_valid [of cap s'] assms(4) by simp
  with assms(3) show ?thesis by (simp add: fst_resolve)
qed

theorem destruction_final_witness:
  "fst (resolve (TABLES (exec_all [GrantTo 3 0 1] (exec (RevokeObject 0 True)
      (exec_all demo_ops (boot 5)))) 3) 1 1
      (exec_all [GrantTo 3 0 1] (exec (RevokeObject 0 True) (exec_all demo_ops (boot 5))))) = Inl Revoked"
proof -
  let ?s = "exec_all demo_ops (boot 5)"
  let ?t = "exec (RevokeObject 0 True) ?s"
  have ex: "unat (0 :: ObjectId) < length (OBJECTS ?s)"
    by (simp add: demo_ops_def OBJECTS_exec boot_def)
  have at: "slot_at (TABLES (exec_all [GrantTo 3 0 1] ?t) 3) 1 = Some (granted_cap 0 1 ?t)"
    by (simp add: slot_at_def slice_get_def TABLES_exec demo_TABLES_3)
  show ?thesis
    by (rule destruction_final [OF ex refl at]) simp
qed

text \<open>
  Isolation between sessions. A table changes only by a grant or a derivation into it: if
  none of the operations after a point names it as target, every identifier of it resolves against
  the same slots as before, and a slot that was never filled yields \<open>NoSuchCapability\<close>, exactly as a
  made-up identifier does.
\<close>

lemma table_isolation:
  assumes "\<forall>op \<in> set ops. \<not> receives p op"
  shows "TABLES (exec_all ops s) p = TABLES s p \<and>
    (slot_at (TABLES s p) c = None \<longrightarrow>
     fst (resolve (TABLES (exec_all ops s) p) c required (exec_all ops s)) = Inl NoSuchCapability)"
  using TABLES_isolated [OF assms] by (simp add: fst_resolve)

end
