(* ===== verification/Queues.thy ===== *)
theory Queues
  imports Prelude "HOL-Library.Sublist"
begin

text \<open>
  Bounded FIFO queues over fixed arrays. The kernel has three: the mailbox of an IPC endpoint
  (\<^verbatim>\<open>ipc.rs\<close>), the interrupt event ring (\<^verbatim>\<open>events.rs\<close>) and the input queue (\<^verbatim>\<open>input_queue.rs\<close>). This theory
  holds the contract they share, as a locale over an abstract list of contents, the run of an
  arbitrary sequence of operations against it, and the arithmetic of circular arrays that the
  three implementations need. A queue operation returns \<open>None\<close> where the code would panic on an
  array index.
\<close>

subsection \<open>The contract\<close>

datatype 'e queue_op = Enq 'e | Deq

fun run_queue :: "('e \<Rightarrow> 's \<Rightarrow> 's option) \<Rightarrow> ('s \<Rightarrow> ('e option \<times> 's) option) \<Rightarrow> 'e queue_op list \<Rightarrow> 's \<Rightarrow>
  ('e option list \<times> 's) option" where
  "run_queue enq deq [] s = Some ([], s)"
| "run_queue enq deq (Enq e # ops) s = Option.bind (enq e s) (run_queue enq deq ops)"
| "run_queue enq deq (Deq # ops) s =
     Option.bind (deq s) (\<lambda>(out, s'). map_option (map_prod (Cons out) id) (run_queue enq deq ops s'))"

text \<open>The same run against a plain list, where \<open>admit\<close> says what a full queue does.\<close>

fun run_list :: "('e \<Rightarrow> 'e list \<Rightarrow> 'e list) \<Rightarrow> 'e queue_op list \<Rightarrow> 'e list \<Rightarrow> 'e option list \<times> 'e list" where
  "run_list admit [] xs = ([], xs)"
| "run_list admit (Enq e # ops) xs = run_list admit ops (admit e xs)"
| "run_list admit (Deq # ops) xs =
     map_prod (Cons (case xs of [] \<Rightarrow> None | x # _ \<Rightarrow> Some x)) id (run_list admit ops (tl xs))"

definition drop_new :: "nat \<Rightarrow> 'e \<Rightarrow> 'e list \<Rightarrow> 'e list" where
  "drop_new n e xs = (if length xs < n then xs @ [e] else xs)"

definition drop_old :: "nat \<Rightarrow> 'e \<Rightarrow> 'e list \<Rightarrow> 'e list" where
  "drop_old n e xs = keep_last n (xs @ [e])"

locale fifo_source =
  fixes inv :: "'s \<Rightarrow> bool" and contents :: "'s \<Rightarrow> 'e list"
    and deq :: "'s \<Rightarrow> ('e option \<times> 's) option"
  assumes deq_empty: "inv s \<Longrightarrow> contents s = [] \<Longrightarrow>
      \<exists>s'. deq s = Some (None, s') \<and> inv s' \<and> contents s' = []"
    and deq_cons: "inv s \<Longrightarrow> contents s = e # es \<Longrightarrow>
      \<exists>s'. deq s = Some (Some e, s') \<and> inv s' \<and> contents s' = es"
begin

lemma deq_spec:
  assumes "inv s"
  shows "\<exists>s'. deq s = Some (case contents s of [] \<Rightarrow> None | x # _ \<Rightarrow> Some x, s') \<and>
    inv s' \<and> contents s' = tl (contents s)"
  using deq_empty [OF assms] deq_cons [OF assms] by (cases "contents s") auto

end

locale event_queue = fifo_source inv contents deq
  for inv :: "'s \<Rightarrow> bool" and contents :: "'s \<Rightarrow> 'e list" and deq +
  fixes enq :: "'e \<Rightarrow> 's \<Rightarrow> 's option" and admit :: "'e \<Rightarrow> 'e list \<Rightarrow> 'e list"
  assumes enq_spec: "inv s \<Longrightarrow> \<exists>s'. enq e s = Some s' \<and> inv s' \<and> contents s' = admit e (contents s)"
begin

lemma run_refines_list:
  assumes "inv s"
  shows "\<exists>s'. run_queue enq deq ops s = Some (fst (run_list admit ops (contents s)), s') \<and>
    inv s' \<and> contents s' = snd (run_list admit ops (contents s))"
  using assms
proof (induction ops arbitrary: s)
  case (Cons op ops)
  show ?case
  proof (cases op)
    case (Enq e)
    obtain s' where "enq e s = Some s'" "inv s'" "contents s' = admit e (contents s)"
      using enq_spec [OF Cons.prems] by blast
    with Cons.IH [of s'] show ?thesis by (simp add: Enq)
  next
    case Deq
    obtain s' where "deq s = Some (case contents s of [] \<Rightarrow> None | x # _ \<Rightarrow> Some x, s')"
      "inv s'" "contents s' = tl (contents s)"
      using deq_spec [OF Cons.prems] by blast
    with Cons.IH [of s'] show ?thesis by (auto simp: Deq)
  qed
qed simp

end

subsection \<open>Facts about the list queue\<close>

fun enqs :: "'e queue_op list \<Rightarrow> 'e list" where
  "enqs [] = []"
| "enqs (Enq e # ops) = e # enqs ops"
| "enqs (Deq # ops) = enqs ops"

definition outputs :: "'e option list \<Rightarrow> 'e list" where
  "outputs os = List.map_filter id os"

lemma outputs_simps [simp]:
  "outputs [] = []" "outputs (None # os) = outputs os" "outputs (Some e # os) = e # outputs os"
  by (simp_all add: outputs_def List.map_filter_def)

lemma length_drop_new: "length xs \<le> n \<Longrightarrow> length (drop_new n e xs) \<le> n"
  by (simp add: drop_new_def)

text \<open>Never reordered, never duplicated: what comes out and stays is a subsequence of what went in.\<close>

lemma run_list_subseq:
  assumes "\<And>e xs. subseq (admit e xs) (xs @ [e])"
  shows "subseq (outputs (fst (run_list admit ops xs)) @ snd (run_list admit ops xs)) (xs @ enqs ops)"
proof (induction ops arbitrary: xs)
  case (Cons op ops)
  show ?case
  proof (cases op)
    case (Enq e)
    have "subseq (admit e xs @ enqs ops) ((xs @ [e]) @ enqs ops)"
      using assms by (rule list_emb_append_mono [OF _ subseq_order.order_refl])
    with Cons.IH [of "admit e xs"] have
      "subseq (outputs (fst (run_list admit ops (admit e xs))) @ snd (run_list admit ops (admit e xs)))
         ((xs @ [e]) @ enqs ops)"
      by (rule subseq_order.order_trans)
    then show ?thesis by (simp add: Enq)
  next
    case Deq
    then show ?thesis using Cons.IH [of "tl xs"] by (cases xs) simp_all
  qed
qed simp

lemma subseq_drop_new: "subseq (drop_new n e xs) (xs @ [e])"
  by (simp add: drop_new_def prefix_imp_subseq)

lemma subseq_drop_old: "subseq (drop_old n e xs) (xs @ [e])"
  unfolding drop_old_def keep_last_def by (rule suffix_imp_subseq) (rule suffix_drop)

subsection \<open>Circular arrays\<close>

definition ring_contents :: "'a list \<Rightarrow> nat \<Rightarrow> nat \<Rightarrow> 'a list" where
  "ring_contents slots t n = map (\<lambda>i. slots ! ((t + i) mod length slots)) [0..<n]"

lemma length_ring_contents [simp]: "length (ring_contents slots t n) = n"
  by (simp add: ring_contents_def)

lemma ring_contents_eq_Nil [simp]: "ring_contents slots t n = [] \<longleftrightarrow> n = 0"
  by (simp add: ring_contents_def)

lemma ring_contents_0 [simp]: "ring_contents slots t 0 = []"
  by (simp add: ring_contents_def)

lemma ring_contents_mod: "ring_contents slots (t mod length slots) n = ring_contents slots t n"
  by (simp add: ring_contents_def mod_add_left_eq)

lemma ring_contents_Suc:
  "ring_contents slots t (Suc n) = slots ! (t mod length slots) # ring_contents slots (Suc t) n"
  by (simp add: ring_contents_def upt_conv_Cons map_Suc_upt [symmetric] del: upt_Suc)

lemma ring_slot_fresh:
  assumes "i < n" "n < length slots"
  shows "(t + i) mod length slots \<noteq> (t + n) mod length slots"
proof
  assume "(t + i) mod length slots = (t + n) mod length slots"
  then have "length slots dvd (t + n) - (t + i)"
    using assms by (metis add_left_mono less_imp_le mod_eq_dvd_iff_nat)
  then show False using assms by (simp add: nat_dvd_not_less)
qed

lemma ring_contents_overwrite:
  assumes "n < length slots" "n' \<le> n"
  shows "ring_contents (slots[(t + n) mod length slots := x]) t n' = ring_contents slots t n'"
proof -
  have "slots[(t + n) mod length slots := x] ! ((t + i) mod length slots) =
      slots ! ((t + i) mod length slots)" if "i < n'" for i
    using ring_slot_fresh [of i n slots t] assms that by (metis nth_list_update_neq order_less_le_trans)
  then show ?thesis by (simp add: ring_contents_def)
qed

lemma ring_contents_snoc:
  assumes "n < length slots"
  shows "ring_contents (slots[(t + n) mod length slots := x]) t (Suc n) = ring_contents slots t n @ [x]"
proof -
  let ?slots = "slots[(t + n) mod length slots := x]"
  have "ring_contents ?slots t (Suc n) = ring_contents ?slots t n @ [?slots ! ((t + n) mod length slots)]"
    by (simp add: ring_contents_def)
  moreover have "(t + n) mod length slots < length slots"
    using assms by (intro mod_less_divisor) auto
  ultimately show ?thesis
    using ring_contents_overwrite [OF assms order_refl] by simp
qed

end
