(* ===== verification/Event_Rings.thy ===== *)
theory Event_Rings
  imports Queues
begin

text \<open>
  The two event rings of the kernel: the interrupt event ring of \<^verbatim>\<open>events.rs\<close>, which drops the newest
  event when it is full, and the input queue of \<^verbatim>\<open>input_queue.rs\<close>, which drops the oldest. Both are
  interpretations of the queue contract. The atomics are read and written by one producer and one
  consumer; an operation is one step here.
\<close>

lemma unat_index_step: "unat ((w + 1) mod 256 :: u64) = Suc (unat w) mod 256"
  by (simp add: unat_mod unat_word_ariths mod_mod_cancel)

text \<open>How the distance between two indices below 256 moves with them.\<close>

lemma index_distance:
  assumes "h < 256" "t < (256 :: nat)"
  shows "Suc h mod 256 = t \<longleftrightarrow> (h + 256 - t) mod 256 = 255"
    and "(h + 256 - t) mod 256 \<noteq> 255 \<Longrightarrow> (Suc h mod 256 + 256 - t) mod 256 = Suc ((h + 256 - t) mod 256)"
    and "(h + 256 - t) mod 256 = Suc n \<Longrightarrow> (h + 256 - Suc t mod 256) mod 256 = n"
  using assms by (auto simp: mod_if split: if_splits)

subsection \<open>\<^verbatim>\<open>events.rs\<close>\<close>

datatype Event = Tick u64

definition CAPACITY :: nat where "CAPACITY = 256"

record RingBuffer =
  rb_slots :: "Event option list"
  rb_head :: u64
  rb_tail :: u64

definition RingBuffer_init :: RingBuffer where
  "RingBuffer_init = \<lparr>rb_slots = replicate CAPACITY None, rb_head = 0, rb_tail = 0\<rparr>"

definition push_event :: "Event \<Rightarrow> RingBuffer \<Rightarrow> RingBuffer option" where
  "push_event event q =
     (let head = rb_head q; next = (head + 1) mod of_nat CAPACITY
      in if next = rb_tail q then Some q
         else if unat head < length (rb_slots q)
         then Some (q\<lparr>rb_slots := (rb_slots q)[unat head := Some event], rb_head := next\<rparr>)
         else None)"

definition pop_event :: "RingBuffer \<Rightarrow> (Event option \<times> RingBuffer) option" where
  "pop_event q =
     (let tail = rb_tail q
      in if tail = rb_head q then Some (None, q)
         else if unat tail < length (rb_slots q)
         then Some (rb_slots q ! unat tail,
                    q\<lparr>rb_slots := (rb_slots q)[unat tail := None],
                      rb_tail := (tail + 1) mod of_nat CAPACITY\<rparr>)
         else None)"

text \<open>
  The number of stored events, and what they are. The invariant says that exactly the occupied
  slots hold an event.
\<close>

definition rb_count :: "RingBuffer \<Rightarrow> nat" where
  "rb_count q = (unat (rb_head q) + CAPACITY - unat (rb_tail q)) mod CAPACITY"

definition rb_raw :: "RingBuffer \<Rightarrow> Event option list" where
  "rb_raw q = ring_contents (rb_slots q) (unat (rb_tail q)) (rb_count q)"

definition rb_contents :: "RingBuffer \<Rightarrow> Event list" where
  "rb_contents q = map the (rb_raw q)"

definition rb_wf :: "RingBuffer \<Rightarrow> bool" where
  "rb_wf q \<longleftrightarrow> length (rb_slots q) = CAPACITY \<and>
     unat (rb_head q) < CAPACITY \<and> unat (rb_tail q) < CAPACITY \<and> None \<notin> set (rb_raw q)"

lemma rb_wf_init: "rb_wf RingBuffer_init" "rb_contents RingBuffer_init = []"
  by (simp_all add: rb_wf_def RingBuffer_init_def rb_raw_def rb_count_def rb_contents_def CAPACITY_def)

lemma rb_head_tail:
  assumes "rb_wf q"
  shows "unat (rb_head q) = (unat (rb_tail q) + rb_count q) mod CAPACITY" "rb_count q < CAPACITY"
  using assms by (auto simp: rb_wf_def rb_count_def CAPACITY_def mod_add_right_eq)

lemma rb_empty_iff:
  assumes "rb_wf q"
  shows "rb_tail q = rb_head q \<longleftrightarrow> rb_count q = 0"
  using rb_head_tail [OF assms] assms
  by (auto simp: rb_wf_def rb_count_def CAPACITY_def word_unat_eq_iff)

lemma rb_full_iff:
  assumes "rb_wf q"
  shows "(rb_head q + 1) mod 256 = rb_tail q \<longleftrightarrow> rb_count q = CAPACITY - 1"
proof -
  have h: "unat (rb_head q) < 256" and t: "unat (rb_tail q) < 256"
    using assms by (auto simp: rb_wf_def CAPACITY_def)
  have "(rb_head q + 1) mod 256 = rb_tail q \<longleftrightarrow> Suc (unat (rb_head q)) mod 256 = unat (rb_tail q)"
    by (metis unat_index_step word_unat_eq_iff)
  also have "\<dots> \<longleftrightarrow> (unat (rb_head q) + 256 - unat (rb_tail q)) mod 256 = 255"
    by (rule index_distance [OF h t])
  finally show ?thesis by (simp add: rb_count_def CAPACITY_def)
qed

lemma push_event_spec:
  assumes wf: "rb_wf q"
  shows "\<exists>q'. push_event e q = Some q' \<and> rb_wf q' \<and>
    rb_contents q' = drop_new (CAPACITY - 1) e (rb_contents q)"
proof (cases "rb_count q = CAPACITY - 1")
  case True
  then show ?thesis
    using rb_full_iff [OF wf] wf
    by (simp add: push_event_def drop_new_def rb_contents_def rb_raw_def CAPACITY_def)
next
  case False
  let ?q = "q\<lparr>rb_slots := (rb_slots q)[unat (rb_head q) := Some e], rb_head := (rb_head q + 1) mod 256\<rparr>"
  note [simp] = CAPACITY_def
  have len: "length (rb_slots q) = 256" "unat (rb_head q) < 256" "unat (rb_tail q) < 256"
    using wf by (auto simp: rb_wf_def)
  have lt: "Suc (rb_count q) < 256"
    using False rb_head_tail(2) [OF wf] by simp
  have count: "rb_count ?q = Suc (rb_count q)"
    using False index_distance(2) [OF len(2,3)] by (simp add: rb_count_def unat_index_step)
  have raw: "rb_raw ?q = rb_raw q @ [Some e]"
    unfolding rb_raw_def count
    using ring_contents_snoc [of "rb_count q" "rb_slots q" "unat (rb_tail q)" "Some e"]
      rb_head_tail(1) [OF wf] lt len by simp
  have "push_event e q = Some ?q"
    using rb_full_iff [OF wf] False len by (simp add: push_event_def Let_def)
  moreover have "rb_wf ?q"
    using wf raw by (simp add: rb_wf_def unat_index_step)
  moreover have "rb_contents ?q = drop_new 255 e (rb_contents q)"
    using lt by (simp add: rb_contents_def raw drop_new_def) (simp add: rb_raw_def)
  ultimately show ?thesis by auto
qed

lemma pop_event_cons:
  assumes wf: "rb_wf q" and "rb_contents q = e # es"
  shows "\<exists>q'. pop_event q = Some (Some e, q') \<and> rb_wf q' \<and> rb_contents q' = es"
proof -
  let ?q = "q\<lparr>rb_slots := (rb_slots q)[unat (rb_tail q) := None], rb_tail := (rb_tail q + 1) mod 256\<rparr>"
  note [simp] = CAPACITY_def
  have len: "length (rb_slots q) = 256" "unat (rb_head q) < 256" "unat (rb_tail q) < 256"
    using wf by (auto simp: rb_wf_def)
  obtain n where n: "rb_count q = Suc n" "n < 255"
    using assms(2) rb_head_tail(2) [OF wf] by (cases "rb_count q") (auto simp: rb_contents_def rb_raw_def)
  have count: "rb_count ?q = n"
    using n index_distance(3) [OF len(2,3)] by (simp add: rb_count_def unat_index_step)
  have raw: "rb_raw q = rb_slots q ! unat (rb_tail q) # rb_raw ?q"
    using ring_contents_Suc [of "rb_slots q" "unat (rb_tail q)" n] n len
      ring_contents_overwrite [of 255 "rb_slots q" n "Suc (unat (rb_tail q))" None]
      ring_contents_mod [of "(rb_slots q)[unat (rb_tail q) := None]" "Suc (unat (rb_tail q))" n]
    by (simp add: rb_raw_def count unat_index_step)
  have e: "rb_slots q ! unat (rb_tail q) = Some e" "rb_contents ?q = es"
    using raw assms wf by (auto simp: rb_contents_def rb_wf_def)
  have "pop_event q = Some (Some e, ?q)"
    using rb_empty_iff [OF wf] n len e by (simp add: pop_event_def Let_def)
  moreover have "rb_wf ?q"
    using wf raw by (simp add: rb_wf_def unat_index_step)
  ultimately show ?thesis using e by auto
qed

interpretation events: event_queue rb_wf rb_contents pop_event push_event "drop_new (CAPACITY - 1)"
proof unfold_locales
  fix q assume "rb_wf q" "rb_contents q = []"
  then show "\<exists>s'. pop_event q = Some (None, s') \<and> rb_wf s' \<and> rb_contents s' = []"
    using rb_empty_iff [of q] by (auto simp: pop_event_def rb_contents_def rb_raw_def)
qed (fact push_event_spec pop_event_cons)+

text \<open>
  The interrupt event ring is a first-in first-out queue of 255 events: whatever pushes and
  pops run from boot, no index leaves the array, the pops return exactly what they would from a
  list that refuses an event when it holds 255, and so events are never reordered or duplicated.
\<close>

lemma event_ring_is_fifo:
  "\<exists>q'. run_queue push_event pop_event ops RingBuffer_init =
       Some (fst (run_list (drop_new (CAPACITY - 1)) ops []), q') \<and>
     subseq (outputs (fst (run_list (drop_new (CAPACITY - 1)) ops [])) @ rb_contents q') (enqs ops)"
  using events.run_refines_list [OF rb_wf_init(1), of ops]
    run_list_subseq [of "drop_new (CAPACITY - 1)", OF subseq_drop_new, of ops "[]"]
  by (auto simp: rb_wf_init)

subsection \<open>\<^verbatim>\<open>input_queue.rs\<close>\<close>

definition INPUT_QUEUE_CAPACITY :: nat where "INPUT_QUEUE_CAPACITY = 128"

definition QUEUE_MASK :: u64 where "QUEUE_MASK = of_nat INPUT_QUEUE_CAPACITY - 1"

datatype InputEventKind =
    MouseMotion (dx: "32 word") (dy: "32 word") (left_down: bool)
  | MouseButton (button: u8) (btn_down: bool)
  | Key (scancode: u8)

record InputEvent =
  ie_kind :: InputEventKind
  ie_timestamp_tsc :: u64

record input_queue =
  EVENT_BUFFER :: "InputEvent list"
  HEAD :: u64
  TAIL :: u64
  HAS_EVENTS :: bool

definition input_queue_init :: input_queue where
  "input_queue_init =
     \<lparr>EVENT_BUFFER = replicate INPUT_QUEUE_CAPACITY
        \<lparr>ie_kind = MouseMotion 0 0 False, ie_timestamp_tsc = 0\<rparr>,
      HEAD = 0, TAIL = 0, HAS_EVENTS = False\<rparr>"

text \<open>The time stamp is the value the CPU's cycle counter returns at the call.\<close>

definition enqueue :: "u64 \<Rightarrow> InputEventKind \<Rightarrow> input_queue \<Rightarrow> input_queue option" where
  "enqueue timestamp_tsc kind q =
     (let head = HEAD q; tail = TAIL q;
          q1 = (if unat (head - tail) \<ge> INPUT_QUEUE_CAPACITY then q\<lparr>TAIL := tail + 1\<rparr> else q);
          idx = unat (head AND QUEUE_MASK)
      in if idx < length (EVENT_BUFFER q1)
         then Some (q1\<lparr>EVENT_BUFFER := (EVENT_BUFFER q1)[idx :=
                        \<lparr>ie_kind = kind, ie_timestamp_tsc = timestamp_tsc\<rparr>],
                      HEAD := head + 1, HAS_EVENTS := True\<rparr>)
         else None)"

definition dequeue :: "input_queue \<Rightarrow> (InputEvent option \<times> input_queue) option" where
  "dequeue q =
     (let tail = TAIL q; head = HEAD q
      in if tail = head then Some (None, q\<lparr>HAS_EVENTS := False\<rparr>)
         else (let idx = unat (tail AND QUEUE_MASK)
               in if idx < length (EVENT_BUFFER q)
                  then (let q1 = q\<lparr>TAIL := tail + 1\<rparr>
                        in Some (Some (EVENT_BUFFER q ! idx),
                                 if TAIL q1 = HEAD q1 then q1\<lparr>HAS_EVENTS := False\<rparr> else q1))
                  else None))"

definition has_pending_events :: "input_queue \<Rightarrow> bool" where
  "has_pending_events q = HAS_EVENTS q"

definition pending_event_count :: "input_queue \<Rightarrow> u64" where
  "pending_event_count q = HEAD q - TAIL q"

definition clear_queue :: "input_queue \<Rightarrow> input_queue" where
  "clear_queue q = q\<lparr>TAIL := HEAD q, HAS_EVENTS := False\<rparr>"

definition iq_contents :: "input_queue \<Rightarrow> InputEvent list" where
  "iq_contents q = ring_contents (EVENT_BUFFER q) (unat (TAIL q)) (unat (HEAD q - TAIL q))"

definition iq_wf :: "input_queue \<Rightarrow> bool" where
  "iq_wf q \<longleftrightarrow> length (EVENT_BUFFER q) = INPUT_QUEUE_CAPACITY \<and>
     unat (HEAD q - TAIL q) \<le> INPUT_QUEUE_CAPACITY \<and> (HAS_EVENTS q \<longleftrightarrow> HEAD q \<noteq> TAIL q)"

lemma iq_wf_init: "iq_wf input_queue_init" "iq_contents input_queue_init = []"
  by (simp_all add: iq_wf_def iq_contents_def input_queue_init_def)

lemma iq_contents_Nil: "iq_contents q = [] \<longleftrightarrow> HEAD q = TAIL q"
  by (simp add: iq_contents_def unat_eq_zero)

lemma length_iq_contents: "length (iq_contents q) = unat (HEAD q - TAIL q)"
  by (simp add: iq_contents_def)

lemma masked_index: "unat (w AND QUEUE_MASK) = unat w mod 128"
proof -
  have "w AND QUEUE_MASK = take_bit 7 w"
    by (simp add: QUEUE_MASK_def INPUT_QUEUE_CAPACITY_def take_bit_eq_mask mask_eq_exp_minus_1)
  then show ?thesis by (simp add: unsigned_take_bit_eq take_bit_eq_mod unat_mod)
qed

lemma unat_mod_capacity:
  "unat (w + 1 :: u64) mod 128 = Suc (unat w) mod 128"
  "unat (w :: u64) mod 128 = (unat v + unat (w - v)) mod 128"
proof -
  have split: "unat (a + b :: u64) mod 128 = (unat a + unat b) mod 128" for a b
    by (simp add: unat_word_ariths mod_mod_cancel)
  show "unat (w + 1 :: u64) mod 128 = Suc (unat w) mod 128"
    using split [of w 1] by simp
  show "unat (w :: u64) mod 128 = (unat v + unat (w - v)) mod 128"
    using split [of v "w - v"] by simp
qed

lemma unat_distance:
  "unat (h - t) < 128 \<Longrightarrow> unat (h + 1 - t :: u64) = Suc (unat (h - t))"
  "h \<noteq> t \<Longrightarrow> unat (h - t :: u64) = Suc (unat (h - (t + 1)))"
proof -
  assume "unat (h - t) < 128"
  then have "unat (h - t + 1) = unat (h - t) + 1"
    by (simp add: unat_word_ariths)
  then show "unat (h + 1 - t) = Suc (unat (h - t))"
    by (simp add: algebra_simps)
next
  assume "h \<noteq> t"
  then show "unat (h - t) = Suc (unat (h - (t + 1)))"
    using unat_minus_one [of "h - t"] by (simp add: algebra_simps unat_gt_0)
qed

lemma dequeue_cons:
  assumes wf: "iq_wf q" and "iq_contents q = e # es"
  shows "\<exists>q'. dequeue q = Some (Some e, q') \<and> iq_wf q' \<and> iq_contents q' = es"
proof -
  note [simp] = INPUT_QUEUE_CAPACITY_def
  have len: "length (EVENT_BUFFER q) = 128"
    using wf by (simp add: iq_wf_def)
  have ne: "HEAD q \<noteq> TAIL q"
    using assms(2) by (auto simp: iq_contents_def)
  note d = unat_distance(2) [OF ne]
  have "ring_contents (EVENT_BUFFER q) (Suc (unat (TAIL q))) n =
      ring_contents (EVENT_BUFFER q) (unat (TAIL q + 1)) n" for n
    using ring_contents_mod [of "EVENT_BUFFER q"] len by (metis unat_mod_capacity(1))
  then have "EVENT_BUFFER q ! (unat (TAIL q) mod 128) = e"
    "ring_contents (EVENT_BUFFER q) (unat (TAIL q + 1)) (unat (HEAD q - (TAIL q + 1))) = es"
    using assms(2) len unfolding iq_contents_def d ring_contents_Suc by auto
  then show ?thesis
    using wf ne d len
    by (auto simp: dequeue_def Let_def masked_index iq_wf_def iq_contents_def)
qed

lemma enqueue_spec:
  assumes wf: "iq_wf q"
  shows "\<exists>q'. enqueue tsc kind q = Some q' \<and> iq_wf q' \<and>
    iq_contents q' = drop_old INPUT_QUEUE_CAPACITY \<lparr>ie_kind = kind, ie_timestamp_tsc = tsc\<rparr> (iq_contents q)"
proof -
  let ?n = "unat (HEAD q - TAIL q)" and ?ev = "\<lparr>ie_kind = kind, ie_timestamp_tsc = tsc\<rparr>"
  let ?buf = "(EVENT_BUFFER q)[unat (HEAD q) mod 128 := ?ev]"
  have len: "length (EVENT_BUFFER q) = 128" and n: "?n \<le> 128"
    using wf by (auto simp: iq_wf_def INPUT_QUEUE_CAPACITY_def)
  note slot = unat_mod_capacity(2) [of "HEAD q" "TAIL q"]
  show ?thesis
  proof (cases "?n = 128")
    case False
    then have "ring_contents ?buf (unat (TAIL q)) (unat (HEAD q + 1 - TAIL q)) = iq_contents q @ [?ev]"
      using n len slot ring_contents_snoc [of ?n "EVENT_BUFFER q" "unat (TAIL q)" ?ev]
      by (simp add: unat_distance(1) iq_contents_def)
    then show ?thesis
      using False n len unat_distance(1) [of "HEAD q" "TAIL q"]
      by (auto simp: enqueue_def Let_def masked_index iq_wf_def iq_contents_def drop_old_def
          keep_last_def INPUT_QUEUE_CAPACITY_def)
  next
    case True
    then have ne: "HEAD q \<noteq> TAIL q" by auto
    have d: "unat (HEAD q - (TAIL q + 1)) = 127"
      using unat_distance(2) [OF ne] True by simp
    then have d': "unat (HEAD q + 1 - (TAIL q + 1)) = Suc 127"
      using unat_distance(1) [of "HEAD q" "TAIL q + 1"] by simp
    have step: "ring_contents (EVENT_BUFFER q) (unat (TAIL q + 1)) m =
        ring_contents (EVENT_BUFFER q) (Suc (unat (TAIL q))) m" for m
      using ring_contents_mod [of "EVENT_BUFFER q"] len by (metis unat_mod_capacity(1))
    have "ring_contents ?buf (unat (TAIL q + 1)) (Suc 127) = tl (iq_contents q) @ [?ev]"
      using ring_contents_snoc [of 127 "EVENT_BUFFER q" "unat (TAIL q + 1)" ?ev]
        unat_mod_capacity(2) [of "HEAD q" "TAIL q + 1"] len d step
      unfolding iq_contents_def unat_distance(2) [OF ne] ring_contents_Suc by simp
    then show ?thesis
      using True len d'
      by (auto simp: enqueue_def Let_def masked_index iq_wf_def iq_contents_def drop_old_def
          keep_last_def INPUT_QUEUE_CAPACITY_def drop_Suc)
  qed
qed

text \<open>The producer's operation with its time stamp paired to the event.\<close>

definition enqueue_event :: "InputEvent \<Rightarrow> input_queue \<Rightarrow> input_queue option" where
  "enqueue_event e = enqueue (ie_timestamp_tsc e) (ie_kind e)"

interpretation inputs: event_queue iq_wf iq_contents dequeue enqueue_event "drop_old INPUT_QUEUE_CAPACITY"
proof unfold_locales
  fix q assume "iq_wf q" "iq_contents q = []"
  then show "\<exists>s'. dequeue q = Some (None, s') \<and> iq_wf s' \<and> iq_contents s' = []"
    by (auto simp: dequeue_def iq_contents_Nil iq_wf_def)
next
  fix q and e :: InputEvent
  assume "iq_wf q"
  from enqueue_spec [OF this, of "ie_timestamp_tsc e" "ie_kind e"]
  show "\<exists>s'. enqueue_event e q = Some s' \<and> iq_wf s' \<and>
      iq_contents s' = drop_old INPUT_QUEUE_CAPACITY e (iq_contents q)"
    by (cases e) (simp add: enqueue_event_def)
qed (fact dequeue_cons)

text \<open>
  The input queue keeps the newest 128 events in order under any sequence of operations from
  boot, through wrap-around of its 64-bit indices: dequeues return exactly what they would from a list
  that forgets its oldest element when it overflows, the pending flag is set exactly when an
  event is waiting, the pending count is the number waiting, and clearing leaves none.
\<close>

lemma input_queue_keeps_newest:
  "\<exists>q'. run_queue enqueue_event dequeue ops input_queue_init =
       Some (fst (run_list (drop_old INPUT_QUEUE_CAPACITY) ops []), q') \<and>
     iq_contents q' = snd (run_list (drop_old INPUT_QUEUE_CAPACITY) ops []) \<and>
     has_pending_events q' = (iq_contents q' \<noteq> []) \<and>
     unat (pending_event_count q') = length (iq_contents q') \<and>
     iq_contents (clear_queue q') = [] \<and> \<not> has_pending_events (clear_queue q')"
proof -
  obtain q' where q': "run_queue enqueue_event dequeue ops input_queue_init =
       Some (fst (run_list (drop_old INPUT_QUEUE_CAPACITY) ops []), q')" "iq_wf q'"
     "iq_contents q' = snd (run_list (drop_old INPUT_QUEUE_CAPACITY) ops [])"
    using inputs.run_refines_list [OF iq_wf_init(1), of ops] by (auto simp: iq_wf_init)
  then show ?thesis
    using length_iq_contents [of q'] iq_contents_Nil [of q'] iq_contents_Nil [of "clear_queue q'"]
    by (simp add: iq_wf_def has_pending_events_def pending_event_count_def clear_queue_def)
qed

end
