(* ===== verification/Ipc.thy ===== *)
theory Ipc
  imports Capability Queues
begin

text \<open>
  \<^verbatim>\<open>ipc.rs\<close>. An endpoint has two protocols. The mailbox (\<open>try_send\<close>, \<open>try_receive\<close>) is a ring of 32
  messages; each operation is one critical section. The rendezvous (\<open>send\<close>, \<open>receive\<close>) is a
  handshake over one atomic byte, whose loads and stores interleave with those of other
  threads, and is modelled instruction by instruction as a step relation.
\<close>

subsection \<open>Endpoints\<close>

record Message =
  msg_data :: "u64 list"

definition Message_default :: Message where
  "Message_default = \<lparr>msg_data = [0, 0, 0, 0]\<rparr>"

definition STATE_IDLE :: u8 where "STATE_IDLE = 0"
definition STATE_MESSAGE_PENDING :: u8 where "STATE_MESSAGE_PENDING = 1"
definition STATE_MESSAGE_TAKEN :: u8 where "STATE_MESSAGE_TAKEN = 2"

lemmas STATE_defs = STATE_IDLE_def STATE_MESSAGE_PENDING_def STATE_MESSAGE_TAKEN_def

definition QUEUE_DEPTH :: nat where "QUEUE_DEPTH = 32"

record Endpoint =
  ep_state :: u8
  ep_message :: Message
  q_head :: u8
  q_tail :: u8
  q_len :: u8
  q_slots :: "Message list"

record EndpointSlot =
  es_object_id :: ObjectId
  es_endpoint :: Endpoint

record ipc_state = cap_state +
  ENDPOINTS :: "EndpointSlot list"

definition find_endpoint :: "ObjectId \<Rightarrow> 'a ipc_state_scheme \<Rightarrow> Endpoint option" where
  "find_endpoint object_id s =
     map_option es_endpoint (List.find (\<lambda>sl. es_object_id sl = object_id) (ENDPOINTS s))"

text \<open>Writing through the reference that \<open>find_endpoint_mut\<close> hands out.\<close>

definition put_endpoint :: "ObjectId \<Rightarrow> Endpoint \<Rightarrow> 'a ipc_state_scheme \<Rightarrow> 'a ipc_state_scheme" where
  "put_endpoint object_id ep s =
     s\<lparr>ENDPOINTS := update_first (\<lambda>sl. es_object_id sl = object_id)
         (\<lambda>sl. sl\<lparr>es_endpoint := ep\<rparr>) (ENDPOINTS s)\<rparr>"

definition Endpoint_new :: Endpoint where
  "Endpoint_new = \<lparr>ep_state = STATE_IDLE, ep_message = Message_default, q_head = 0, q_tail = 0,
     q_len = 0, q_slots = replicate QUEUE_DEPTH Message_default\<rparr>"

definition create_endpoint ::
  "CapabilityTable \<Rightarrow> Rights \<Rightarrow> 'a ipc_state_scheme \<Rightarrow> CapId \<times> CapabilityTable \<times> 'a ipc_state_scheme" where
  "create_endpoint table rights s =
     (let (object_id, s1) = create_object IpcEndpoint s;
          s2 = s1\<lparr>ENDPOINTS := ENDPOINTS s1 @
                 [\<lparr>es_object_id = object_id, es_endpoint = Endpoint_new\<rparr>]\<rparr>
      in grant table object_id rights s2)"

datatype IpcError = Cap CapError | EndpointNotFound

subsection \<open>The mailbox\<close>

text \<open>The ring itself. \<open>None\<close> is the panic of an array index out of range.\<close>

definition ep_push :: "Message \<Rightarrow> Endpoint \<Rightarrow> (bool \<times> Endpoint) option" where
  "ep_push msg ep =
     (if unat (q_len ep) \<ge> QUEUE_DEPTH then Some (False, ep)
      else (let head = unat (q_head ep)
            in if head < length (q_slots ep)
               then Some (True, ep\<lparr>q_slots := (q_slots ep)[head := msg],
                                   q_head := of_nat ((head + 1) mod QUEUE_DEPTH),
                                   q_len := q_len ep + 1\<rparr>)
               else None))"

definition ep_pop :: "Endpoint \<Rightarrow> (Message option \<times> Endpoint) option" where
  "ep_pop ep =
     (if q_len ep = 0 then Some (None, ep)
      else (let tail = unat (q_tail ep)
            in if tail < length (q_slots ep)
               then Some (Some (q_slots ep ! tail),
                          ep\<lparr>q_tail := of_nat ((tail + 1) mod QUEUE_DEPTH), q_len := q_len ep - 1\<rparr>)
               else None))"

definition try_send ::
  "CapabilityTable \<Rightarrow> CapId \<Rightarrow> Message \<Rightarrow> 'a ipc_state_scheme \<Rightarrow>
   ((IpcError + bool) \<times> 'a ipc_state_scheme) option" where
  "try_send table cap_id msg s =
     (case resolve table cap_id Rights_SEND s of
        (Inl e, s1) \<Rightarrow> Some (Inl (Cap e), s1)
      | (Inr cap, s1) \<Rightarrow>
          (case find_endpoint (cap_object_id cap) s1 of
             None \<Rightarrow> Some (Inl EndpointNotFound, s1)
           | Some ep \<Rightarrow>
               (case ep_push msg ep of
                  None \<Rightarrow> None
                | Some (enqueued, ep') \<Rightarrow>
                    (let s2 = put_endpoint (cap_object_id cap) ep' s1
                     in Some (Inr enqueued,
                              if enqueued then audit_record (IpcSend (cap_object_id cap)) s2 else s2)))))"

definition try_receive_on_object ::
  "ObjectId \<Rightarrow> 'a ipc_state_scheme \<Rightarrow> (Message option \<times> 'a ipc_state_scheme) option" where
  "try_receive_on_object object_id s =
     (case find_endpoint object_id s of
        None \<Rightarrow> Some (None, s)
      | Some ep \<Rightarrow>
          (case ep_pop ep of
             None \<Rightarrow> None
           | Some (None, ep') \<Rightarrow> Some (None, s)
           | Some (Some m, ep') \<Rightarrow>
               Some (Some m, audit_record (IpcReceive object_id) (put_endpoint object_id ep' s))))"

definition try_receive ::
  "CapabilityTable \<Rightarrow> CapId \<Rightarrow> 'a ipc_state_scheme \<Rightarrow>
   ((IpcError + Message option) \<times> 'a ipc_state_scheme) option" where
  "try_receive table cap_id s =
     (case resolve table cap_id Rights_RECEIVE s of
        (Inl e, s1) \<Rightarrow> Some (Inl (Cap e), s1)
      | (Inr cap, s1) \<Rightarrow>
          map_option (map_prod Inr id) (try_receive_on_object (cap_object_id cap) s1))"

subsection \<open>The ring is a queue\<close>

definition ep_wf :: "Endpoint \<Rightarrow> bool" where
  "ep_wf ep \<longleftrightarrow> length (q_slots ep) = QUEUE_DEPTH \<and> unat (q_len ep) \<le> QUEUE_DEPTH \<and>
     unat (q_tail ep) < QUEUE_DEPTH \<and>
     unat (q_head ep) = (unat (q_tail ep) + unat (q_len ep)) mod QUEUE_DEPTH"

definition ep_contents :: "Endpoint \<Rightarrow> Message list" where
  "ep_contents ep = ring_contents (q_slots ep) (unat (q_tail ep)) (unat (q_len ep))"

lemma ep_wf_new: "ep_wf Endpoint_new" "ep_contents Endpoint_new = []"
  by (simp_all add: ep_wf_def ep_contents_def Endpoint_new_def QUEUE_DEPTH_def)

lemma u8_index: "unat (of_nat (n mod 32) :: u8) = n mod 32"
proof -
  have "n mod 32 < 2 ^ 8" using mod_less_divisor [of 32 n] by simp
  then show ?thesis by (simp add: unat_of_nat take_bit_nat_eq_self)
qed

lemma u8_count:
  "unat n < 32 \<Longrightarrow> unat (n + 1 :: u8) = Suc (unat n)"
  "n \<noteq> 0 \<Longrightarrow> unat (n :: u8) = Suc (unat (n - 1))"
  by (simp_all add: unat_word_ariths unat_minus_one unat_gt_0)

lemma ep_push_spec:
  assumes "ep_wf ep"
  shows "\<exists>ep'. ep_push m ep = Some (length (ep_contents ep) < QUEUE_DEPTH, ep') \<and> ep_wf ep' \<and>
    ep_contents ep' = drop_new QUEUE_DEPTH m (ep_contents ep)"
proof -
  note [simp] = QUEUE_DEPTH_def
  let ?n = "unat (q_len ep)" and ?t = "unat (q_tail ep)"
  have len: "length (q_slots ep) = 32" and head: "unat (q_head ep) = (?t + ?n) mod 32"
    using assms by (auto simp: ep_wf_def)
  show ?thesis
  proof (cases "?n < 32")
    case True
    then have "ring_contents ((q_slots ep)[(?t + ?n) mod 32 := m]) ?t (Suc ?n) = ep_contents ep @ [m]"
      using ring_contents_snoc [of ?n "q_slots ep" ?t m] len by (simp add: ep_contents_def)
    moreover have "Suc ((?t + ?n) mod 32) mod 32 = Suc (?t + ?n) mod 32"
      by (rule mod_Suc_eq)
    ultimately show ?thesis
      using assms True len head
      by (simp add: ep_push_def Let_def ep_wf_def ep_contents_def drop_new_def u8_count u8_index
          del: of_nat_Suc)
  next
    case False
    then show ?thesis using assms by (simp add: ep_push_def ep_contents_def drop_new_def)
  qed
qed

lemma ep_pop_cons:
  assumes wf: "ep_wf ep" and "ep_contents ep = m # ms"
  shows "\<exists>ep'. ep_pop ep = Some (Some m, ep') \<and> ep_wf ep' \<and> ep_contents ep' = ms"
proof -
  note [simp] = QUEUE_DEPTH_def
  let ?t = "unat (q_tail ep)"
  have len: "length (q_slots ep) = 32" "?t < 32"
    and head: "unat (q_head ep) = (?t + unat (q_len ep)) mod 32"
    using wf by (auto simp: ep_wf_def)
  have ne: "q_len ep \<noteq> 0"
    using assms(2) by (auto simp: ep_contents_def)
  note n = u8_count(2) [OF ne]
  have "m = q_slots ep ! ?t" "ms = ring_contents (q_slots ep) (Suc ?t mod 32) (unat (q_len ep - 1))"
    using assms(2) len ring_contents_mod [of "q_slots ep" "Suc ?t"]
    unfolding ep_contents_def n ring_contents_Suc by auto
  moreover have "(Suc ?t mod 32 + unat (q_len ep - 1)) mod 32 = unat (q_head ep)"
    using head n by (simp add: mod_add_left_eq)
  ultimately show ?thesis
    using wf len ne n u8_index [of "Suc ?t"]
    by (simp add: ep_pop_def Let_def ep_wf_def ep_contents_def del: of_nat_Suc)
qed

interpretation mailbox: event_queue ep_wf ep_contents ep_pop "\<lambda>m. map_option snd \<circ> ep_push m"
  "drop_new QUEUE_DEPTH"
proof unfold_locales
  fix ep assume "ep_wf ep" "ep_contents ep = []"
  then show "\<exists>ep'. ep_pop ep = Some (None, ep') \<and> ep_wf ep' \<and> ep_contents ep' = []"
    by (simp add: ep_pop_def ep_contents_def unat_eq_zero)
next
  fix ep m assume "ep_wf ep"
  from ep_push_spec [OF this, of m]
  show "\<exists>ep'. (map_option snd \<circ> ep_push m) ep = Some ep' \<and> ep_wf ep' \<and>
      ep_contents ep' = drop_new QUEUE_DEPTH m (ep_contents ep)" by auto
qed (fact ep_pop_cons)

subsection \<open>Mailboxes of the whole system\<close>

definition mailbox_of :: "'a ipc_state_scheme \<Rightarrow> ObjectId \<Rightarrow> Message list option" where
  "mailbox_of s object_id = map_option ep_contents (find_endpoint object_id s)"

definition ipc_wf :: "'a ipc_state_scheme \<Rightarrow> bool" where
  "ipc_wf s \<longleftrightarrow> (\<forall>sl \<in> set (ENDPOINTS s). ep_wf (es_endpoint sl))"

lemma find_put_endpoint:
  "find_endpoint a (put_endpoint b ep s) =
     (if a = b \<and> find_endpoint b s \<noteq> None then Some ep else find_endpoint a s)"
proof -
  have "List.find (\<lambda>sl. es_object_id sl = a)
      (update_first (\<lambda>sl. es_object_id sl = b) (\<lambda>sl. sl\<lparr>es_endpoint := ep\<rparr>) xs) =
    (if a = b then map_option (\<lambda>sl. sl\<lparr>es_endpoint := ep\<rparr>) (List.find (\<lambda>sl. es_object_id sl = a) xs)
     else List.find (\<lambda>sl. es_object_id sl = a) xs)" for xs :: "EndpointSlot list"
    by (induction xs) auto
  then show ?thesis
    by (auto simp: find_endpoint_def put_endpoint_def option.map_comp comp_def)
qed

lemma ipc_wf_find: "ipc_wf s \<Longrightarrow> find_endpoint a s = Some ep \<Longrightarrow> ep_wf ep"
  by (auto simp: ipc_wf_def find_endpoint_def find_Some_iff)

lemma set_update_first: "set (update_first P f xs) \<subseteq> set xs \<union> f ` set xs"
  by (induction xs) auto

lemma ipc_wf_put: "ipc_wf s \<Longrightarrow> ep_wf ep \<Longrightarrow> ipc_wf (put_endpoint a ep s)"
  using set_update_first unfolding ipc_wf_def put_endpoint_def by fastforce

lemma ipc_audit [simp]:
  "ENDPOINTS (audit_record ev s) = ENDPOINTS s"
  "find_endpoint a (audit_record ev s) = find_endpoint a s"
  "mailbox_of (audit_record ev s) = mailbox_of s"
  "ipc_wf (audit_record ev s) = ipc_wf s"
  by (simp_all add: audit_record_def Let_def find_endpoint_def mailbox_of_def ipc_wf_def fun_eq_iff)

lemma mailbox_put:
  "find_endpoint b s \<noteq> None \<Longrightarrow> mailbox_of (put_endpoint b ep s) = (mailbox_of s)(b \<mapsto> ep_contents ep)"
  by (auto simp: mailbox_of_def find_put_endpoint fun_eq_iff)

lemma resolve_ipc [simp]:
  "mailbox_of (snd (resolve t c r s)) = mailbox_of s"
  "find_endpoint a (snd (resolve t c r s)) = find_endpoint a s"
  "ipc_wf (snd (resolve t c r s)) = ipc_wf s"
  by (simp_all add: snd_resolve)

lemma mailbox_short: "ipc_wf s \<Longrightarrow> mailbox_of s a = Some q \<Longrightarrow> length q \<le> QUEUE_DEPTH"
  by (auto simp: mailbox_of_def ep_contents_def ep_wf_def dest: ipc_wf_find)

text \<open>
  The abstract operations: a partial map from objects to lists, guarded by the capability.
\<close>

definition abs_send :: "ObjectId \<Rightarrow> Message \<Rightarrow> (ObjectId \<rightharpoonup> Message list) \<Rightarrow>
  (IpcError + bool) \<times> (ObjectId \<rightharpoonup> Message list)" where
  "abs_send a m boxes =
     (case boxes a of
        None \<Rightarrow> (Inl EndpointNotFound, boxes)
      | Some q \<Rightarrow> (Inr (length q < QUEUE_DEPTH), boxes(a \<mapsto> drop_new QUEUE_DEPTH m q)))"

definition abs_receive :: "ObjectId \<Rightarrow> (ObjectId \<rightharpoonup> Message list) \<Rightarrow>
  Message option \<times> (ObjectId \<rightharpoonup> Message list)" where
  "abs_receive a boxes =
     (case boxes a of Some (m # ms) \<Rightarrow> (Some m, boxes(a \<mapsto> ms)) | _ \<Rightarrow> (None, boxes))"

lemma try_send_refines:
  assumes "ipc_wf s"
  shows "\<exists>res s'. try_send table cap_id m s = Some (res, s') \<and> ipc_wf s' \<and>
    (case fst (resolve table cap_id Rights_SEND s) of
       Inl e \<Rightarrow> res = Inl (Cap e) \<and> s' = snd (resolve table cap_id Rights_SEND s)
     | Inr cap \<Rightarrow> (res, mailbox_of s') = abs_send (cap_object_id cap) m (mailbox_of s))"
proof (cases "resolve table cap_id Rights_SEND s")
  case (Pair r s1)
  then have s1: "s1 = snd (resolve table cap_id Rights_SEND s)" by simp
  note [simp] = Pair s1 [symmetric]
  have wf1: "ipc_wf s1" "mailbox_of s1 = mailbox_of s"
    using assms by (simp_all only: s1 resolve_ipc)
  show ?thesis
  proof (cases r)
    case (Inl e)
    with wf1 show ?thesis by (simp add: try_send_def)
  next
    case (Inr cap)
    let ?a = "cap_object_id cap"
    show ?thesis
    proof (cases "find_endpoint ?a s1")
      case None
      moreover have "mailbox_of s ?a = None"
        using None wf1(2) by (simp add: mailbox_of_def [of s1] flip: wf1(2))
      ultimately show ?thesis using wf1 Inr by (simp add: try_send_def abs_send_def)
    next
      case (Some ep)
      obtain ep' where ep': "ep_push m ep = Some (length (ep_contents ep) < QUEUE_DEPTH, ep')"
        "ep_wf ep'" "ep_contents ep' = drop_new QUEUE_DEPTH m (ep_contents ep)"
        using ep_push_spec [OF ipc_wf_find [OF wf1(1) Some]] by blast
      have "mailbox_of s ?a = Some (ep_contents ep)"
        using Some wf1(2) by (simp add: mailbox_of_def [of s1] flip: wf1(2))
      then show ?thesis
        using Inr Some ep' wf1 ipc_wf_put [OF wf1(1) ep'(2)] mailbox_put [of ?a s1 ep']
        by (simp add: try_send_def abs_send_def Let_def)
    qed
  qed
qed

lemma try_receive_on_object_refines:
  assumes "ipc_wf s"
  shows "\<exists>s'. try_receive_on_object a s = Some (fst (abs_receive a (mailbox_of s)), s') \<and> ipc_wf s' \<and>
    mailbox_of s' = snd (abs_receive a (mailbox_of s)) \<and>
    s' = (if fst (abs_receive a (mailbox_of s)) = None then s
          else audit_record (IpcReceive a) (s\<lparr>ENDPOINTS := ENDPOINTS s'\<rparr>))"
proof (cases "find_endpoint a s")
  case None
  then show ?thesis
    using assms by (simp add: try_receive_on_object_def abs_receive_def mailbox_of_def)
next
  case (Some ep)
  then have box: "mailbox_of s a = Some (ep_contents ep)"
    by (simp add: mailbox_of_def)
  have wf: "ep_wf ep" by (rule ipc_wf_find [OF assms Some])
  show ?thesis
  proof (cases "ep_contents ep")
    case Nil
    then show ?thesis
      using mailbox.deq_empty [OF wf Nil] Some assms box
      by (auto simp: try_receive_on_object_def abs_receive_def)
  next
    case (Cons m ms)
    then obtain ep' where "ep_pop ep = Some (Some m, ep')" "ep_wf ep'" "ep_contents ep' = ms"
      using ep_pop_cons [OF wf] by blast
    with Cons Some box assms show ?thesis
      using ipc_wf_put [OF assms \<open>ep_wf ep'\<close>] mailbox_put [of a s ep']
      by (auto simp: try_receive_on_object_def abs_receive_def put_endpoint_def)
  qed
qed

lemma try_send_log:
  assumes "try_send table cap_id m s = Some (Inr True, s')" "fst (resolve table cap_id Rights_SEND s) = Inr cap"
  shows "ar_event (last (LOG s')) = IpcSend (cap_object_id cap)"
  using assms
  by (auto simp: try_send_def Let_def last_LOG_audit_record split: prod.splits sum.splits option.splits if_splits)

lemma mailbox_send:
  assumes "ipc_wf s"
  shows "\<exists>res s'. try_send table cap_id m s = Some (res, s') \<and> ipc_wf s' \<and>
      (case fst (resolve table cap_id Rights_SEND s) of
         Inl e \<Rightarrow> res = Inl (Cap e) \<and> mailbox_of s' = mailbox_of s
       | Inr cap \<Rightarrow> (res, mailbox_of s') = abs_send (cap_object_id cap) m (mailbox_of s) \<and>
           (res = Inr True \<longrightarrow> ar_event (last (LOG s')) = IpcSend (cap_object_id cap)))"
proof (cases "fst (resolve table cap_id Rights_SEND s)")
  case (Inl e)
  then show ?thesis using try_send_refines [OF assms, of table cap_id m] by auto
next
  case (Inr cap)
  then show ?thesis
    using try_send_refines [OF assms, of table cap_id m] try_send_log [of table cap_id m s _ cap] by auto
qed

lemma mailbox_receive:
  assumes "ipc_wf s"
  shows "\<exists>res s'. try_receive table cap_id s = Some (res, s') \<and> ipc_wf s' \<and>
      (case fst (resolve table cap_id Rights_RECEIVE s) of
         Inl e \<Rightarrow> res = Inl (Cap e) \<and> mailbox_of s' = mailbox_of s
       | Inr cap \<Rightarrow> res = Inr (fst (abs_receive (cap_object_id cap) (mailbox_of s))) \<and>
           mailbox_of s' = snd (abs_receive (cap_object_id cap) (mailbox_of s)))"
proof -
  have wf: "ipc_wf (snd (resolve table cap_id Rights_RECEIVE s))"
    using assms by simp
  then show ?thesis
    using try_receive_on_object_refines [OF wf]
    by (cases "fst (resolve table cap_id Rights_RECEIVE s)")
       (fastforce simp: try_receive_def split_beta)+
qed

text \<open>
  C10. The mailboxes implement their specification. On well-formed endpoints a guarded send or
  receive never panics and never blocks, keeps every endpoint well formed, and acts on the map from
  endpoints to message lists as specified: a refused capability changes no mailbox, a send to a
  full mailbox (32 messages) changes nothing and says so, otherwise it appends to that mailbox alone
  and is audited; a receive takes the oldest message of that mailbox alone.
\<close>

theorem mailbox_refinement:
  assumes "ipc_wf s"
  shows "(\<exists>res s'. try_send table cap_id m s = Some (res, s') \<and> ipc_wf s' \<and>
      (case fst (resolve table cap_id Rights_SEND s) of
         Inl e \<Rightarrow> res = Inl (Cap e) \<and> mailbox_of s' = mailbox_of s
       | Inr cap \<Rightarrow> (res, mailbox_of s') = abs_send (cap_object_id cap) m (mailbox_of s) \<and>
           (res = Inr True \<longrightarrow> ar_event (last (LOG s')) = IpcSend (cap_object_id cap)))) \<and>
    (\<exists>res s'. try_receive table cap_id s = Some (res, s') \<and> ipc_wf s' \<and>
      (case fst (resolve table cap_id Rights_RECEIVE s) of
         Inl e \<Rightarrow> res = Inl (Cap e) \<and> mailbox_of s' = mailbox_of s
       | Inr cap \<Rightarrow> res = Inr (fst (abs_receive (cap_object_id cap) (mailbox_of s))) \<and>
           mailbox_of s' = snd (abs_receive (cap_object_id cap) (mailbox_of s))))"
  using mailbox_send [OF assms] mailbox_receive [OF assms] by (rule conjI)

definition demo_ipc :: ipc_state where
  "demo_ipc = snd (snd (create_endpoint CapabilityTable_new (Rights_SEND OR Rights_RECEIVE)
     \<lparr>LOG = [], NEXT_SEQ = 0, current_tid = 1, OBJECTS = [], ENDPOINTS = []\<rparr>))"

definition demo_ipc_table :: CapabilityTable where
  "demo_ipc_table = fst (snd (create_endpoint CapabilityTable_new (Rights_SEND OR Rights_RECEIVE)
     \<lparr>LOG = [], NEXT_SEQ = 0, current_tid = 1, OBJECTS = [], ENDPOINTS = []\<rparr>))"

lemma ipc_wf_create: "ipc_wf s \<Longrightarrow> ipc_wf (snd (snd (create_endpoint table rights s)))"
  by (auto simp: create_endpoint_def split_beta grant_def Let_def ipc_wf_def ep_wf_new create_object_def)

theorem mailbox_refinement_witness:
  "\<exists>res s'. try_send demo_ipc_table 0 \<lparr>msg_data = [1, 2, 3, 4]\<rparr> demo_ipc = Some (res, s') \<and>
     res = Inr True \<and> mailbox_of s' 0 = Some [\<lparr>msg_data = [1, 2, 3, 4]\<rparr>]"
proof -
  have wf: "ipc_wf demo_ipc"
    unfolding demo_ipc_def by (rule ipc_wf_create) (simp add: ipc_wf_def)
  note defs = demo_ipc_def demo_ipc_table_def create_endpoint_def create_object_def grant_def
    CapabilityTable_new_def
  have cap: "fst (resolve demo_ipc_table 0 Rights_SEND demo_ipc) =
      Inr \<lparr>cap_object_id = 0, cap_rights = Rights_SEND OR Rights_RECEIVE, cap_generation = 1\<rparr>"
    by (simp add: fst_resolve defs slot_at_def slice_get_def cap_valid_def current_generation_def
        rights_contains_def Rights_defs)
  have box: "mailbox_of demo_ipc 0 = Some []"
    by (simp add: defs mailbox_of_def find_endpoint_def ep_wf_new)
  show ?thesis
    using mailbox_refinement [OF wf, of demo_ipc_table 0 "\<lparr>msg_data = [1, 2, 3, 4]\<rparr>"]
    by (auto simp: cap abs_send_def box drop_new_def QUEUE_DEPTH_def)
qed

end
