(* ===== verification/Rendezvous.thy ===== *)
theory Rendezvous
  imports Ipc
begin

text \<open>
  The blocking half of \<^verbatim>\<open>ipc.rs\<close>. \<open>send\<close> and \<open>receive\<close> spin on an atomic byte that other threads
  store to, so a call is a program counter and one step of it is one capability check, one atomic
  load, one store, one plain field access or one audit record. A schedule picks, step by step, which
  thread moves. \<^verbatim>\<open>spin_yield\<close> only gives up the processor and is the choice of another thread.
\<close>

subsection \<open>The two calls\<close>

datatype ipc_pc =
    Idle
  | SendEntry CapabilityTable CapId Message
  | SendWaitIdle ObjectId Message
  | SendStoreMessage ObjectId Message
  | SendStorePending ObjectId
  | SendAudit ObjectId
  | SendWaitTaken ObjectId
  | SendStoreIdle ObjectId
  | SendReturn "IpcError + unit"
  | RecvEntry CapabilityTable CapId
  | RecvWaitPending ObjectId
  | RecvLoadMessage ObjectId
  | RecvStoreTaken ObjectId Message
  | RecvAudit ObjectId Message
  | RecvReturn "IpcError + Message"

definition on_endpoint :: "ObjectId \<Rightarrow> ipc_pc \<Rightarrow> (Endpoint \<Rightarrow> ipc_pc \<times> Endpoint) \<Rightarrow> 'a ipc_state_scheme \<Rightarrow>
  ipc_pc \<times> 'a ipc_state_scheme" where
  "on_endpoint a fail f s =
     (case find_endpoint a s of
        None \<Rightarrow> (fail, s)
      | Some ep \<Rightarrow> (fst (f ep), put_endpoint a (snd (f ep)) s))"

fun send_step :: "ipc_pc \<Rightarrow> 'a ipc_state_scheme \<Rightarrow> ipc_pc \<times> 'a ipc_state_scheme" where
  "send_step (SendEntry table cap_id msg) s =
     (case resolve table cap_id Rights_SEND s of
        (Inl e, s1) \<Rightarrow> (SendReturn (Inl (Cap e)), s1)
      | (Inr cap, s1) \<Rightarrow>
          if find_endpoint (cap_object_id cap) s1 = None
          then (SendReturn (Inl EndpointNotFound), s1)
          else (SendWaitIdle (cap_object_id cap) msg, s1))"
| "send_step (SendWaitIdle a msg) s =
     on_endpoint a (SendReturn (Inl EndpointNotFound))
       (\<lambda>ep. (if ep_state ep \<noteq> STATE_IDLE then SendWaitIdle a msg else SendStoreMessage a msg, ep)) s"
| "send_step (SendStoreMessage a msg) s =
     on_endpoint a (SendReturn (Inl EndpointNotFound))
       (\<lambda>ep. (SendStorePending a, ep\<lparr>ep_message := msg\<rparr>)) s"
| "send_step (SendStorePending a) s =
     on_endpoint a (SendReturn (Inl EndpointNotFound))
       (\<lambda>ep. (SendAudit a, ep\<lparr>ep_state := STATE_MESSAGE_PENDING\<rparr>)) s"
| "send_step (SendAudit a) s = (SendWaitTaken a, audit_record (IpcSend a) s)"
| "send_step (SendWaitTaken a) s =
     on_endpoint a (SendReturn (Inl EndpointNotFound))
       (\<lambda>ep. (if ep_state ep \<noteq> STATE_MESSAGE_TAKEN then SendWaitTaken a else SendStoreIdle a, ep)) s"
| "send_step (SendStoreIdle a) s =
     on_endpoint a (SendReturn (Inl EndpointNotFound))
       (\<lambda>ep. (SendReturn (Inr ()), ep\<lparr>ep_state := STATE_IDLE\<rparr>)) s"
| "send_step pc s = (pc, s)"

fun receive_step :: "ipc_pc \<Rightarrow> 'a ipc_state_scheme \<Rightarrow> ipc_pc \<times> 'a ipc_state_scheme" where
  "receive_step (RecvEntry table cap_id) s =
     (case resolve table cap_id Rights_RECEIVE s of
        (Inl e, s1) \<Rightarrow> (RecvReturn (Inl (Cap e)), s1)
      | (Inr cap, s1) \<Rightarrow>
          if find_endpoint (cap_object_id cap) s1 = None
          then (RecvReturn (Inl EndpointNotFound), s1)
          else (RecvWaitPending (cap_object_id cap), s1))"
| "receive_step (RecvWaitPending a) s =
     on_endpoint a (RecvReturn (Inl EndpointNotFound))
       (\<lambda>ep. (if ep_state ep \<noteq> STATE_MESSAGE_PENDING then RecvWaitPending a else RecvLoadMessage a, ep)) s"
| "receive_step (RecvLoadMessage a) s =
     on_endpoint a (RecvReturn (Inl EndpointNotFound))
       (\<lambda>ep. (RecvStoreTaken a (ep_message ep), ep)) s"
| "receive_step (RecvStoreTaken a m) s =
     on_endpoint a (RecvReturn (Inl EndpointNotFound))
       (\<lambda>ep. (RecvAudit a m, ep\<lparr>ep_state := STATE_MESSAGE_TAKEN\<rparr>)) s"
| "receive_step (RecvAudit a m) s = (RecvReturn (Inr m), audit_record (IpcReceive a) s)"
| "receive_step pc s = (pc, s)"

fun is_receiving :: "ipc_pc \<Rightarrow> bool" where
  "is_receiving (RecvEntry _ _) = True"
| "is_receiving (RecvWaitPending _) = True"
| "is_receiving (RecvLoadMessage _) = True"
| "is_receiving (RecvStoreTaken _ _) = True"
| "is_receiving (RecvAudit _ _) = True"
| "is_receiving _ = False"

definition thread_step :: "ipc_pc \<Rightarrow> 'a ipc_state_scheme \<Rightarrow> ipc_pc \<times> 'a ipc_state_scheme" where
  "thread_step pc s = (if is_receiving pc then receive_step pc s else send_step pc s)"

text \<open>A system of threads; thread \<open>i\<close> runs with its own thread id.\<close>

record rdv =
  pcs :: "nat \<Rightarrow> ipc_pc"
  kernel :: ipc_state

definition rdv_move :: "nat \<Rightarrow> rdv \<Rightarrow> rdv" where
  "rdv_move i r =
     (let (pc', s') = thread_step (pcs r i) ((kernel r)\<lparr>current_tid := of_nat i\<rparr>)
      in \<lparr>pcs = (pcs r)(i := pc'), kernel = s'\<rparr>)"

inductive rdv_step :: "rdv \<Rightarrow> rdv \<Rightarrow> bool" where
  move: "rdv_step r (rdv_move i r)"

inductive_cases rdv_stepE: "rdv_step r r'"

fun run_schedule :: "nat list \<Rightarrow> rdv \<Rightarrow> rdv" where
  "run_schedule [] r = r"
| "run_schedule (i # sch) r = run_schedule sch (rdv_move i r)"

lemma run_schedule_append: "run_schedule (xs @ ys) r = run_schedule ys (run_schedule xs r)"
  by (induction xs arbitrary: r) simp_all

lemma reachable_schedule: "rdv_step\<^sup>*\<^sup>* r r' \<longleftrightarrow> (\<exists>sch. r' = run_schedule sch r)"
proof
  assume "rdv_step\<^sup>*\<^sup>* r r'"
  then show "\<exists>sch. r' = run_schedule sch r"
  proof induction
    case base
    show ?case by (rule exI [of _ "[]"]) simp
  next
    case (step y z)
    then obtain sch i where "y = run_schedule sch r" "z = rdv_move i y"
      by (auto elim: rdv_stepE)
    then have "z = run_schedule (sch @ [i]) r"
      by (simp add: run_schedule_append)
    then show ?case by blast
  qed
next
  have "rdv_step\<^sup>*\<^sup>* r (run_schedule sch r)" for sch
    by (induction sch arbitrary: r) (auto intro: converse_rtranclp_into_rtranclp rdv_step.move)
  then show "\<exists>sch. r' = run_schedule sch r \<Longrightarrow> rdv_step\<^sup>*\<^sup>* r r'" by blast
qed

subsection \<open>One sender and one receiver\<close>

text \<open>
  What an endpoint shows to the two calls, and the phases of one exchange. The two calls agree on
  whose turn it is through the state byte alone.
\<close>

definition view :: "ObjectId \<Rightarrow> 'a ipc_state_scheme \<Rightarrow> (u8 \<times> Message) option" where
  "view a s = map_option (\<lambda>ep. (ep_state ep, ep_message ep)) (find_endpoint a s)"

definition may :: "CapabilityTable \<Rightarrow> CapId \<Rightarrow> Rights \<Rightarrow> ObjectId \<Rightarrow> 'a cap_state_scheme \<Rightarrow> bool" where
  "may table cap_id req a s \<longleftrightarrow> (\<exists>cap. fst (resolve table cap_id req s) = Inr cap \<and> cap_object_id cap = a)"

definition phase :: "CapabilityTable \<Rightarrow> CapId \<Rightarrow> CapabilityTable \<Rightarrow> CapId \<Rightarrow> Message \<Rightarrow> ObjectId \<Rightarrow>
  ipc_pc \<Rightarrow> ipc_pc \<Rightarrow> u8 \<Rightarrow> Message \<Rightarrow> bool" where
  "phase t0 c0 t1 c1 m a pc0 pc1 st msg \<longleftrightarrow>
     (pc0 \<in> {SendEntry t0 c0 m, SendWaitIdle a m, SendStoreMessage a m} \<and>
      pc1 \<in> {RecvEntry t1 c1, RecvWaitPending a} \<and> st = STATE_IDLE) \<or>
     (pc0 = SendStorePending a \<and>
      pc1 \<in> {RecvEntry t1 c1, RecvWaitPending a} \<and> st = STATE_IDLE \<and> msg = m) \<or>
     (pc0 \<in> {SendAudit a, SendWaitTaken a} \<and>
      pc1 \<in> {RecvEntry t1 c1, RecvWaitPending a, RecvLoadMessage a, RecvStoreTaken a m} \<and>
      st = STATE_MESSAGE_PENDING \<and> msg = m) \<or>
     (pc0 \<in> {SendAudit a, SendWaitTaken a, SendStoreIdle a} \<and>
      pc1 \<in> {RecvAudit a m, RecvReturn (Inr m)} \<and> st = STATE_MESSAGE_TAKEN \<and> msg = m) \<or>
     (pc0 = SendReturn (Inr ()) \<and>
      pc1 \<in> {RecvAudit a m, RecvReturn (Inr m)} \<and> st = STATE_IDLE \<and> msg = m)"

text \<open>How far each call still has to go.\<close>

fun todo :: "ipc_pc \<Rightarrow> nat" where
  "todo (SendEntry _ _ _) = 7" | "todo (SendWaitIdle _ _) = 6" | "todo (SendStoreMessage _ _) = 5"
| "todo (SendStorePending _) = 4" | "todo (SendAudit _) = 3" | "todo (SendWaitTaken _) = 2"
| "todo (SendStoreIdle _) = 1" | "todo (RecvEntry _ _) = 5" | "todo (RecvWaitPending _) = 4"
| "todo (RecvLoadMessage _) = 3" | "todo (RecvStoreTaken _ _) = 2" | "todo (RecvAudit _ _) = 1"
| "todo _ = 0"

lemma view_simps [simp]:
  "view a (audit_record ev s) = view a s" "view a (snd (resolve t c r s)) = view a s"
  "view a (s\<lparr>current_tid := i\<rparr>) = view a s"
  by (simp_all add: view_def find_endpoint_def snd_resolve)

lemma may_cong: "OBJECTS s' = OBJECTS s \<Longrightarrow> may t c r a s' \<longleftrightarrow> may t c r a s"
  using current_generation_cong [of s' s]
  by (cases "slot_at t c") (simp_all add: may_def fst_resolve cap_valid_def)

lemma may_resolve:
  assumes "may t c r a s"
  obtains cap where "resolve t c r s = (Inr cap, s)" "cap_object_id cap = a"
proof -
  obtain cap where cap: "fst (resolve t c r s) = Inr cap" "cap_object_id cap = a"
    using assms by (auto simp: may_def)
  moreover have "snd (resolve t c r s) = s"
    using cap(1) by (simp add: snd_resolve)
  ultimately show thesis
    using that [of cap] by (cases "resolve t c r s") simp
qed

lemma view_Some: "view a s = Some (st, msg) \<Longrightarrow>
    \<exists>ep. find_endpoint a s = Some ep \<and> ep_state ep = st \<and> ep_message ep = msg"
  by (auto simp: view_def)

lemma view_put: "find_endpoint a s = Some ep0 \<Longrightarrow>
    view a (put_endpoint a ep s) = Some (ep_state ep, ep_message ep)"
  by (simp add: view_def find_put_endpoint)

lemma OBJECTS_put [simp]: "OBJECTS (put_endpoint a ep s) = OBJECTS s"
  by (simp add: put_endpoint_def)

lemmas step_defs = thread_step_def on_endpoint_def view_put STATE_defs

lemma sender_moves:
  assumes "phase t0 c0 t1 c1 m a pc0 pc1 st msg" "view a s = Some (st, msg)" "may t0 c0 Rights_SEND a s"
  shows "\<exists>pc0' s' st' msg'. thread_step pc0 s = (pc0', s') \<and> view a s' = Some (st', msg') \<and>
    OBJECTS s' = OBJECTS s \<and> phase t0 c0 t1 c1 m a pc0' pc1 st' msg' \<and>
    (todo pc0' < todo pc0 \<or>
     todo pc0' = todo pc0 \<and> st' = st \<and> (todo pc0 = 0 \<and> st = STATE_IDLE \<or> st = STATE_MESSAGE_PENDING))"
proof -
  obtain ep where ep: "find_endpoint a s = Some ep" "ep_state ep = st" "ep_message ep = msg"
    using view_Some [OF assms(2)] by blast
  obtain cap where cap: "resolve t0 c0 Rights_SEND s = (Inr cap, s)" "cap_object_id cap = a"
    using assms(3) by (rule may_resolve)
  show ?thesis
    using assms(1) ep assms(2) cap unfolding phase_def [of t0 c0 t1 c1 m a pc0]
    by (elim disjE conjE insertE emptyE) (simp_all add: step_defs phase_def)
qed

lemma receiver_moves:
  assumes "phase t0 c0 t1 c1 m a pc0 pc1 st msg" "view a s = Some (st, msg)" "may t1 c1 Rights_RECEIVE a s"
  shows "\<exists>pc1' s' st' msg'. thread_step pc1 s = (pc1', s') \<and> view a s' = Some (st', msg') \<and>
    OBJECTS s' = OBJECTS s \<and> phase t0 c0 t1 c1 m a pc0 pc1' st' msg' \<and>
    (todo pc1' < todo pc1 \<or>
     todo pc1' = todo pc1 \<and> (todo pc1 = 0 \<and> st \<noteq> STATE_MESSAGE_PENDING \<or> st = STATE_IDLE \<and> todo pc0 > 0))"
proof -
  obtain ep where ep: "find_endpoint a s = Some ep" "ep_state ep = st" "ep_message ep = msg"
    using view_Some [OF assms(2)] by blast
  obtain cap where cap: "resolve t1 c1 Rights_RECEIVE s = (Inr cap, s)" "cap_object_id cap = a"
    using assms(3) by (rule may_resolve)
  show ?thesis
    using assms(1) ep assms(2) cap unfolding phase_def [of t0 c0 t1 c1 m a pc0 pc1]
    by (elim disjE conjE insertE emptyE) (simp_all add: step_defs phase_def)
qed

definition exchange :: "CapabilityTable \<Rightarrow> CapId \<Rightarrow> CapabilityTable \<Rightarrow> CapId \<Rightarrow> Message \<Rightarrow> ObjectId \<Rightarrow> nat \<Rightarrow> nat \<Rightarrow> rdv \<Rightarrow> bool"
  where
  "exchange t0 c0 t1 c1 m a i j r \<longleftrightarrow>
     (\<exists>st msg. view a (kernel r) = Some (st, msg) \<and> phase t0 c0 t1 c1 m a (pcs r i) (pcs r j) st msg) \<and>
     may t0 c0 Rights_SEND a (kernel r) \<and> may t1 c1 Rights_RECEIVE a (kernel r) \<and>
     i \<noteq> j \<and> (\<forall>k. k \<noteq> i \<longrightarrow> k \<noteq> j \<longrightarrow> pcs r k = Idle)"

definition rest :: "nat \<Rightarrow> nat \<Rightarrow> rdv \<Rightarrow> nat" where
  "rest i j r = todo (pcs r i) + todo (pcs r j)"

lemma may_tid [simp]: "may t c r a (s\<lparr>current_tid := i\<rparr>) = may t c r a s"
  by (rule may_cong) simp

lemma exchange_move_0:
  assumes "exchange t0 c0 t1 c1 m a i j r"
  shows "exchange t0 c0 t1 c1 m a i j (rdv_move i r)" "rest i j (rdv_move i r) \<le> rest i j r"
    "rest i j (rdv_move i r) = rest i j r \<Longrightarrow> pcs (rdv_move i r) j = pcs r j \<and> todo (pcs (rdv_move i r) i) = todo (pcs r i) \<and>
       (\<exists>st msg. view a (kernel (rdv_move i r)) = Some (st, msg) \<and>
         (todo (pcs r i) = 0 \<and> st = STATE_IDLE \<or> st = STATE_MESSAGE_PENDING))"
proof -
  let ?s = "(kernel r)\<lparr>current_tid := of_nat i\<rparr>"
  obtain st msg where ph: "phase t0 c0 t1 c1 m a (pcs r i) (pcs r j) st msg" "view a ?s = Some (st, msg)"
    "may t0 c0 Rights_SEND a ?s"
    using assms by (auto simp: exchange_def)
  obtain pc0' s' st' msg' where mv: "thread_step (pcs r i) ?s = (pc0', s')" "view a s' = Some (st', msg')"
    "OBJECTS s' = OBJECTS ?s" "phase t0 c0 t1 c1 m a pc0' (pcs r j) st' msg'"
    "todo pc0' < todo (pcs r i) \<or>
     todo pc0' = todo (pcs r i) \<and> st' = st \<and> (todo (pcs r i) = 0 \<and> st = STATE_IDLE \<or> st = STATE_MESSAGE_PENDING)"
    using sender_moves [OF ph] by (elim exE conjE) (rule that)
  have ij: "i \<noteq> j" using assms by (simp add: exchange_def)
  have r': "rdv_move i r = \<lparr>pcs = (pcs r)(i := pc0'), kernel = s'\<rparr>"
    using mv(1) by (simp add: rdv_move_def)
  show "exchange t0 c0 t1 c1 m a i j (rdv_move i r)"
    using assms mv(2,4) may_cong [of s' "kernel r"] mv(3) unfolding exchange_def r'
    by (intro conjI exI [of _ st'] exI [of _ msg']) (simp_all add: ij ij [symmetric])
  show "rest i j (rdv_move i r) \<le> rest i j r"
    using mv(5) by (auto simp: rest_def r' ij ij [symmetric])
  show "rest i j (rdv_move i r) = rest i j r \<Longrightarrow> pcs (rdv_move i r) j = pcs r j \<and> todo (pcs (rdv_move i r) i) = todo (pcs r i) \<and>
       (\<exists>st msg. view a (kernel (rdv_move i r)) = Some (st, msg) \<and>
         (todo (pcs r i) = 0 \<and> st = STATE_IDLE \<or> st = STATE_MESSAGE_PENDING))"
    using mv(2,5) by (auto simp: rest_def r' ij ij [symmetric])
qed

lemma exchange_move_1:
  assumes "exchange t0 c0 t1 c1 m a i j r"
  shows "exchange t0 c0 t1 c1 m a i j (rdv_move j r)" "rest i j (rdv_move j r) \<le> rest i j r"
    "rest i j (rdv_move j r) = rest i j r \<Longrightarrow> view a (kernel r) = Some (st, msg) \<Longrightarrow>
       todo (pcs r j) = 0 \<and> st \<noteq> STATE_MESSAGE_PENDING \<or> st = STATE_IDLE \<and> todo (pcs r i) > 0"
proof -
  let ?s = "(kernel r)\<lparr>current_tid := of_nat j\<rparr>"
  obtain st msg where ph: "phase t0 c0 t1 c1 m a (pcs r i) (pcs r j) st msg" "view a ?s = Some (st, msg)"
    "may t1 c1 Rights_RECEIVE a ?s"
    using assms by (auto simp: exchange_def)
  obtain pc1' s' st' msg' where mv: "thread_step (pcs r j) ?s = (pc1', s')" "view a s' = Some (st', msg')"
    "OBJECTS s' = OBJECTS ?s" "phase t0 c0 t1 c1 m a (pcs r i) pc1' st' msg'"
    "todo pc1' < todo (pcs r j) \<or>
     todo pc1' = todo (pcs r j) \<and>
       (todo (pcs r j) = 0 \<and> st \<noteq> STATE_MESSAGE_PENDING \<or> st = STATE_IDLE \<and> todo (pcs r i) > 0)"
    using receiver_moves [OF ph] by (elim exE conjE) (rule that)
  have ij: "i \<noteq> j" using assms by (simp add: exchange_def)
  have r': "rdv_move j r = \<lparr>pcs = (pcs r)(j := pc1'), kernel = s'\<rparr>"
    using mv(1) by (simp add: rdv_move_def)
  show "exchange t0 c0 t1 c1 m a i j (rdv_move j r)"
    using assms mv(2,4) may_cong [of s' "kernel r"] mv(3) unfolding exchange_def r'
    by (intro conjI exI [of _ st'] exI [of _ msg']) (simp_all add: ij ij [symmetric])
  show "rest i j (rdv_move j r) \<le> rest i j r"
    using mv(5) by (auto simp: rest_def r' ij ij [symmetric])
  show "rest i j (rdv_move j r) = rest i j r \<Longrightarrow> view a (kernel r) = Some (st, msg) \<Longrightarrow>
       todo (pcs r j) = 0 \<and> st \<noteq> STATE_MESSAGE_PENDING \<or> st = STATE_IDLE \<and> todo (pcs r i) > 0" for st msg
    using mv(5) ph(2) by (auto simp: rest_def r' ij ij [symmetric])
qed

lemma exchange_run:
  "exchange t0 c0 t1 c1 m a i j r \<Longrightarrow> exchange t0 c0 t1 c1 m a i j (run_schedule sch r)"
proof (induction sch arbitrary: r)
  case (Cons k sch)
  have ij: "i \<noteq> j" using Cons.prems by (simp add: exchange_def)
  consider "k = i" | "k = j" | "k \<noteq> i" "k \<noteq> j" by blast
  then have "exchange t0 c0 t1 c1 m a i j (rdv_move k r)"
  proof cases
    case 3
    then have "pcs r k = Idle" using Cons.prems by (simp add: exchange_def)
    then have "rdv_move k r = r\<lparr>kernel := (kernel r)\<lparr>current_tid := of_nat k\<rparr>\<rparr>"
      by (cases r) (auto simp: rdv_move_def thread_step_def)
    then show ?thesis using Cons.prems by (simp add: exchange_def)
  qed (use Cons.prems exchange_move_0(1) exchange_move_1(1) in auto)
  then show ?case by (simp add: Cons.IH)
qed simp

lemma round_progress:
  assumes "exchange t0 c0 t1 c1 m a i j r"
  shows "rest i j (run_schedule [i, j] r) < rest i j r \<or> rest i j r = 0 \<and> rest i j (run_schedule [i, j] r) = 0"
proof -
  note 0 = exchange_move_0 [OF assms]
  note 1 = exchange_move_1 [OF 0(1)]
  show ?thesis
  proof (cases "rest i j (rdv_move j (rdv_move i r)) = rest i j r")
    case True
    then have eq: "rest i j (rdv_move i r) = rest i j r" "rest i j (rdv_move j (rdv_move i r)) = rest i j (rdv_move i r)"
      using 0(2) 1(2) by auto
    obtain st msg where "view a (kernel (rdv_move i r)) = Some (st, msg)"
      "todo (pcs r i) = 0 \<and> st = STATE_IDLE \<or> st = STATE_MESSAGE_PENDING"
      using 0(3) [OF eq(1)] by blast
    with 1(3) [OF eq(2)] 0(3) [OF eq(1)] have "rest i j r = 0"
      by (auto simp: rest_def STATE_defs)
    with True show ?thesis by simp
  next
    case False
    then show ?thesis using 0(2) 1(2) by simp
  qed
qed

lemma rounds_finish:
  "exchange t0 c0 t1 c1 m a i j r \<Longrightarrow> rest i j r \<le> n \<Longrightarrow> rest i j (run_schedule (concat (replicate n [i, j])) r) = 0"
proof (induction n arbitrary: r)
  case (Suc n)
  have "rest i j (run_schedule [i, j] r) \<le> n"
    using round_progress [OF Suc.prems(1)] Suc.prems(2) by auto
  from Suc.IH [OF exchange_run [OF Suc.prems(1)] this] show ?case by simp
qed simp

lemma rest_bound: "exchange t0 c0 t1 c1 m a i j r \<Longrightarrow> rest i j r \<le> 12"
  by (auto simp: exchange_def phase_def rest_def)

lemma rest_0:
  assumes "exchange t0 c0 t1 c1 m a i j r" "rest i j r = 0"
  shows "pcs r i = SendReturn (Inr ()) \<and> pcs r j = RecvReturn (Inr m) \<and> view a (kernel r) = Some (STATE_IDLE, m)"
  using assms by (auto simp: exchange_def phase_def rest_def)

text \<open>
  C7. The rendezvous delivers. One sender and one receiver on an idle endpoint, under every
  interleaving of their steps: when \<open>send\<close> has returned, it returned success and the receiver
  already holds the message; \<open>receive\<close> returns that message and nothing else; and from every
  reachable state twelve turns each are enough for both calls to return, with the endpoint idle again.
\<close>

theorem rendezvous_delivers:
  assumes "may t0 c0 Rights_SEND a s" "may t1 c1 Rights_RECEIVE a s" "view a s = Some (STATE_IDLE, msg)"
    and "i \<noteq> j"
    and "rdv_step\<^sup>*\<^sup>* \<lparr>pcs = (\<lambda>_. Idle)(i := SendEntry t0 c0 m, j := RecvEntry t1 c1), kernel = s\<rparr> r"
  shows "(\<forall>res. pcs r i = SendReturn res \<longrightarrow> res = Inr () \<and> pcs r j \<in> {RecvAudit a m, RecvReturn (Inr m)}) \<and>
    (\<forall>res. pcs r j = RecvReturn res \<longrightarrow> res = Inr m) \<and>
    (let r' = run_schedule (concat (replicate 12 [i, j])) r
     in pcs r' i = SendReturn (Inr ()) \<and> pcs r' j = RecvReturn (Inr m) \<and>
        view a (kernel r') = Some (STATE_IDLE, m))"
proof -
  have "exchange t0 c0 t1 c1 m a i j
      \<lparr>pcs = (\<lambda>_. Idle)(i := SendEntry t0 c0 m, j := RecvEntry t1 c1), kernel = s\<rparr>"
    using assms(1-4) by (simp add: exchange_def phase_def)
  then have ex: "exchange t0 c0 t1 c1 m a i j r"
    using assms(5) exchange_run unfolding reachable_schedule by blast
  have fin: "rest i j (run_schedule (concat (replicate 12 [i, j])) r) = 0"
    by (rule rounds_finish [OF ex rest_bound [OF ex]])
  show ?thesis
    using rest_0 [OF exchange_run [OF ex] fin] ex unfolding Let_def
    by (auto simp: exchange_def phase_def)
qed

lemma demo_may:
  "may demo_ipc_table 0 Rights_SEND 0 demo_ipc" "may demo_ipc_table 0 Rights_RECEIVE 0 demo_ipc"
  "view 0 demo_ipc = Some (STATE_IDLE, Message_default)"
  by (simp_all add: may_def view_def fst_resolve find_endpoint_def demo_ipc_def demo_ipc_table_def
      create_endpoint_def create_object_def grant_def CapabilityTable_new_def slot_at_def slice_get_def
      cap_valid_def current_generation_def rights_contains_def Rights_defs Endpoint_new_def)

definition demo_msg :: Message where "demo_msg = \<lparr>msg_data = [1, 2, 3, 4]\<rparr>"

theorem rendezvous_delivers_witness:
  "let r' = run_schedule (concat (replicate 12 [0, 2]))
       \<lparr>pcs = (\<lambda>_. Idle)(0 := SendEntry demo_ipc_table 0 demo_msg, 2 := RecvEntry demo_ipc_table 0),
        kernel = demo_ipc\<rparr>
   in pcs r' 0 = SendReturn (Inr ()) \<and> pcs r' 2 = RecvReturn (Inr demo_msg) \<and>
      view 0 (kernel r') = Some (STATE_IDLE, demo_msg)"
proof -
  have "(0 :: nat) \<noteq> 2" by simp
  from rendezvous_delivers [OF demo_may this rtranclp.rtrancl_refl, of demo_msg]
  show ?thesis by (elim conjE)
qed

text \<open>
  C34. The handshake is for one sender at a time. Between the load that sees the endpoint idle
  and the stores that claim it nothing excludes a second sender: with two senders there is a
  schedule in which both see the endpoint idle, the receiver gets only the second message, and the first
  \<open>send\<close> nevertheless returns success.
\<close>

theorem two_senders_lose_message:
  "\<exists>r. rdv_step\<^sup>*\<^sup>*
     \<lparr>pcs = (\<lambda>_. Idle)(0 := SendEntry demo_ipc_table 0 m0, 2 := SendEntry demo_ipc_table 0 m1,
                         3 := RecvEntry demo_ipc_table 0), kernel = demo_ipc\<rparr> r \<and>
     pcs r 0 = SendReturn (Inr ()) \<and> pcs r 3 = RecvReturn (Inr m1)"
proof -
  let ?r0 = "\<lparr>pcs = (\<lambda>_. Idle)(0 := SendEntry demo_ipc_table 0 m0, 2 := SendEntry demo_ipc_table 0 m1,
                         3 := RecvEntry demo_ipc_table 0), kernel = demo_ipc\<rparr>"
  let ?sch = "[0, 2, 0, 2, 0, 2, 0, 2, 3, 3, 3, 3, 3, 0, 0, 0]"
  note [simp] = demo_ipc_def demo_ipc_table_def find_endpoint_def put_endpoint_def on_endpoint_def
      create_endpoint_def create_object_def grant_def CapabilityTable_new_def slot_at_def slice_get_def
      current_generation_def rights_contains_def Rights_defs Endpoint_new_def resolve_def
      rdv_move_def thread_step_def STATE_defs audit_record_def MAX_RECORDS_def
  have "pcs (run_schedule ?sch ?r0) 0 = SendReturn (Inr ())"
    "pcs (run_schedule ?sch ?r0) 3 = RecvReturn (Inr m1)"
    by simp_all
  then show ?thesis
    unfolding reachable_schedule by blast
qed

end
