(* ===== verification/Kernel_Lock.thy ===== *)
theory Kernel_Lock
  imports Prelude
begin

text \<open>
  \<^verbatim>\<open>critical.rs\<close>, the recursive kernel-wide lock, and the processor registry of \<^verbatim>\<open>smp.rs\<close> that names
  its owners. Every atomic load, store and compare-exchange is one step of the core that executes
  it; any core may take the next step. Every other theory treats a critical section as one step: the
  mutual exclusion proved here is what justifies that.
\<close>

subsection \<open>The processor registry\<close>

definition MAX_CPUS :: nat where "MAX_CPUS = 32"

definition register_cpu :: "nat \<Rightarrow> u32 \<Rightarrow> u32 option list \<Rightarrow> u32 option list" where
  "register_cpu index apic_id table = (if index < MAX_CPUS then table[index := Some apic_id] else table)"

definition apic_id_for_index :: "nat \<Rightarrow> u32 option list \<Rightarrow> u32 option" where
  "apic_id_for_index index table = (if index \<ge> MAX_CPUS then None else table ! index)"

text \<open>The LAPIC is hardware: whether it is mapped and which id it reports are arguments.\<close>

definition current_cpu_index :: "bool \<Rightarrow> u32 \<Rightarrow> u32 option list \<Rightarrow> nat" where
  "current_cpu_index lapic_ready lapic_id table =
     (if \<not> lapic_ready then 0
      else (case position (\<lambda>slot. slot = Some lapic_id) table of Some i \<Rightarrow> i | None \<Rightarrow> 0))"

lemma current_cpu_index_bound:
  "length table = MAX_CPUS \<Longrightarrow> current_cpu_index ready apic table < MAX_CPUS"
  by (auto simp: current_cpu_index_def MAX_CPUS_def position_Some split: option.splits)

lemma current_cpu_index_inj:
  assumes "Some a \<in> set table" "Some b \<in> set table" "a \<noteq> b"
  shows "current_cpu_index True a table \<noteq> current_cpu_index True b table"
proof -
  obtain i where i: "position (\<lambda>slot. slot = Some a) table = Some i"
    using assms(1) position_None [of "\<lambda>slot. slot = Some a" table]
    by (cases "position (\<lambda>slot. slot = Some a) table") auto
  obtain j where j: "position (\<lambda>slot. slot = Some b) table = Some j"
    using assms(2) position_None [of "\<lambda>slot. slot = Some b" table]
    by (cases "position (\<lambda>slot. slot = Some b) table") auto
  have "i \<noteq> j"
    using i j assms(3) by (auto simp: position_Some)
  then show ?thesis by (simp add: current_cpu_index_def i j)
qed

subsection \<open>The lock\<close>

record lock_vars =
  KERNEL_LOCK_OWNER :: int
  PER_CPU_DEPTH :: "nat \<Rightarrow> u32"
  TOTAL_ACQUIRES :: u64
  TOTAL_RELEASES :: u64
  UNBALANCED_RELEASES :: u64

text \<open>Where a core stands in \<open>acquire\<close> or \<open>release\<close>; the argument is the value it has loaded.\<close>

datatype lock_pc =
    Running
  | AcqLoadDepth | AcqStoreDepth u32 | AcqExchange | AcqStoreOne | AcqCount
  | RelLoadDepth | RelUnbalanced | RelStoreZero | RelStoreOwner | RelCount | RelStoreDepth u32

definition cpu_slot :: "nat \<Rightarrow> nat" where
  "cpu_slot cpu = min cpu (MAX_CPUS - 1)"

fun acquire :: "nat \<Rightarrow> lock_pc \<Rightarrow> lock_vars \<Rightarrow> lock_pc \<times> lock_vars" where
  "acquire me AcqLoadDepth v =
     (let depth = PER_CPU_DEPTH v me
      in if depth > 0 then (AcqStoreDepth (depth + 1), v) else (AcqExchange, v))"
| "acquire me (AcqStoreDepth d) v = (Running, v\<lparr>PER_CPU_DEPTH := (PER_CPU_DEPTH v)(me := d)\<rparr>)"
| "acquire me AcqExchange v =
     (if KERNEL_LOCK_OWNER v = -1 then (AcqStoreOne, v\<lparr>KERNEL_LOCK_OWNER := int me\<rparr>)
      else (AcqExchange, v))"
| "acquire me AcqStoreOne v = (AcqCount, v\<lparr>PER_CPU_DEPTH := (PER_CPU_DEPTH v)(me := 1)\<rparr>)"
| "acquire me AcqCount v = (Running, v\<lparr>TOTAL_ACQUIRES := TOTAL_ACQUIRES v + 1\<rparr>)"
| "acquire me pc v = (pc, v)"

fun release :: "nat \<Rightarrow> lock_pc \<Rightarrow> lock_vars \<Rightarrow> lock_pc \<times> lock_vars" where
  "release me RelLoadDepth v =
     (let depth = PER_CPU_DEPTH v me
      in if depth = 0 then (RelUnbalanced, v)
         else if depth = 1 then (RelStoreZero, v)
         else (RelStoreDepth (depth - 1), v))"
| "release me RelUnbalanced v = (Running, v\<lparr>UNBALANCED_RELEASES := UNBALANCED_RELEASES v + 1\<rparr>)"
| "release me RelStoreZero v = (RelStoreOwner, v\<lparr>PER_CPU_DEPTH := (PER_CPU_DEPTH v)(me := 0)\<rparr>)"
| "release me RelStoreOwner v = (RelCount, v\<lparr>KERNEL_LOCK_OWNER := -1\<rparr>)"
| "release me RelCount v = (Running, v\<lparr>TOTAL_RELEASES := TOTAL_RELEASES v + 1\<rparr>)"
| "release me (RelStoreDepth d) v = (Running, v\<lparr>PER_CPU_DEPTH := (PER_CPU_DEPTH v)(me := d)\<rparr>)"
| "release me pc v = (pc, v)"

definition diag_snapshot :: "nat \<Rightarrow> lock_vars \<Rightarrow> int \<times> u32 \<times> u64 \<times> u64 \<times> u64" where
  "diag_snapshot cpu v =
     (KERNEL_LOCK_OWNER v, PER_CPU_DEPTH v (cpu_slot cpu), TOTAL_ACQUIRES v, TOTAL_RELEASES v,
      UNBALANCED_RELEASES v)"

text \<open>
  A core: where it stands, its interrupt flag, and the flags saved by the \<open>without_interrupts\<close> calls it
  is inside of, innermost first.
\<close>

record core =
  lock_pc :: lock_pc
  interrupts :: bool
  saved_flags :: "bool list"

record lock_sys =
  vars :: lock_vars
  cores :: "nat \<Rightarrow> core"

fun is_acquiring :: "lock_pc \<Rightarrow> bool" where
  "is_acquiring AcqLoadDepth = True" | "is_acquiring (AcqStoreDepth _) = True"
| "is_acquiring AcqExchange = True" | "is_acquiring AcqStoreOne = True" | "is_acquiring AcqCount = True"
| "is_acquiring _ = False"

text \<open>
  \<open>without_interrupts\<close>: its entry saves the flag, disables interrupts and starts \<open>acquire\<close>; its end
  starts \<open>release\<close>, after which the saved flag is restored. Between the two the closure runs, and
  may itself enter again. The nesting bound is the range of the 32-bit depth counter.
\<close>

inductive lock_step :: "lock_sys \<Rightarrow> lock_sys \<Rightarrow> bool" where
  enter: "cpu < MAX_CPUS \<Longrightarrow> c = cores s cpu \<Longrightarrow> lock_pc c = Running \<Longrightarrow>
    length (saved_flags c) < 2 ^ 32 - 1 \<Longrightarrow>
    lock_step s (s\<lparr>cores := (cores s)(cpu := \<lparr>lock_pc = AcqLoadDepth, interrupts = False,
      saved_flags = interrupts c # saved_flags c\<rparr>)\<rparr>)"
| acquire_step: "cpu < MAX_CPUS \<Longrightarrow> c = cores s cpu \<Longrightarrow> is_acquiring (lock_pc c) \<Longrightarrow>
    acquire (cpu_slot cpu) (lock_pc c) (vars s) = (pc', v') \<Longrightarrow>
    lock_step s \<lparr>vars = v', cores = (cores s)(cpu := c\<lparr>lock_pc := pc'\<rparr>)\<rparr>"
| leave: "cpu < MAX_CPUS \<Longrightarrow> c = cores s cpu \<Longrightarrow> lock_pc c = Running \<Longrightarrow> saved_flags c \<noteq> [] \<Longrightarrow>
    lock_step s (s\<lparr>cores := (cores s)(cpu := c\<lparr>lock_pc := RelLoadDepth\<rparr>)\<rparr>)"
| release_step: "cpu < MAX_CPUS \<Longrightarrow> c = cores s cpu \<Longrightarrow> \<not> is_acquiring (lock_pc c) \<Longrightarrow>
    lock_pc c \<noteq> Running \<Longrightarrow> release (cpu_slot cpu) (lock_pc c) (vars s) = (pc', v') \<Longrightarrow> pc' \<noteq> Running \<Longrightarrow>
    lock_step s \<lparr>vars = v', cores = (cores s)(cpu := c\<lparr>lock_pc := pc'\<rparr>)\<rparr>"
| restore: "cpu < MAX_CPUS \<Longrightarrow> c = cores s cpu \<Longrightarrow> \<not> is_acquiring (lock_pc c) \<Longrightarrow>
    lock_pc c \<noteq> Running \<Longrightarrow> release (cpu_slot cpu) (lock_pc c) (vars s) = (Running, v') \<Longrightarrow>
    saved_flags c = flag # flags \<Longrightarrow>
    lock_step s \<lparr>vars = v', cores = (cores s)(cpu :=
      \<lparr>lock_pc = Running, interrupts = (if flag then True else interrupts c), saved_flags = flags\<rparr>)\<rparr>"

definition lock_init :: "(nat \<Rightarrow> bool) \<Rightarrow> lock_sys" where
  "lock_init flags =
     \<lparr>vars = \<lparr>KERNEL_LOCK_OWNER = -1, PER_CPU_DEPTH = (\<lambda>_. 0), TOTAL_ACQUIRES = 0,
              TOTAL_RELEASES = 0, UNBALANCED_RELEASES = 0\<rparr>,
      cores = (\<lambda>cpu. \<lparr>lock_pc = Running, interrupts = flags cpu, saved_flags = []\<rparr>)\<rparr>"

definition in_section :: "core \<Rightarrow> bool" where
  "in_section c \<longleftrightarrow> lock_pc c = Running \<and> saved_flags c \<noteq> []"

subsection \<open>The invariant\<close>

text \<open>What a core's depth counter holds, and whether the core owns the lock, at each point.\<close>

fun core_ok :: "lock_pc \<Rightarrow> nat \<Rightarrow> u32 \<Rightarrow> bool" where
  "core_ok Running n d \<longleftrightarrow> unat d = n"
| "core_ok AcqLoadDepth n d \<longleftrightarrow> Suc (unat d) = n"
| "core_ok (AcqStoreDepth e) n d \<longleftrightarrow> Suc (unat d) = n \<and> unat e = n \<and> n > 1"
| "core_ok AcqExchange n d \<longleftrightarrow> n = 1 \<and> d = 0"
| "core_ok AcqStoreOne n d \<longleftrightarrow> n = 1 \<and> d = 0"
| "core_ok AcqCount n d \<longleftrightarrow> n = 1 \<and> d = 1"
| "core_ok RelLoadDepth n d \<longleftrightarrow> unat d = n \<and> n > 0"
| "core_ok RelUnbalanced n d \<longleftrightarrow> False"
| "core_ok RelStoreZero n d \<longleftrightarrow> n = 1 \<and> d = 1"
| "core_ok RelStoreOwner n d \<longleftrightarrow> n = 1 \<and> d = 0"
| "core_ok RelCount n d \<longleftrightarrow> n = 1 \<and> d = 0"
| "core_ok (RelStoreDepth e) n d \<longleftrightarrow> unat d = n \<and> Suc (unat e) = n \<and> n > 1"

fun holds :: "lock_pc \<Rightarrow> nat \<Rightarrow> bool" where
  "holds Running n \<longleftrightarrow> n > 0"
| "holds AcqLoadDepth n \<longleftrightarrow> n > 1"
| "holds AcqExchange n \<longleftrightarrow> False"
| "holds RelCount n \<longleftrightarrow> False"
| "holds _ n \<longleftrightarrow> True"

text \<open>The interrupt flag: off inside, the original value on the bottom of the stack.\<close>

fun flags_ok :: "bool \<Rightarrow> bool \<Rightarrow> bool list \<Rightarrow> bool" where
  "flags_ok orig now [] \<longleftrightarrow> now = orig"
| "flags_ok orig now (f # fs) \<longleftrightarrow> \<not> now \<and> flags_ok orig f fs"

definition cpu_inv :: "bool \<Rightarrow> int \<Rightarrow> nat \<Rightarrow> core \<Rightarrow> u32 \<Rightarrow> bool" where
  "cpu_inv orig owner cpu c d \<longleftrightarrow>
     core_ok (lock_pc c) (length (saved_flags c)) d \<and> length (saved_flags c) < 2 ^ 32 \<and>
     (holds (lock_pc c) (length (saved_flags c)) \<longleftrightarrow> owner = int cpu) \<and>
     flags_ok orig (interrupts c) (saved_flags c)"

definition lock_inv :: "(nat \<Rightarrow> bool) \<Rightarrow> lock_sys \<Rightarrow> bool" where
  "lock_inv flags s \<longleftrightarrow> UNBALANCED_RELEASES (vars s) = 0 \<and>
     (KERNEL_LOCK_OWNER (vars s) = -1 \<or> (\<exists>cpu < MAX_CPUS. KERNEL_LOCK_OWNER (vars s) = int cpu)) \<and>
     (\<forall>cpu < MAX_CPUS. cpu_inv (flags cpu) (KERNEL_LOCK_OWNER (vars s)) cpu (cores s cpu)
        (PER_CPU_DEPTH (vars s) cpu))"

lemma lock_inv_init: "lock_inv flags (lock_init flags)"
  by (simp add: lock_inv_def lock_init_def cpu_inv_def)

lemma cpu_slot_id [simp]: "cpu < MAX_CPUS \<Longrightarrow> cpu_slot cpu = cpu"
  by (simp add: cpu_slot_def MAX_CPUS_def)

text \<open>A step of one core that touches only its own counter and hands the lock only to or from itself.\<close>

definition own_move :: "nat \<Rightarrow> lock_vars \<Rightarrow> lock_vars \<Rightarrow> bool" where
  "own_move cpu v v' \<longleftrightarrow> UNBALANCED_RELEASES v' = UNBALANCED_RELEASES v \<and>
     (\<forall>k. k \<noteq> cpu \<longrightarrow> PER_CPU_DEPTH v' k = PER_CPU_DEPTH v k) \<and>
     (KERNEL_LOCK_OWNER v' = KERNEL_LOCK_OWNER v \<or>
      KERNEL_LOCK_OWNER v = -1 \<and> KERNEL_LOCK_OWNER v' = int cpu \<or>
      KERNEL_LOCK_OWNER v = int cpu \<and> KERNEL_LOCK_OWNER v' = -1)"

lemma lock_inv_move:
  assumes "lock_inv flags s" "cpu < MAX_CPUS" "own_move cpu (vars s) v'"
    and "cpu_inv (flags cpu) (KERNEL_LOCK_OWNER v') cpu c' (PER_CPU_DEPTH v' cpu)"
  shows "lock_inv flags \<lparr>vars = v', cores = (cores s)(cpu := c')\<rparr>"
proof -
  have "cpu_inv (flags k) (KERNEL_LOCK_OWNER v') k (cores s k) (PER_CPU_DEPTH v' k)"
    if "k < MAX_CPUS" "k \<noteq> cpu" for k
  proof -
    have "KERNEL_LOCK_OWNER v' = int k \<longleftrightarrow> KERNEL_LOCK_OWNER (vars s) = int k"
      "PER_CPU_DEPTH v' k = PER_CPU_DEPTH (vars s) k"
      using assms(3) that(2) by (auto simp: own_move_def)
    then show ?thesis using assms(1) that(1) by (simp add: lock_inv_def cpu_inv_def)
  qed
  then show ?thesis
    using assms by (auto simp: lock_inv_def own_move_def)
qed

lemma unat_u32_0: "unat (d :: u32) = 0 \<longleftrightarrow> d = 0" by (simp add: unat_eq_zero)

lemma acquire_inv:
  assumes "cpu_inv orig (KERNEL_LOCK_OWNER v) cpu c (PER_CPU_DEPTH v cpu)" "is_acquiring (lock_pc c)"
    and "acquire cpu (lock_pc c) v = (pc', v')"
  shows "own_move cpu v v' \<and>
    cpu_inv orig (KERNEL_LOCK_OWNER v') cpu (c\<lparr>lock_pc := pc'\<rparr>) (PER_CPU_DEPTH v' cpu)"
proof (cases "lock_pc c")
  case AcqLoadDepth
  let ?d = "PER_CPU_DEPTH v cpu"
  have n: "length (saved_flags c) = Suc (unat ?d)" "Suc (unat ?d) < 2 ^ 32"
    using assms(1) AcqLoadDepth by (auto simp: cpu_inv_def)
  then have "unat (?d + 1) = Suc (unat ?d)"
    by (simp add: unat_word_ariths)
  with assms AcqLoadDepth n show ?thesis
    by (auto simp: cpu_inv_def own_move_def word_gt_0 unat_gt_0 split: if_splits)
qed (use assms in \<open>auto simp: cpu_inv_def own_move_def split: if_splits\<close>)

lemma release_inv:
  assumes "cpu_inv orig (KERNEL_LOCK_OWNER v) cpu c (PER_CPU_DEPTH v cpu)" "\<not> is_acquiring (lock_pc c)"
    and "lock_pc c \<noteq> Running" "release cpu (lock_pc c) v = (pc', v')"
  shows "own_move cpu v v' \<and>
    (if pc' = Running then
       core_ok Running (length (saved_flags c) - 1) (PER_CPU_DEPTH v' cpu) \<and>
       (holds Running (length (saved_flags c) - 1) \<longleftrightarrow> KERNEL_LOCK_OWNER v' = int cpu)
     else cpu_inv orig (KERNEL_LOCK_OWNER v') cpu (c\<lparr>lock_pc := pc'\<rparr>) (PER_CPU_DEPTH v' cpu))"
proof (cases "lock_pc c")
  case RelLoadDepth
  let ?d = "PER_CPU_DEPTH v cpu"
  have n: "length (saved_flags c) = unat ?d" "?d \<noteq> 0"
    using assms(1) RelLoadDepth by (auto simp: cpu_inv_def)
  then have "unat ?d = Suc (unat (?d - 1))"
    by (simp add: unat_minus_one unat_gt_0)
  moreover have "unat ?d = 1 \<longleftrightarrow> ?d = 1"
    by (metis unat_1 word_unat_eq_iff)
  ultimately show ?thesis
    using assms RelLoadDepth n
    by (auto simp: cpu_inv_def own_move_def split: if_splits)
qed (use assms in \<open>auto simp: cpu_inv_def own_move_def split: if_splits\<close>)

lemma lock_inv_step:
  assumes "lock_inv flags s" "lock_step s s'"
  shows "lock_inv flags s'"
proof -
  have inv: "cpu_inv (flags cpu) (KERNEL_LOCK_OWNER (vars s)) cpu (cores s cpu) (PER_CPU_DEPTH (vars s) cpu)"
    if "cpu < MAX_CPUS" for cpu
    using assms(1) that by (simp add: lock_inv_def)
  have same: "own_move cpu (vars s) (vars s)" for cpu
    by (simp add: own_move_def)
  from assms(2) show ?thesis
  proof cases
    case (enter cpu c)
    then have "lock_inv flags \<lparr>vars = vars s, cores = (cores s)(cpu :=
        \<lparr>lock_pc = AcqLoadDepth, interrupts = False, saved_flags = interrupts c # saved_flags c\<rparr>)\<rparr>"
      using inv [of cpu] by (intro lock_inv_move [OF assms(1) _ same]) (auto simp: cpu_inv_def)
    then show ?thesis by (cases s) (simp add: enter)
  next
    case (leave cpu c)
    then have "lock_inv flags \<lparr>vars = vars s, cores = (cores s)(cpu := c\<lparr>lock_pc := RelLoadDepth\<rparr>)\<rparr>"
      using inv [of cpu] by (intro lock_inv_move [OF assms(1) _ same]) (auto simp: cpu_inv_def)
    then show ?thesis by (cases s) (simp add: leave)
  next
    case (acquire_step cpu c pc' v')
    then show ?thesis
      using acquire_inv [OF inv, of cpu pc' v'] lock_inv_move [OF assms(1), of cpu v'] by simp
  next
    case (release_step cpu c pc' v')
    then show ?thesis
      using release_inv [OF inv, of cpu pc' v'] lock_inv_move [OF assms(1), of cpu v'] by simp
  next
    case (restore cpu c v' flag fs)
    then show ?thesis
      using release_inv [OF inv, of cpu Running v'] inv [of cpu]
      by (auto simp: cpu_inv_def intro!: lock_inv_move [OF assms(1)])
  qed
qed

lemma lock_inv_reachable: "lock_step\<^sup>*\<^sup>* (lock_init flags) s \<Longrightarrow> lock_inv flags s"
  by (induction rule: rtranclp_induct) (auto intro: lock_inv_init lock_inv_step)

subsection \<open>Properties\<close>

text \<open>
  C6. Mutual exclusion. In every reachable state, two cores inside critical sections are the same
  core. Such a core is the recorded owner, its depth counter is its nesting depth, and its
  interrupts are off; a core that is in no section has its interrupt flag back as it was at the
  start; and no release is ever unbalanced.
\<close>

theorem kernel_lock_mutual_exclusion:
  assumes "lock_step\<^sup>*\<^sup>* (lock_init flags) s" "cpu < MAX_CPUS"
  shows "(in_section (cores s cpu) \<longrightarrow>
       KERNEL_LOCK_OWNER (vars s) = int cpu \<and>
       unat (PER_CPU_DEPTH (vars s) cpu) = length (saved_flags (cores s cpu)) \<and>
       \<not> interrupts (cores s cpu) \<and>
       (\<forall>other < MAX_CPUS. in_section (cores s other) \<longrightarrow> other = cpu)) \<and>
     (lock_pc (cores s cpu) = Running \<and> \<not> in_section (cores s cpu) \<longrightarrow>
       interrupts (cores s cpu) = flags cpu) \<and>
     UNBALANCED_RELEASES (vars s) = 0"
proof -
  have inv: "lock_inv flags s"
    by (rule lock_inv_reachable [OF assms(1)])
  have own: "KERNEL_LOCK_OWNER (vars s) = int k" if "k < MAX_CPUS" "in_section (cores s k)" for k
    using inv that by (auto simp: lock_inv_def cpu_inv_def in_section_def)
  have only: "\<forall>other < MAX_CPUS. in_section (cores s other) \<longrightarrow> other = cpu" if "in_section (cores s cpu)"
    using own [OF assms(2) that] own by (metis of_nat_eq_iff)
  have cpu: "cpu_inv (flags cpu) (KERNEL_LOCK_OWNER (vars s)) cpu (cores s cpu) (PER_CPU_DEPTH (vars s) cpu)"
    using inv assms(2) by (simp add: lock_inv_def)
  then have depth: "unat (PER_CPU_DEPTH (vars s) cpu) = length (saved_flags (cores s cpu))"
    and off: "\<not> interrupts (cores s cpu)" if "in_section (cores s cpu)"
    using that by (auto simp: cpu_inv_def in_section_def elim: flags_ok.elims)
  have "interrupts (cores s cpu) = flags cpu"
    if "lock_pc (cores s cpu) = Running" "\<not> in_section (cores s cpu)"
    using cpu that by (cases "saved_flags (cores s cpu)") (simp_all add: cpu_inv_def in_section_def)
  then show ?thesis
    using own [OF assms(2)] only depth off inv unfolding lock_inv_def by blast
qed

text \<open>A concrete run: core 3 enters a section on an idle machine and takes the lock.\<close>

definition lock_advance :: "nat \<Rightarrow> lock_sys \<Rightarrow> lock_sys" where
  "lock_advance cpu s =
     (let c = cores s cpu; r = acquire (cpu_slot cpu) (lock_pc c) (vars s)
      in \<lparr>vars = snd r, cores = (cores s)(cpu := c\<lparr>lock_pc := fst r\<rparr>)\<rparr>)"

definition demo_enter :: lock_sys where
  "demo_enter = (lock_init (\<lambda>_. True))\<lparr>cores := (cores (lock_init (\<lambda>_. True)))(3 :=
     \<lparr>lock_pc = AcqLoadDepth, interrupts = False, saved_flags = [True]\<rparr>)\<rparr>"

lemma demo_cpu: "3 < MAX_CPUS"
  by (simp add: MAX_CPUS_def)

lemma demo_enter_reachable: "lock_step\<^sup>*\<^sup>* (lock_init (\<lambda>_. True)) demo_enter"
  using lock_step.enter [OF demo_cpu refl, of "lock_init (\<lambda>_. True)"]
  by (auto simp: lock_init_def demo_enter_def)

lemma lock_advance_reachable:
  assumes "lock_step\<^sup>*\<^sup>* s0 s" "cpu < MAX_CPUS" "is_acquiring (lock_pc (cores s cpu))"
  shows "lock_step\<^sup>*\<^sup>* s0 (lock_advance cpu s)"
proof -
  have "lock_step s (lock_advance cpu s)"
    unfolding lock_advance_def Let_def
    by (rule lock_step.acquire_step [OF assms(2) refl assms(3)]) simp
  with assms(1) show ?thesis by (rule rtranclp.rtrancl_into_rtrancl)
qed

lemma demo_spinning:
  "lock_step\<^sup>*\<^sup>* (lock_init (\<lambda>_. True)) (lock_advance 3 demo_enter)"
  "lock_pc (cores (lock_advance 3 demo_enter) 3) = AcqExchange"
  "vars (lock_advance 3 demo_enter) = vars demo_enter"
  using lock_advance_reachable [OF demo_enter_reachable demo_cpu]
  by (simp_all add: lock_advance_def demo_enter_def lock_init_def demo_cpu)

definition demo_inside :: lock_sys where
  "demo_inside = lock_advance 3 (lock_advance 3 (lock_advance 3 (lock_advance 3 demo_enter)))"

lemma demo_inside_section:
  "lock_step\<^sup>*\<^sup>* (lock_init (\<lambda>_. True)) demo_inside" "in_section (cores demo_inside 3)"
proof -
  have "lock_step\<^sup>*\<^sup>* (lock_init (\<lambda>_. True)) (lock_advance 3 (lock_advance 3 demo_enter))"
    by (rule lock_advance_reachable [OF demo_spinning(1) demo_cpu]) (simp add: demo_spinning)
  then have "lock_step\<^sup>*\<^sup>* (lock_init (\<lambda>_. True)) (lock_advance 3 (lock_advance 3 (lock_advance 3 demo_enter)))"
    by (rule lock_advance_reachable) (simp_all add: demo_cpu lock_advance_def demo_enter_def lock_init_def)
  then show "lock_step\<^sup>*\<^sup>* (lock_init (\<lambda>_. True)) demo_inside"
    unfolding demo_inside_def
    by (rule lock_advance_reachable) (simp_all add: demo_cpu lock_advance_def demo_enter_def lock_init_def)
  show "in_section (cores demo_inside 3)"
    by (simp add: demo_inside_def in_section_def lock_advance_def demo_enter_def lock_init_def demo_cpu)
qed

theorem kernel_lock_mutual_exclusion_witness:
  "in_section (cores demo_inside 3) \<and> KERNEL_LOCK_OWNER (vars demo_inside) = int 3 \<and>
   \<not> interrupts (cores demo_inside 3) \<and> UNBALANCED_RELEASES (vars demo_inside) = 0"
  using kernel_lock_mutual_exclusion [OF demo_inside_section(1) demo_cpu] demo_inside_section(2) by blast

text \<open>
  No self-deadlock. A core that spins on the lock never holds it: either the lock is free and the
  spinning core's next exchange takes it, or another core holds it that is itself not waiting.
  Re-entry by the owner never spins.
\<close>

lemma kernel_lock_waits_for_other:
  assumes "lock_step\<^sup>*\<^sup>* (lock_init flags) s" "cpu < MAX_CPUS" "lock_pc (cores s cpu) = AcqExchange"
  shows "(KERNEL_LOCK_OWNER (vars s) = -1 \<and>
      acquire (cpu_slot cpu) AcqExchange (vars s) =
        (AcqStoreOne, (vars s)\<lparr>KERNEL_LOCK_OWNER := int cpu\<rparr>)) \<or>
    (\<exists>other < MAX_CPUS. other \<noteq> cpu \<and> KERNEL_LOCK_OWNER (vars s) = int other \<and>
      lock_pc (cores s other) \<noteq> AcqExchange)"
proof -
  have inv: "lock_inv flags s"
    by (rule lock_inv_reachable [OF assms(1)])
  then have notme: "KERNEL_LOCK_OWNER (vars s) \<noteq> int cpu"
    using assms(2,3) by (auto simp: lock_inv_def cpu_inv_def)
  show ?thesis
  proof (cases "KERNEL_LOCK_OWNER (vars s) = -1")
    case True
    then show ?thesis using assms(2) by simp
  next
    case False
    then obtain other where o: "other < MAX_CPUS" "KERNEL_LOCK_OWNER (vars s) = int other"
      using inv by (auto simp: lock_inv_def)
    then have "holds (lock_pc (cores s other)) (length (saved_flags (cores s other)))"
      using inv by (auto simp: lock_inv_def cpu_inv_def)
    then have "lock_pc (cores s other) \<noteq> AcqExchange" by auto
    with o notme show ?thesis by auto
  qed
qed

end
