(* ===== verification/Authority_Graph.thy ===== *)
theory Authority_Graph
  imports Prelude "HOL-Library.Multiset"
begin

text \<open>
  \<^verbatim>\<open>kernel_common/src/authority_graph.rs\<close> and \<^verbatim>\<open>discovered_envelope.rs\<close>: the one table of memory grants that
  both the CPU page tables and the IOMMU tables are projected from. The output slice of a
  projection is the number of entries there is room for and the list of entries written.
\<close>

subsection \<open>The graph\<close>

datatype Principal =
    CpuProcess u32
  | PciDevice (pd_bus: u8) (pd_device: u8) (pd_function: u8)

record Grant =
  g_principal :: Principal
  g_phys_base :: u64
  g_len :: u64
  g_writable :: bool
  g_executable :: bool

record Entry =
  e_phys_page :: u64
  e_writable :: bool
  e_executable :: bool

type_synonym graph = "Grant option list"

definition PAGE_SIZE :: u64 where "PAGE_SIZE = 4096"

definition pages_for :: "u64 \<Rightarrow> u64" where
  "pages_for len = (len + PAGE_SIZE - 1) div PAGE_SIZE"

fun graph_grant :: "Grant \<Rightarrow> graph \<Rightarrow> bool \<times> graph" where
  "graph_grant g [] = (False, [])"
| "graph_grant g (slot # graph) =
     (if slot = None then (True, Some g # graph)
      else (let (added, rest) = graph_grant g graph in (added, slot # rest)))"

fun graph_revoke :: "Principal \<Rightarrow> u64 \<Rightarrow> graph \<Rightarrow> nat \<times> graph" where
  "graph_revoke pr phys_base [] = (0, [])"
| "graph_revoke pr phys_base (slot # graph) =
     (let (removed, rest) = graph_revoke pr phys_base graph
      in case slot of
           Some g \<Rightarrow>
             if g_principal g = pr \<and> g_phys_base g = phys_base
             then (removed + 1, None # rest) else (removed, slot # rest)
         | None \<Rightarrow> (removed, slot # rest))"

text \<open>The inner loop: from page \<open>p\<close> on, while there are pages and room.\<close>

fun project_pages :: "Grant \<Rightarrow> u64 \<Rightarrow> u64 \<Rightarrow> nat \<Rightarrow> Entry list" where
  "project_pages g p pages 0 = []"
| "project_pages g p pages (Suc room) =
     (if p < pages
      then \<lparr>e_phys_page = g_phys_base g + p * PAGE_SIZE, e_writable = g_writable g,
            e_executable = g_executable g\<rparr> # project_pages g (p + 1) pages room
      else [])"

fun project :: "graph \<Rightarrow> Principal \<Rightarrow> nat \<Rightarrow> Entry list" where
  "project [] pr room = []"
| "project (slot # graph) pr room =
     (if room = 0 then []
      else (case slot of
              None \<Rightarrow> project graph pr room
            | Some g \<Rightarrow>
                if g_principal g \<noteq> pr then project graph pr room
                else (let es = project_pages g 0 (pages_for (g_len g)) room
                      in es @ project graph pr (room - length es))))"

definition project_page_table :: "graph \<Rightarrow> Principal \<Rightarrow> nat \<Rightarrow> Entry list" where
  "project_page_table graph pr room =
     (case pr of
        CpuProcess _ \<Rightarrow> project graph pr room
      | PciDevice _ _ _ \<Rightarrow> [])"

definition project_iommu_table :: "graph \<Rightarrow> Principal \<Rightarrow> nat \<Rightarrow> Entry list" where
  "project_iommu_table graph pr room =
     (case pr of
        PciDevice _ _ _ \<Rightarrow> project graph pr room
      | CpuProcess _ \<Rightarrow> [])"

fun is_reachable :: "graph \<Rightarrow> Principal \<Rightarrow> u64 \<Rightarrow> bool" where
  "is_reachable [] pr phys_page = False"
| "is_reachable (slot # graph) pr phys_page =
     (case slot of
        None \<Rightarrow> is_reachable graph pr phys_page
      | Some g \<Rightarrow>
          if g_principal g \<noteq> pr then is_reachable graph pr phys_page
          else (let pages = pages_for (g_len g); start = g_phys_base g;
                    last = g_phys_base g + pages * PAGE_SIZE
                in if phys_page \<ge> start \<and> phys_page < last then True
                   else is_reachable graph pr phys_page))"

subsection \<open>Envelopes\<close>

text \<open>\<open>seen\<close> is the written part of the output slice, \<open>room\<close> its total length.\<close>

fun discover_envelope_from :: "u64 list \<Rightarrow> nat \<Rightarrow> u64 list \<Rightarrow> u64 list" where
  "discover_envelope_from [] room seen = seen"
| "discover_envelope_from (addr # attempts) room seen =
     (if length seen \<ge> room then seen
      else if addr \<in> set seen then discover_envelope_from attempts room seen
      else discover_envelope_from attempts room (seen @ [addr]))"

definition discover_envelope :: "u64 list \<Rightarrow> nat \<Rightarrow> u64 list" where
  "discover_envelope attempts room = discover_envelope_from attempts room []"

fun freeze_envelope :: "Principal \<Rightarrow> u64 list \<Rightarrow> graph \<Rightarrow> nat \<times> graph" where
  "freeze_envelope pr [] graph = (0, graph)"
| "freeze_envelope pr (phys_page # envelope) graph =
     (let (added, graph') = graph_grant \<lparr>g_principal = pr, g_phys_base = phys_page, g_len = 4096,
                                         g_writable = True, g_executable = False\<rparr> graph;
          (granted, graph'') = freeze_envelope pr envelope graph'
      in ((if added then 1 else 0) + granted, graph''))"

subsection \<open>What a projection is\<close>

definition grants_of :: "graph \<Rightarrow> Principal \<Rightarrow> Grant list" where
  "grants_of graph pr = filter (\<lambda>g. g_principal g = pr) (List.map_filter id graph)"

definition grant_entries :: "Grant \<Rightarrow> Entry list" where
  "grant_entries g = map (\<lambda>i. \<lparr>e_phys_page = g_phys_base g + of_nat i * PAGE_SIZE,
     e_writable = g_writable g, e_executable = g_executable g\<rparr>) [0..<unat (pages_for (g_len g))]"

lemma grants_of_simps [simp]:
  "grants_of [] pr = []"
  "grants_of (None # graph) pr = grants_of graph pr"
  "grants_of (Some g # graph) pr = (if g_principal g = pr then g # grants_of graph pr else grants_of graph pr)"
  by (simp_all add: grants_of_def List.map_filter_def)

lemma project_pages_take:
  "unat p \<le> unat pages \<Longrightarrow> project_pages g p pages room =
     take room (map (\<lambda>i. \<lparr>e_phys_page = g_phys_base g + of_nat i * PAGE_SIZE,
       e_writable = g_writable g, e_executable = g_executable g\<rparr>) [unat p..<unat pages])"
proof (induction room arbitrary: p)
  case (Suc room)
  show ?case
  proof (cases "p < pages")
    case True
    then have lt: "unat p < unat pages" by (simp add: word_less_nat_alt)
    then have "unat (p + 1) = Suc (unat p)"
      using unat_u64_less [of pages] by (simp add: unat_word_ariths)
    with Suc.IH [of "p + 1"] lt True show ?thesis
      by (simp add: upt_conv_Cons)
  next
    case False
    then have "unat pages \<le> unat p" by (simp add: word_less_nat_alt)
    with False show ?thesis by simp
  qed
qed simp

lemma project_take:
  "project graph pr room = take room (concat (map grant_entries (grants_of graph pr)))"
proof (induction graph arbitrary: room)
  case (Cons slot graph)
  show ?case
  proof (cases slot)
    case (Some g)
    have "project_pages g 0 (pages_for (g_len g)) room = take room (grant_entries g)"
      using project_pages_take [of 0 "pages_for (g_len g)" g room] by (simp add: grant_entries_def)
    then show ?thesis
      by (cases "room \<le> length (grant_entries g)") (auto simp: Cons.IH Some min_def Let_def)
  qed (simp add: Cons.IH)
qed simp

lemma is_reachable_iff:
  "is_reachable graph pr p \<longleftrightarrow> (\<exists>g \<in> set (grants_of graph pr).
     g_phys_base g \<le> p \<and> p < g_phys_base g + pages_for (g_len g) * PAGE_SIZE)"
  by (induction graph) (auto simp: Let_def split: option.splits)

lemma grants_of_revoke:
  "grants_of (snd (graph_revoke pr base graph)) pr' =
     filter (\<lambda>g. \<not> (pr' = pr \<and> g_phys_base g = base)) (grants_of graph pr')"
  by (induction graph) (auto simp: split_beta Let_def split: option.splits)

lemma length_revoke [simp]: "length (snd (graph_revoke pr base graph)) = length graph"
  by (induction graph) (auto simp: split_beta Let_def split: option.splits)

lemma revoke_count:
  "fst (graph_revoke pr base graph) = length (filter (\<lambda>g. g_phys_base g = base) (grants_of graph pr))"
  by (induction graph) (auto simp: split_beta Let_def split: option.splits)

lemma graph_grant_full: "fst (graph_grant g graph) \<longleftrightarrow> None \<in> set graph"
  by (induction graph) (auto simp: split_beta Let_def)

lemma length_graph_grant [simp]: "length (snd (graph_grant g graph)) = length graph"
  by (induction graph) (auto simp: split_beta Let_def)

lemma grants_of_grant:
  "mset (grants_of (snd (graph_grant g graph)) pr) =
     mset (grants_of graph pr) + (if None \<in> set graph \<and> g_principal g = pr then {#g#} else {#})"
  by (induction graph) (auto simp: split_beta Let_def split: option.splits)

subsection \<open>Projection and reachability agree\<close>

text \<open>A grant whose rounded-up range does not run past the end of the address space.\<close>

definition grant_fits :: "Grant \<Rightarrow> bool" where
  "grant_fits g \<longleftrightarrow> unat (g_phys_base g) + unat (pages_for (g_len g)) * 4096 < 2 ^ 64"

lemma unat_page_offset:
  assumes "unat base + i * 4096 < 2 ^ 64"
  shows "unat (base + of_nat i * PAGE_SIZE) = unat base + i * 4096"
proof -
  have "unat (of_nat i * PAGE_SIZE) = i * 4096"
    using assms by (simp add: PAGE_SIZE_def unat_word_ariths unat_of_nat take_bit_nat_eq_self)
  with assms show ?thesis by (simp add: unat_word_ariths)
qed

lemma range_pages:
  "(b \<le> x \<and> x < b + n * 4096) \<longleftrightarrow> (\<exists>i < n. b + i * 4096 \<le> x \<and> x < b + i * 4096 + (4096 :: nat))"
proof
  assume r: "b \<le> x \<and> x < b + n * 4096"
  let ?i = "(x - b) div 4096"
  have "x - b < n * 4096" using r by linarith
  then have "?i < n" by (simp add: div_less_iff_less_mult)
  moreover have "?i * 4096 \<le> x - b" "x - b < ?i * 4096 + 4096"
    using div_mult_mod_eq [of "x - b" 4096] mod_less_divisor [of 4096 "x - b"] by linarith+
  ultimately show "\<exists>i < n. b + i * 4096 \<le> x \<and> x < b + i * 4096 + 4096"
    using r by (intro exI [of _ ?i]) linarith
next
  assume "\<exists>i < n. b + i * 4096 \<le> x \<and> x < b + i * 4096 + 4096"
  then obtain i where i: "i < n" "b + i * 4096 \<le> x" "x < b + i * 4096 + 4096" by blast
  then have "i * 4096 + 4096 \<le> n * 4096" by simp
  with i show "b \<le> x \<and> x < b + n * 4096" by linarith
qed

definition covers :: "Entry \<Rightarrow> u64 \<Rightarrow> bool" where
  "covers e p \<longleftrightarrow> unat (e_phys_page e) \<le> unat p \<and> unat p < unat (e_phys_page e) + 4096"

lemma grant_entries_cover:
  assumes "grant_fits g"
  shows "(g_phys_base g \<le> p \<and> p < g_phys_base g + pages_for (g_len g) * PAGE_SIZE) \<longleftrightarrow>
    (\<exists>e \<in> set (grant_entries g). covers e p)"
proof -
  let ?b = "unat (g_phys_base g)" and ?n = "unat (pages_for (g_len g))"
  have off: "unat (g_phys_base g + of_nat i * PAGE_SIZE) = ?b + i * 4096" if "i \<le> ?n" for i
  proof -
    have "i * 4096 \<le> ?n * 4096" using that by simp
    with assms show ?thesis unfolding grant_fits_def by (intro unat_page_offset) linarith
  qed
  have "(g_phys_base g \<le> p \<and> p < g_phys_base g + pages_for (g_len g) * PAGE_SIZE) \<longleftrightarrow>
      ?b \<le> unat p \<and> unat p < ?b + ?n * 4096"
    using off [of ?n] by (simp add: word_le_nat_alt word_less_nat_alt)
  also have "\<dots> \<longleftrightarrow> (\<exists>e \<in> set (grant_entries g). covers e p)"
    unfolding range_pages by (auto simp: grant_entries_def covers_def off)
  finally show ?thesis .
qed

lemma reachable_iff_projected:
  assumes "\<forall>g \<in> set (grants_of graph pr). grant_fits g"
    and "length (concat (map grant_entries (grants_of graph pr))) \<le> room"
  shows "is_reachable graph pr p \<longleftrightarrow> (\<exists>e \<in> set (project graph pr room). covers e p)"
  using assms(1) by (auto simp: is_reachable_iff project_take assms(2) grant_entries_cover)

text \<open>
  C9. A projection is exactly the principal's grants, page by page, in slot order, cut off at the
  room the caller has. With room for all of them, an address is reachable in the graph if and only if one
  of the projected page entries covers it, and each kind of principal is visible in its own table
  only.
\<close>

theorem projection_is_the_graph:
  assumes "\<forall>g \<in> set (grants_of graph pr). grant_fits g"
    and "length (concat (map grant_entries (grants_of graph pr))) \<le> room"
  shows "project_page_table graph pr room @ project_iommu_table graph pr room =
      concat (map grant_entries (grants_of graph pr)) \<and>
    (project_page_table graph pr room = [] \<or> project_iommu_table graph pr room = []) \<and>
    (is_reachable graph pr p \<longleftrightarrow>
      (\<exists>e \<in> set (project_page_table graph pr room @ project_iommu_table graph pr room). covers e p))"
proof -
  have "project_page_table graph pr room @ project_iommu_table graph pr room = project graph pr room"
    "project_page_table graph pr room = [] \<or> project_iommu_table graph pr room = []"
    by (cases pr; simp add: project_page_table_def project_iommu_table_def)+
  then show ?thesis
    using reachable_iff_projected [OF assms, of p] assms(2) by (simp add: project_take)
qed

definition demo_graph :: graph where
  "demo_graph =
     [Some \<lparr>g_principal = PciDevice 0 3 0, g_phys_base = 0x10000, g_len = 5000, g_writable = True, g_executable = False\<rparr>,
      None,
      Some \<lparr>g_principal = CpuProcess 7, g_phys_base = 0x10000, g_len = 4096, g_writable = True, g_executable = True\<rparr>]"

lemma demo_graph_entries:
  "map grant_entries (grants_of demo_graph (PciDevice 0 3 0)) =
     [[\<lparr>e_phys_page = 0x10000, e_writable = True, e_executable = False\<rparr>,
       \<lparr>e_phys_page = 0x11000, e_writable = True, e_executable = False\<rparr>]]"
  "\<forall>g \<in> set (grants_of demo_graph (PciDevice 0 3 0)). grant_fits g"
  by (simp_all add: demo_graph_def grant_entries_def grant_fits_def pages_for_def PAGE_SIZE_def upt_rec)

theorem projection_is_the_graph_witness:
  "is_reachable demo_graph (PciDevice 0 3 0) 0x11FFF \<and> \<not> is_reachable demo_graph (PciDevice 0 3 0) 0x12000 \<and>
   map e_phys_page (project_iommu_table demo_graph (PciDevice 0 3 0) 32) = [0x10000, 0x11000]"
proof -
  have room: "length (concat (map grant_entries (grants_of demo_graph (PciDevice 0 3 0)))) \<le> 32"
    by (simp add: demo_graph_entries)
  note P = projection_is_the_graph [OF demo_graph_entries(2) room]
  show ?thesis
    using P [of "0x11FFF"] P [of "0x12000"]
    by (auto simp: project_page_table_def demo_graph_entries covers_def)
qed

text \<open>
  There is one revocation path. Revoking a grant removes exactly the principal's grants with
  that base from the graph and reports how many; both projections are then those of the remaining
  grants, an address stays reachable only through one of them, and every other principal's
  projections and reachability are untouched.
\<close>

lemma revoke_removes_from_both_projections:
  assumes "graph_revoke pr base graph = (n, graph')"
  shows "n = length (filter (\<lambda>g. g_phys_base g = base) (grants_of graph pr)) \<and>
    project graph' pr room =
      take room (concat (map grant_entries (filter (\<lambda>g. g_phys_base g \<noteq> base) (grants_of graph pr)))) \<and>
    (is_reachable graph' pr p \<longrightarrow> (\<exists>g \<in> set (grants_of graph pr). g_phys_base g \<noteq> base \<and>
       g_phys_base g \<le> p \<and> p < g_phys_base g + pages_for (g_len g) * PAGE_SIZE)) \<and>
    (\<forall>pr'. pr' \<noteq> pr \<longrightarrow>
       project_page_table graph' pr' room = project_page_table graph pr' room \<and>
       project_iommu_table graph' pr' room = project_iommu_table graph pr' room \<and>
       is_reachable graph' pr' p = is_reachable graph pr' p)"
proof -
  have g': "graph' = snd (graph_revoke pr base graph)" "n = fst (graph_revoke pr base graph)"
    using assms by simp_all
  have others: "project graph' pr' room = project graph pr' room" "is_reachable graph' pr' p = is_reachable graph pr' p"
    if "pr' \<noteq> pr" for pr'
    using that by (simp_all add: g' project_take is_reachable_iff grants_of_revoke)
  then have "project_page_table graph' pr' room = project_page_table graph pr' room \<and>
       project_iommu_table graph' pr' room = project_iommu_table graph pr' room" if "pr' \<noteq> pr" for pr'
    using that by (cases pr') (simp_all add: project_page_table_def project_iommu_table_def)
  moreover have "project graph' pr room =
      take room (concat (map grant_entries (filter (\<lambda>g. g_phys_base g \<noteq> base) (grants_of graph pr))))"
    by (simp add: g' project_take grants_of_revoke)
  ultimately show ?thesis
    using others by (auto simp: g' revoke_count is_reachable_iff grants_of_revoke)
qed

end
