(* ===== verification/Certificates.thy ===== *)
theory Certificates
  imports Authority_Graph
begin

text \<open>
  \<^verbatim>\<open>kernel_common/src/impossibility_certificate.rs\<close>: certificates that a principal could not reach a
  page when the authority graph had a given checksum. The checksum is an FNV-1a style fold over seven words per live
  grant.
\<close>

subsection \<open>The code\<close>

record Certificate =
  ct_principal :: Principal
  ct_phys_page :: u64
  ct_graph_checksum :: u64

datatype Verdict = Valid | Stale

definition FNV_OFFSET :: u64 where "FNV_OFFSET = 0xcbf29ce484222325"
definition FNV_PRIME :: u64 where "FNV_PRIME = 0x100000001b3"

definition mix :: "u64 \<Rightarrow> u64 \<Rightarrow> u64" where
  "mix v h = (h XOR v) * FNV_PRIME"

definition bool_u64 :: "bool \<Rightarrow> u64" where
  "bool_u64 b = (if b then 1 else 0)"

text \<open>The words mixed in for one grant, in order.\<close>

definition grant_words :: "Grant \<Rightarrow> u64 list" where
  "grant_words g =
     (case g_principal g of
        CpuProcess pid \<Rightarrow> [0, ucast pid, 0]
      | PciDevice bus device function \<Rightarrow> [1, ucast bus, push_bit 8 (ucast device) OR ucast function]) @
     [g_phys_base g, g_len g, bool_u64 (g_writable g), bool_u64 (g_executable g)]"

fun checksum_from :: "graph \<Rightarrow> u64 \<Rightarrow> u64" where
  "checksum_from [] h = h"
| "checksum_from (slot # graph) h =
     (case slot of
        None \<Rightarrow> checksum_from graph h
      | Some g \<Rightarrow> checksum_from graph (fold mix (grant_words g) h))"

definition checksum_graph :: "graph \<Rightarrow> u64" where
  "checksum_graph graph = checksum_from graph FNV_OFFSET"

definition issue :: "graph \<Rightarrow> Principal \<Rightarrow> u64 \<Rightarrow> Certificate option" where
  "issue graph pr phys_page =
     (if is_reachable graph pr phys_page then None
      else Some \<lparr>ct_principal = pr, ct_phys_page = phys_page, ct_graph_checksum = checksum_graph graph\<rparr>)"

definition verify :: "graph \<Rightarrow> Certificate \<Rightarrow> Verdict" where
  "verify graph cert = (if checksum_graph graph \<noteq> ct_graph_checksum cert then Stale else Valid)"

subsection \<open>The checksum as a fold over words\<close>

definition live :: "graph \<Rightarrow> Grant list" where
  "live graph = List.map_filter id graph"

definition graph_words :: "graph \<Rightarrow> u64 list" where
  "graph_words graph = concat (map grant_words (live graph))"

lemma live_simps [simp]:
  "live [] = []" "live (None # graph) = live graph" "live (Some g # graph) = g # live graph"
  by (simp_all add: live_def List.map_filter_def)

lemma checksum_words: "checksum_graph graph = fold mix (graph_words graph) FNV_OFFSET"
proof -
  have "checksum_from graph h = fold mix (graph_words graph) h" for h
    by (induction graph arbitrary: h) (auto simp: graph_words_def split: option.splits)
  then show ?thesis by (simp add: checksum_graph_def)
qed

lemma FNV_PRIME_inverse: "FNV_PRIME * 0xce965057aff6957b = 1"
  by (simp add: FNV_PRIME_def)

lemma mix_inj: "mix v h = mix v' h' \<longleftrightarrow> h XOR v = h' XOR v'"
proof
  assume "mix v h = mix v' h'"
  then have "(h XOR v) * (FNV_PRIME * 0xce965057aff6957b) = (h' XOR v') * (FNV_PRIME * 0xce965057aff6957b)"
    unfolding mix_def by (simp flip: mult.assoc)
  then show "h XOR v = h' XOR v'"
    by (simp only: FNV_PRIME_inverse mult_1_right)
qed (simp add: mix_def)

lemma xor_cancel: "(h :: u64) XOR v = h XOR v' \<longleftrightarrow> v = v'" "(h :: u64) XOR v = h' XOR v \<longleftrightarrow> h = h'"
  by (auto simp: bit_eq_iff bit_xor_iff)

lemma fold_mix_inj: "fold mix vs h = fold mix vs h' \<longleftrightarrow> h = h'"
  by (induction vs arbitrary: h h') (simp_all add: mix_inj xor_cancel)

lemma fold_mix_update:
  assumes "i < length vs" "v \<noteq> vs ! i"
  shows "fold mix (vs[i := v]) h \<noteq> fold mix vs h"
proof -
  have "fold mix (take i vs @ v # drop (Suc i) vs) h \<noteq> fold mix (take i vs @ vs ! i # drop (Suc i) vs) h"
    using assms(2) by (simp add: fold_mix_inj mix_inj xor_cancel)
  then show ?thesis
    using assms(1) by (simp add: upd_conv_take_nth_drop id_take_nth_drop [symmetric])
qed

text \<open>
  C12. A certificate is issued only for a page that is unreachable then, and it stays valid for
  every graph with the same live grants in the same order, wherever their slots are. A change of
  one of the words the checksum covers (one field of one live grant) makes it stale.
\<close>

theorem certificate_detects_single_change:
  assumes "issue graph pr page = Some cert"
  shows "\<not> is_reachable graph pr page \<and>
    (\<forall>graph'. live graph' = live graph \<longrightarrow> verify graph' cert = Valid \<and> \<not> is_reachable graph' pr page) \<and>
    (\<forall>graph' i v. i < length (graph_words graph) \<longrightarrow> v \<noteq> graph_words graph ! i \<longrightarrow>
       graph_words graph' = (graph_words graph)[i := v] \<longrightarrow> verify graph' cert = Stale)"
proof -
  have cert: "\<not> is_reachable graph pr page" "ct_graph_checksum cert = checksum_graph graph"
    using assms by (auto simp: issue_def split: if_splits)
  have "verify graph' cert = Valid \<and> \<not> is_reachable graph' pr page" if "live graph' = live graph" for graph'
    using cert that
    by (simp add: verify_def is_reachable_iff grants_of_def live_def checksum_words graph_words_def)
  moreover have "verify graph' cert = Stale"
    if "i < length (graph_words graph)" "v \<noteq> graph_words graph ! i"
      "graph_words graph' = (graph_words graph)[i := v]" for graph' i v
    using fold_mix_update [OF that(1,2)] by (simp add: verify_def cert(2) checksum_words that(3))
  ultimately show ?thesis
    using cert(1) by blast
qed

theorem certificate_detects_single_change_witness:
  "\<exists>cert. issue demo_graph (PciDevice 0 3 0) 0x12000 = Some cert \<and>
     verify (demo_graph @ [None]) cert = Valid \<and>
     verify (demo_graph[0 := map_option (g_len_update (\<lambda>_. 9000)) (demo_graph ! 0)]) cert = Stale"
proof -
  obtain cert where c: "issue demo_graph (PciDevice 0 3 0) 0x12000 = Some cert"
    by (simp add: issue_def demo_graph_def pages_for_def PAGE_SIZE_def)
  have "live (demo_graph @ [None]) = live demo_graph"
    by (simp add: demo_graph_def)
  moreover have "4 < length (graph_words demo_graph)" "9000 \<noteq> graph_words demo_graph ! 4"
    "graph_words (demo_graph[0 := map_option (g_len_update (\<lambda>_. 9000)) (demo_graph ! 0)]) =
       (graph_words demo_graph)[4 := 9000]"
    by (simp_all add: demo_graph_def graph_words_def grant_words_def)
  ultimately show ?thesis
    using certificate_detects_single_change [OF c] c by blast
qed

text \<open>
  C35. The checksum does not detect every change of content: two fields of one grant can be
  changed together so that it stays the same. A certificate issued for a page that is unreachable
  then verifies as valid against a graph in which the same principal reaches that page;
  verification compares checksums only and does not ask about reachability again.
\<close>

theorem valid_certificate_for_reachable_page:
  "\<exists>graph graph' pr page cert.
     issue graph pr page = Some cert \<and> verify graph' cert = Valid \<and> is_reachable graph' pr page"
proof -
  let ?g = "\<lambda>base len. [Some \<lparr>g_principal = CpuProcess 1, g_phys_base = base, g_len = len,
      g_writable = True, g_executable = False\<rparr>]"
  let ?graph = "?g 0x1000 0x1000" and ?graph' = "?g 0 0xf0000001e74000"
  let ?cert = "\<lparr>ct_principal = CpuProcess 1, ct_phys_page = 0x200000,
      ct_graph_checksum = checksum_graph ?graph\<rparr>"
  have "issue ?graph (CpuProcess 1) 0x200000 = Some ?cert"
    by (simp add: issue_def pages_for_def PAGE_SIZE_def)
  moreover have "checksum_graph ?graph' = checksum_graph ?graph"
    by (simp add: checksum_graph_def grant_words_def mix_def FNV_OFFSET_def FNV_PRIME_def bool_u64_def)
  moreover have "is_reachable ?graph' (CpuProcess 1) 0x200000"
    by (simp add: pages_for_def PAGE_SIZE_def)
  ultimately show ?thesis
    by (intro exI [of _ ?graph] exI [of _ ?graph'] exI [of _ "CpuProcess 1"] exI [of _ "0x200000"]
        exI [of _ ?cert]) (simp add: verify_def)
qed

end
