(* ===== verification/Bitmap.thy ===== *)
theory Bitmap
  imports Prelude "HOL-Library.Monad_Syntax"
begin

text \<open>
  \<^verbatim>\<open>kernel_common/src/bitmap.rs\<close>: the bit operations of the physical memory manager over a byte
  slice, and the rounding of a byte range to pages. \<open>None\<close> is the panic of an index outside the
  slice. The abstraction of a slice is the predicate \<open>bm_bit\<close> on bit numbers.
\<close>

definition bm_set :: "u8 list \<Rightarrow> u64 \<Rightarrow> u8 list option" where
  "bm_set bitmap index =
     (let i = unat (index div 8)
      in if i < length bitmap
         then Some (bitmap[i := (bitmap ! i) OR push_bit (unat (index mod 8)) 1]) else None)"

definition bm_clear :: "u8 list \<Rightarrow> u64 \<Rightarrow> u8 list option" where
  "bm_clear bitmap index =
     (let i = unat (index div 8)
      in if i < length bitmap
         then Some (bitmap[i := (bitmap ! i) AND NOT (push_bit (unat (index mod 8)) 1)]) else None)"

definition bm_test :: "u8 list \<Rightarrow> u64 \<Rightarrow> bool option" where
  "bm_test bitmap index =
     (let i = unat (index div 8)
      in if i < length bitmap
         then Some ((bitmap ! i) AND push_bit (unat (index mod 8)) 1 \<noteq> 0) else None)"

definition reserve_range_pages :: "u64 \<Rightarrow> u64 \<Rightarrow> u64 \<Rightarrow> u64 \<times> u64" where
  "reserve_range_pages start len page_size =
     (let start_page = start div page_size;
          pages = (len + page_size - 1) div page_size;
          pages' = (if start mod page_size \<noteq> 0
                    then (len + (start mod page_size) + page_size - 1) div page_size else pages)
      in (start_page, pages'))"

definition bm_bit :: "u8 list \<Rightarrow> nat \<Rightarrow> bool" where
  "bm_bit bitmap n = bit (bitmap ! (n div 8)) (n mod 8)"

lemma bm_index: "unat (index div 8 :: u64) = unat index div 8" "unat (index mod 8 :: u64) = unat index mod 8"
  by (simp_all add: unat_div unat_mod)

lemma bm_test_eq:
  "bm_test bm index = (if unat index < 8 * length bm then Some (bm_bit bm (unat index)) else None)"
  by (auto simp: bm_test_def bm_bit_def bm_index Let_def and_exp_eq_0_iff_not_bit)

lemma bm_set_eq:
  assumes "unat index < 8 * length bm"
  obtains bm' where "bm_set bm index = Some bm'" "length bm' = length bm"
    "\<And>n. n < 8 * length bm \<Longrightarrow> bm_bit bm' n \<longleftrightarrow> n = unat index \<or> bm_bit bm n"
proof -
  let ?i = "unat index div 8" and ?k = "unat index mod 8"
  let ?bm = "bm[?i := (bm ! ?i) OR push_bit ?k 1]"
  have i: "?i < length bm" using assms by (simp add: less_mult_imp_div_less mult.commute)
  have "bm_bit ?bm n \<longleftrightarrow> n = unat index \<or> bm_bit bm n" if n: "n < 8 * length bm" for n
  proof (cases "n div 8 = ?i")
    case True
    then have "n = unat index \<longleftrightarrow> n mod 8 = ?k"
      by (metis div_mult_mod_eq)
    then show ?thesis using True i by (auto simp: bm_bit_def bit_simps)
  next
    case False
    then show ?thesis by (auto simp: bm_bit_def)
  qed
  with i show thesis
    by (intro that [of ?bm]) (simp_all add: bm_set_def bm_index Let_def)
qed

lemma bm_clear_eq:
  assumes "unat index < 8 * length bm"
  obtains bm' where "bm_clear bm index = Some bm'" "length bm' = length bm"
    "\<And>n. n < 8 * length bm \<Longrightarrow> bm_bit bm' n \<longleftrightarrow> n \<noteq> unat index \<and> bm_bit bm n"
proof -
  let ?i = "unat index div 8" and ?k = "unat index mod 8"
  let ?bm = "bm[?i := (bm ! ?i) AND NOT (push_bit ?k 1)]"
  have i: "?i < length bm" using assms by (simp add: less_mult_imp_div_less mult.commute)
  have "bm_bit ?bm n \<longleftrightarrow> n \<noteq> unat index \<and> bm_bit bm n" if n: "n < 8 * length bm" for n
  proof (cases "n div 8 = ?i")
    case True
    then have "n = unat index \<longleftrightarrow> n mod 8 = ?k"
      by (metis div_mult_mod_eq)
    then show ?thesis using True i by (auto simp: bm_bit_def bit_simps)
  next
    case False
    then show ?thesis by (auto simp: bm_bit_def)
  qed
  with i show thesis
    by (intro that [of ?bm]) (simp_all add: bm_clear_def bm_index Let_def)
qed

lemma cover_arith:
  assumes "s = a * 4096 + r" "l + r + 4095 = q * 4096 + t" "t < 4096" "r < 4096" "0 < (l :: nat)"
  shows "a * 4096 \<le> s \<and> s < (a + 1) * 4096 \<and> s + l \<le> (a + q) * 4096 \<and> (a + q - 1) * 4096 < s + l"
  using assms by (cases q) (simp_all add: algebra_simps)

text \<open>
  The page range of a reservation covers the byte range: every byte of a range that does not
  run past the end of the address space lies in one of its pages, and the first and the last page
  each contain a byte of a nonempty range, so nothing further is reserved.
\<close>

lemma reserve_range_covers:
  assumes "reserve_range_pages start len 4096 = (first, pages)"
    and "unat start + unat len + 8192 < 2 ^ 64" "0 < len"
  shows "unat first * 4096 \<le> unat start \<and> unat start < (unat first + 1) * 4096 \<and>
    unat start + unat len \<le> (unat first + unat pages) * 4096 \<and>
    (unat first + unat pages - 1) * 4096 < unat start + unat len"
proof -
  let ?s = "unat start" and ?l = "unat len"
  have first: "unat first = ?s div 4096"
    using assms(1) by (auto simp: reserve_range_pages_def Let_def unat_div)
  have "unat (len + (start mod 4096) + 4096 - 1) = ?l + ?s mod 4096 + 4095"
  proof -
    have r: "unat (start mod 4096) = ?s mod 4096" by (simp add: unat_mod)
    have "?s mod 4096 < 4096" by simp
    then have "unat (len + (start mod 4096) + 4095) = ?l + ?s mod 4096 + 4095"
      using assms(2) by (simp add: unat_word_ariths r)
    then show ?thesis by (simp add: algebra_simps)
  qed
  then have pages: "unat pages = (?l + ?s mod 4096 + 4095) div 4096"
    using assms(1) by (auto simp: reserve_range_pages_def Let_def unat_div unat_eq_zero split: if_splits)
  have pos: "0 < ?l" using assms(3) by (simp add: word_less_nat_alt)
  show ?thesis unfolding first pages
    by (rule cover_arith [where r = "?s mod 4096" and t = "(?l + ?s mod 4096 + 4095) mod 4096"])
       (use pos in simp_all)
qed

end
