(* ===== verification/Pmm.thy ===== *)
theory Pmm
  imports Bitmap
begin

text \<open>
  \<^verbatim>\<open>kernel_rs/src/pmm.rs\<close>: the physical page allocator over two bitmaps. The state holds the two
  bitmaps as the byte slices the code views them through, the counters, and the contents of
  physical memory as 64-bit words by address. \<open>None\<close> is a panic. The contract its clients rely on is the locale
  \<open>frame_allocator\<close>, interpreted below on the code.
\<close>

subsection \<open>State\<close>

definition PMM_PAGE_SIZE :: u64 where "PMM_PAGE_SIZE = 4096"

definition EFI_CONVENTIONAL_MEMORY :: u32 where "EFI_CONVENTIONAL_MEMORY = 7"

definition is_real_memory :: "u32 \<Rightarrow> bool" where
  "is_real_memory ty \<longleftrightarrow> ty \<in> {1, 2, 3, 4, 5, 6, 7, 9, 10}"

record PmmStats =
  total_physical_span :: u64
  total_usable_memory :: u64
  reserved_memory :: u64
  free_pages :: u64
  used_pages :: u64

record pmm =
  USED_BITMAP :: "u8 list"
  RESERVED_BITMAP :: "u8 list"
  TOTAL_SPAN_PAGES :: u64
  LAST_SCANNED_PAGE :: u64
  STATS :: PmmStats
  PHYS :: "u64 \<Rightarrow> u64"

definition zero_page :: "u64 \<Rightarrow> (u64 \<Rightarrow> u64) \<Rightarrow> u64 \<Rightarrow> u64" where
  "zero_page addr mem = (\<lambda>a. if a - addr < PMM_PAGE_SIZE then 0 else mem a)"

subsection \<open>Reservation\<close>

definition reserve_page :: "u64 \<Rightarrow> 'a pmm_scheme \<Rightarrow> 'a pmm_scheme option" where
  "reserve_page idx s =
     (if idx \<ge> TOTAL_SPAN_PAGES s then Some s
      else do {
        r \<leftarrow> bm_test (RESERVED_BITMAP s) idx;
        if r then Some s
        else do {
          rb \<leftarrow> bm_set (RESERVED_BITMAP s) idx;
          u \<leftarrow> bm_test (USED_BITMAP s) idx;
          let s1 = s\<lparr>RESERVED_BITMAP := rb\<rparr>;
          s2 \<leftarrow> (if u then Some s1
                 else do {
                   ub \<leftarrow> bm_set (USED_BITMAP s1) idx;
                   Some (s1\<lparr>USED_BITMAP := ub, STATS := (STATS s1)\<lparr>free_pages := free_pages (STATS s1) - 1\<rparr>\<rparr>)
                 });
          Some (s2\<lparr>STATS := (STATS s2)\<lparr>reserved_memory := reserved_memory (STATS s2) + PMM_PAGE_SIZE\<rparr>\<rparr>)
        }
      })"

fun reserve_pages :: "u64 \<Rightarrow> nat \<Rightarrow> 'a pmm_scheme \<Rightarrow> 'a pmm_scheme option" where
  "reserve_pages idx 0 s = Some s"
| "reserve_pages idx (Suc n) s = Option.bind (reserve_page idx s) (reserve_pages (idx + 1) n)"

definition reserve_range :: "u64 \<Rightarrow> u64 \<Rightarrow> 'a pmm_scheme \<Rightarrow> 'a pmm_scheme option" where
  "reserve_range start len s =
     (let (start_page, pages) = reserve_range_pages start len PMM_PAGE_SIZE
      in reserve_pages start_page (unat pages) s)"

subsection \<open>Allocation\<close>

text \<open>The scan loop: \<open>Some None\<close> when it runs off the end.\<close>

function scan_free :: "u8 list \<Rightarrow> u64 \<Rightarrow> u64 \<Rightarrow> u64 option option" where
  "scan_free used span i =
     (if i < span
      then (case bm_test used i of
              None \<Rightarrow> None
            | Some u \<Rightarrow> if \<not> u then Some (Some i) else scan_free used span (i + 1))
      else Some None)"
  by auto
termination
proof (relation "measure (\<lambda>(used, span, i). unat span - unat i)")
  fix used :: "u8 list" and span i :: u64 and u
  assume "i < span"
  then have "unat i < unat span" by (simp add: word_less_nat_alt)
  moreover from this have "unat (i + 1) = Suc (unat i)"
    using unat_u64_less [of span] by (simp add: unat_word_ariths)
  ultimately show "((used, span, i + 1), used, span, i) \<in> measure (\<lambda>(used, span, i). unat span - unat i)"
    by simp
qed simp

declare scan_free.simps [simp del]

definition take_page :: "u64 \<Rightarrow> 'a pmm_scheme \<Rightarrow> (u64 \<times> 'a pmm_scheme) option" where
  "take_page i s = do {
     ub \<leftarrow> bm_set (USED_BITMAP s) i;
     let addr = i * PMM_PAGE_SIZE;
     Some (addr, s\<lparr>USED_BITMAP := ub,
       STATS := (STATS s)\<lparr>free_pages := free_pages (STATS s) - 1, used_pages := used_pages (STATS s) + 1\<rparr>,
       LAST_SCANNED_PAGE := i, PHYS := zero_page addr (PHYS s)\<rparr>)
   }"

definition alloc_page :: "'a pmm_scheme \<Rightarrow> (u64 \<times> 'a pmm_scheme) option" where
  "alloc_page s =
     (case scan_free (USED_BITMAP s) (TOTAL_SPAN_PAGES s) (LAST_SCANNED_PAGE s) of
        None \<Rightarrow> None
      | Some (Some i) \<Rightarrow> take_page i s
      | Some None \<Rightarrow>
          if LAST_SCANNED_PAGE s > 0
          then (case scan_free (USED_BITMAP s) (TOTAL_SPAN_PAGES s) 0 of
                  None \<Rightarrow> None
                | Some (Some i) \<Rightarrow> take_page i (s\<lparr>LAST_SCANNED_PAGE := 0\<rparr>)
                | Some None \<Rightarrow> Some (0, s\<lparr>LAST_SCANNED_PAGE := 0\<rparr>))
          else Some (0, s))"

definition free_page :: "u64 \<Rightarrow> 'a pmm_scheme \<Rightarrow> 'a pmm_scheme option" where
  "free_page addr s =
     (if addr = 0 then Some s
      else if addr mod PMM_PAGE_SIZE \<noteq> 0 then Some s
      else (let page_index = addr div PMM_PAGE_SIZE
            in if page_index \<ge> TOTAL_SPAN_PAGES s then Some s
               else do {
                 r \<leftarrow> bm_test (RESERVED_BITMAP s) page_index;
                 if r then Some s
                 else do {
                   u \<leftarrow> bm_test (USED_BITMAP s) page_index;
                   if \<not> u then Some s
                   else do {
                     ub \<leftarrow> bm_clear (USED_BITMAP s) page_index;
                     Some (s\<lparr>USED_BITMAP := ub,
                       STATS := (STATS s)\<lparr>free_pages := free_pages (STATS s) + 1,
                                          used_pages := used_pages (STATS s) - 1\<rparr>,
                       LAST_SCANNED_PAGE :=
                         (if page_index < LAST_SCANNED_PAGE s then page_index else LAST_SCANNED_PAGE s)\<rparr>)
                   }
                 }
               }))"

subsection \<open>Initialisation\<close>

text \<open>
  The firmware's memory map as the list of its descriptors; the buffers whose ranges are reserved
  are given by address and size.
\<close>

record EfiMemoryDescriptor =
  md_ty :: u32
  md_physical_start :: u64
  md_number_of_pages :: u64

record BootRanges =
  kernel_physical_start :: u64
  kernel_physical_end :: u64
  boot_info_addr :: u64
  memory_map_addr :: u64
  memory_map_size :: u64

definition BOOT_INFO_SIZE :: u64 where "BOOT_INFO_SIZE = 136"

fun highest_address :: "EfiMemoryDescriptor list \<Rightarrow> u64 \<Rightarrow> u64" where
  "highest_address [] h = h"
| "highest_address (d # ds) h =
     (let last = md_physical_start d + md_number_of_pages d * PMM_PAGE_SIZE
      in if \<not> is_real_memory (md_ty d) then highest_address ds h
         else highest_address ds (if last > h then last else h))"

definition find_bitmap_region :: "EfiMemoryDescriptor list \<Rightarrow> u64 \<Rightarrow> EfiMemoryDescriptor option" where
  "find_bitmap_region ds total_bitmap_size =
     List.find (\<lambda>d. md_ty d = EFI_CONVENTIONAL_MEMORY \<and> md_physical_start d > 0 \<and>
       md_number_of_pages d * PMM_PAGE_SIZE \<ge> total_bitmap_size) ds"

fun clear_pages :: "u64 \<Rightarrow> nat \<Rightarrow> 'a pmm_scheme \<Rightarrow> 'a pmm_scheme option" where
  "clear_pages idx 0 s = Some s"
| "clear_pages idx (Suc n) s =
     (case bm_clear (USED_BITMAP s) idx of
        None \<Rightarrow> None
      | Some ub \<Rightarrow> clear_pages (idx + 1) n
          (s\<lparr>USED_BITMAP := ub, STATS := (STATS s)\<lparr>free_pages := free_pages (STATS s) + 1\<rparr>\<rparr>))"

fun free_conventional :: "EfiMemoryDescriptor list \<Rightarrow> 'a pmm_scheme \<Rightarrow> 'a pmm_scheme option" where
  "free_conventional [] s = Some s"
| "free_conventional (d # ds) s =
     (if md_ty d = EFI_CONVENTIONAL_MEMORY
      then Option.bind
        (clear_pages (md_physical_start d div PMM_PAGE_SIZE) (unat (md_number_of_pages d))
          (s\<lparr>STATS := (STATS s)\<lparr>total_usable_memory :=
             total_usable_memory (STATS s) + md_number_of_pages d * PMM_PAGE_SIZE\<rparr>\<rparr>))
        (free_conventional ds)
      else free_conventional ds s)"

definition bitmap_bytes :: "u64 \<Rightarrow> u64" where
  "bitmap_bytes span = span div 8 + (if span mod 8 \<noteq> 0 then 1 else 0)"

definition pmm_init :: "EfiMemoryDescriptor list \<Rightarrow> BootRanges \<Rightarrow> (u64 \<Rightarrow> u64) \<Rightarrow> pmm option" where
  "pmm_init ds b mem =
     (let highest = highest_address ds 0;
          span = highest div PMM_PAGE_SIZE;
          bitmap_size_bytes = bitmap_bytes span;
          total_bitmap_size = bitmap_size_bytes * 2
      in case find_bitmap_region ds total_bitmap_size of
           None \<Rightarrow> None
         | Some region \<Rightarrow>
             (let s = \<lparr>USED_BITMAP = replicate (unat bitmap_size_bytes) 0xFF,
                       RESERVED_BITMAP = replicate (unat bitmap_size_bytes) 0,
                       TOTAL_SPAN_PAGES = span, LAST_SCANNED_PAGE = 0,
                       STATS = \<lparr>total_physical_span = highest, total_usable_memory = 0,
                                reserved_memory = 0, free_pages = 0, used_pages = 0\<rparr>,
                       PHYS = mem\<rparr>
              in do {
                s \<leftarrow> free_conventional ds s;
                s \<leftarrow> reserve_range 0 PMM_PAGE_SIZE s;
                s \<leftarrow> reserve_range (md_physical_start region) total_bitmap_size s;
                s \<leftarrow> reserve_range (kernel_physical_start b) (kernel_physical_end b - kernel_physical_start b) s;
                s \<leftarrow> reserve_range (boot_info_addr b) BOOT_INFO_SIZE s;
                reserve_range (memory_map_addr b) (memory_map_size b) s
              }))"

subsection \<open>The allocator contract\<close>

locale frame_allocator =
  fixes inv :: "'s \<Rightarrow> bool" and usable :: "'s \<Rightarrow> u64 set" and free_frames :: "'s \<Rightarrow> u64 set"
    and alloc :: "'s \<Rightarrow> (u64 \<times> 's) option" and free :: "u64 \<Rightarrow> 's \<Rightarrow> 's option"
  assumes alloc_frame: "inv s \<Longrightarrow> free_frames s \<noteq> {} \<Longrightarrow>
      \<exists>f s'. alloc s = Some (f, s') \<and> f \<in> free_frames s \<and> free_frames s' = free_frames s - {f} \<and>
        inv s' \<and> usable s' = usable s"
    and alloc_none: "inv s \<Longrightarrow> free_frames s = {} \<Longrightarrow>
      \<exists>s'. alloc s = Some (0, s') \<and> free_frames s' = {} \<and> inv s' \<and> usable s' = usable s"
    and free_usable: "inv s \<Longrightarrow> free_frames s \<subseteq> usable s"
    and usable_nonzero: "inv s \<Longrightarrow> 0 \<notin> usable s"
    and free_frame: "inv s \<Longrightarrow>
      \<exists>s'. free f s = Some s' \<and> inv s' \<and> usable s' = usable s \<and>
        free_frames s' \<in> {free_frames s, insert f (free_frames s)}"

datatype frame_op = AllocFrame | FreeFrame u64

text \<open>
  A client that keeps what it is given and frees only what it holds. \<open>None\<close> is a panic of the allocator.
\<close>

fun run_frames :: "('s \<Rightarrow> (u64 \<times> 's) option) \<Rightarrow> (u64 \<Rightarrow> 's \<Rightarrow> 's option) \<Rightarrow> frame_op list \<Rightarrow>
  u64 list \<Rightarrow> 's \<Rightarrow> (u64 list \<times> 's) option" where
  "run_frames alloc free [] held s = Some (held, s)"
| "run_frames alloc free (AllocFrame # ops) held s =
     Option.bind (alloc s) (\<lambda>(f, s'). run_frames alloc free ops (if f = 0 then held else f # held) s')"
| "run_frames alloc free (FreeFrame f # ops) held s =
     (if f \<in> set held
      then Option.bind (free f s) (run_frames alloc free ops (removeAll f held))
      else run_frames alloc free ops held s)"

context frame_allocator
begin

lemma run_frames_distinct:
  assumes "inv s" "distinct held" "set held \<inter> free_frames s = {}" "set held \<subseteq> usable s"
  shows "\<exists>held' s'. run_frames alloc free ops held s = Some (held', s') \<and> inv s' \<and> distinct held' \<and>
    set held' \<inter> free_frames s' = {} \<and> set held' \<subseteq> usable s \<and> usable s' = usable s"
  using assms
proof (induction ops arbitrary: held s)
  case (Cons op ops)
  show ?case
  proof (cases op)
    case AllocFrame
    show ?thesis
    proof (cases "free_frames s = {}")
      case True
      then obtain s' where "alloc s = Some (0, s')" "free_frames s' = {}" "inv s'" "usable s' = usable s"
        using alloc_none [OF Cons.prems(1)] by blast
      with Cons.IH [of s' held] Cons.prems show ?thesis by (simp add: AllocFrame)
    next
      case False
      then obtain f s' where f: "alloc s = Some (f, s')" "f \<in> free_frames s"
        "free_frames s' = free_frames s - {f}" "inv s'" "usable s' = usable s"
        using alloc_frame [OF Cons.prems(1)] by blast
      have fu: "f \<in> usable s" "f \<noteq> 0"
        using f(2) free_usable [OF Cons.prems(1)] usable_nonzero [OF Cons.prems(1)] by auto
      moreover have "distinct (f # held)" "set (f # held) \<inter> free_frames s' = {}" "set (f # held) \<subseteq> usable s'"
        using f Cons.prems fu by auto
      ultimately show ?thesis using Cons.IH [OF f(4), of "f # held"] f(1,5) by (simp add: AllocFrame)
    qed
  next
    case (FreeFrame f)
    show ?thesis
    proof (cases "f \<in> set held")
      case True
      obtain s' where s': "free f s = Some s'" "inv s'" "usable s' = usable s"
        "free_frames s' \<in> {free_frames s, insert f (free_frames s)}"
        using free_frame [OF Cons.prems(1)] by blast
      then have "set (removeAll f held) \<inter> free_frames s' = {}" "set (removeAll f held) \<subseteq> usable s'"
        using Cons.prems(3,4) by auto
      with Cons.IH [of s' "removeAll f held"] s' Cons.prems(2) True show ?thesis
        by (simp add: FreeFrame distinct_removeAll)
    next
      case False
      with Cons.IH [OF Cons.prems] show ?thesis by (simp add: FreeFrame)
    qed
  qed
qed simp

end

subsection \<open>The bitmaps implement the contract\<close>

definition free_set :: "'a pmm_scheme \<Rightarrow> nat set" where
  "free_set s = {n. n < unat (TOTAL_SPAN_PAGES s) \<and> \<not> bm_bit (USED_BITMAP s) n}"

definition frame_of :: "nat \<Rightarrow> u64" where
  "frame_of n = of_nat n * PMM_PAGE_SIZE"

definition pmm_free_frames :: "'a pmm_scheme \<Rightarrow> u64 set" where
  "pmm_free_frames s = frame_of ` free_set s"

definition pmm_usable :: "'a pmm_scheme \<Rightarrow> u64 set" where
  "pmm_usable s = frame_of ` {n. n < unat (TOTAL_SPAN_PAGES s) \<and> \<not> bm_bit (RESERVED_BITMAP s) n}"

definition pmm_wf :: "'a pmm_scheme \<Rightarrow> bool" where
  "pmm_wf s \<longleftrightarrow> length (RESERVED_BITMAP s) = length (USED_BITMAP s) \<and>
     unat (TOTAL_SPAN_PAGES s) \<le> 8 * length (USED_BITMAP s) \<and>
     0 < unat (TOTAL_SPAN_PAGES s) \<and> unat (TOTAL_SPAN_PAGES s) \<le> 2 ^ 52 \<and>
     bm_bit (RESERVED_BITMAP s) 0 \<and>
     (\<forall>n < unat (TOTAL_SPAN_PAGES s). bm_bit (RESERVED_BITMAP s) n \<longrightarrow> bm_bit (USED_BITMAP s) n) \<and>
     free_pages (STATS s) = of_nat (card (free_set s))"

lemma pmm_wfD:
  assumes "pmm_wf s"
  shows "length (RESERVED_BITMAP s) = length (USED_BITMAP s)"
    "unat (TOTAL_SPAN_PAGES s) \<le> 8 * length (USED_BITMAP s)"
    "unat (TOTAL_SPAN_PAGES s) \<le> 2 ^ 52" "0 < unat (TOTAL_SPAN_PAGES s)"
    "bm_bit (RESERVED_BITMAP s) 0"
    "n < unat (TOTAL_SPAN_PAGES s) \<Longrightarrow> bm_bit (RESERVED_BITMAP s) n \<Longrightarrow> bm_bit (USED_BITMAP s) n"
    "free_pages (STATS s) = of_nat (card (free_set s))"
  using assms by (auto simp: pmm_wf_def)

lemma finite_free_set [simp]: "finite (free_set s)"
  by (simp add: free_set_def)

lemma unat_frame_of: "n < 2 ^ 52 \<Longrightarrow> unat (frame_of n) = n * 4096"
  by (simp add: frame_of_def PMM_PAGE_SIZE_def unat_word_ariths unat_of_nat take_bit_nat_eq_self)

lemma frame_of_index:
  assumes "n < 2 ^ 52"
  shows "unat (frame_of n div PMM_PAGE_SIZE) = n" "frame_of n mod PMM_PAGE_SIZE = 0"
proof -
  show "unat (frame_of n div PMM_PAGE_SIZE) = n"
    using unat_frame_of [OF assms] by (simp add: unat_div PMM_PAGE_SIZE_def)
  have "unat (frame_of n mod PMM_PAGE_SIZE) = 0"
    using unat_frame_of [OF assms] by (simp add: unat_mod PMM_PAGE_SIZE_def)
  then show "frame_of n mod PMM_PAGE_SIZE = 0" by (simp add: unat_eq_zero)
qed

lemma frame_of_inj: "m < 2 ^ 52 \<Longrightarrow> n < 2 ^ 52 \<Longrightarrow> frame_of m = frame_of n \<longleftrightarrow> m = n"
  by (metis frame_of_index(1))

lemma free_set_bound:
  assumes "pmm_wf s" "n \<in> free_set s"
  shows "n < 2 ^ 52" "n \<noteq> 0" "n < 8 * length (USED_BITMAP s)"
proof -
  show "n < 2 ^ 52" "n < 8 * length (USED_BITMAP s)"
    using assms pmm_wfD(2,3) [OF assms(1)] by (auto simp: free_set_def)
  show "n \<noteq> 0"
    using assms pmm_wfD(4,5) [OF assms(1)] pmm_wfD(6) [OF assms(1), of 0]
    by (cases n) (auto simp: free_set_def)
qed

lemma scan_free_spec:
  assumes "unat span \<le> 8 * length used"
  shows "case scan_free used span i of
      None \<Rightarrow> False
    | Some None \<Rightarrow> \<forall>n. unat i \<le> n \<and> n < unat span \<longrightarrow> bm_bit used n
    | Some (Some j) \<Rightarrow> unat i \<le> unat j \<and> unat j < unat span \<and> \<not> bm_bit used (unat j) \<and>
        (\<forall>n. unat i \<le> n \<and> n < unat j \<longrightarrow> bm_bit used n)"
  using assms
proof (induction used span i rule: scan_free.induct)
  case (1 used span i)
  show ?case
  proof (cases "i < span")
    case True
    then have lt: "unat i < unat span" by (simp add: word_less_nat_alt)
    then have suc: "unat (i + 1) = Suc (unat i)"
      using unat_u64_less [of span] by (simp add: unat_word_ariths)
    have test: "bm_test used i = Some (bm_bit used (unat i))"
      using lt 1(2) by (simp add: bm_test_eq)
    show ?thesis
    proof (cases "bm_bit used (unat i)")
      case bit: True
      have step: "scan_free used span i = scan_free used span (i + 1)"
        using True test bit by (subst scan_free.simps) simp
      have ext: "unat i \<le> n \<longleftrightarrow> n = unat i \<or> unat (i + 1) \<le> n" for n
        unfolding suc by auto
      show ?thesis
        using 1(1) [OF True test] bit 1(2) unfolding step ext
        by (auto simp: suc split: option.splits)
    next
      case False
      then have "scan_free used span i = Some (Some i)"
        using True test by (subst scan_free.simps) simp
      with lt False show ?thesis by auto
    qed
  next
    case False
    then have "scan_free used span i = Some None" by (subst scan_free.simps) simp
    moreover have "unat span \<le> unat i" using False by (simp add: word_less_nat_alt)
    ultimately show ?thesis by auto
  qed
qed

lemma take_page_spec:
  assumes wf: "pmm_wf s" and i: "unat i \<in> free_set s"
  shows "\<exists>s'. take_page i s = Some (frame_of (unat i), s') \<and> pmm_wf s' \<and>
    free_set s' = free_set s - {unat i} \<and> RESERVED_BITMAP s' = RESERVED_BITMAP s \<and>
    PHYS s' = zero_page (frame_of (unat i)) (PHYS s) \<and> TOTAL_SPAN_PAGES s' = TOTAL_SPAN_PAGES s \<and>
    pmm.more s' = pmm.more s"
proof -
  have lt: "unat i < 8 * length (USED_BITMAP s)" using free_set_bound [OF wf i] by simp
  obtain ub where ub: "bm_set (USED_BITMAP s) i = Some ub" "length ub = length (USED_BITMAP s)"
    "\<And>n. n < 8 * length (USED_BITMAP s) \<Longrightarrow> bm_bit ub n \<longleftrightarrow> n = unat i \<or> bm_bit (USED_BITMAP s) n"
    using bm_set_eq [OF lt] by blast
  have bits: "bm_bit ub n \<longleftrightarrow> n = unat i \<or> bm_bit (USED_BITMAP s) n" if "n < unat (TOTAL_SPAN_PAGES s)" for n
    using ub(3) pmm_wfD(2) [OF wf] that by simp
  let ?s = "s\<lparr>USED_BITMAP := ub,
       STATS := (STATS s)\<lparr>free_pages := free_pages (STATS s) - 1, used_pages := used_pages (STATS s) + 1\<rparr>,
       LAST_SCANNED_PAGE := i, PHYS := zero_page (frame_of (unat i)) (PHYS s)\<rparr>"
  have fs: "free_set ?s = free_set s - {unat i}"
    using bits by (auto simp: free_set_def)
  have "card (free_set s) = Suc (card (free_set s - {unat i}))"
    using card.remove [OF finite_free_set i] by simp
  then have "free_pages (STATS s) - 1 = of_nat (card (free_set ?s))"
    unfolding fs using pmm_wfD(7) [OF wf] by simp
  then have "pmm_wf ?s"
    using wf ub(2) bits by (simp add: pmm_wf_def)
  moreover have "take_page i s = Some (frame_of (unat i), ?s)"
    by (simp add: take_page_def ub(1) frame_of_def Let_def)
  ultimately show ?thesis using fs by auto
qed

lemma alloc_page_spec:
  assumes wf: "pmm_wf s"
  shows "if free_set s = {} then \<exists>s'. alloc_page s = Some (0, s') \<and> pmm_wf s' \<and> free_set s' = {} \<and>
      RESERVED_BITMAP s' = RESERVED_BITMAP s \<and> TOTAL_SPAN_PAGES s' = TOTAL_SPAN_PAGES s
    else \<exists>n s'. n \<in> free_set s \<and> alloc_page s = Some (frame_of n, s') \<and> pmm_wf s' \<and>
      free_set s' = free_set s - {n} \<and> RESERVED_BITMAP s' = RESERVED_BITMAP s \<and>
      PHYS s' = zero_page (frame_of n) (PHYS s) \<and> TOTAL_SPAN_PAGES s' = TOTAL_SPAN_PAGES s \<and>
      pmm.more s' = pmm.more s"
proof -
  let ?scan = "scan_free (USED_BITMAP s) (TOTAL_SPAN_PAGES s)"
  note spec = scan_free_spec [OF pmm_wfD(2) [OF wf]]
  have some: "unat j \<in> free_set s" if "?scan i = Some (Some j)" for i j
    using spec [of i] that by (simp add: free_set_def)
  have none: "free_set s = {}" if "?scan 0 = Some None"
    using spec [of 0] that by (auto simp: free_set_def)
  have nopanic: "?scan i \<noteq> None" for i
    using spec [of i] by (cases "?scan i") auto
  have wf0: "pmm_wf (s\<lparr>LAST_SCANNED_PAGE := 0\<rparr>)" "free_set (s\<lparr>LAST_SCANNED_PAGE := 0\<rparr>) = free_set s"
    using wf by (auto simp: pmm_wf_def free_set_def)
  consider j where "?scan (LAST_SCANNED_PAGE s) = Some (Some j)"
    | "?scan (LAST_SCANNED_PAGE s) = Some None" "LAST_SCANNED_PAGE s = 0"
    | j where "?scan (LAST_SCANNED_PAGE s) = Some None" "LAST_SCANNED_PAGE s > 0" "?scan 0 = Some (Some j)"
    | "?scan (LAST_SCANNED_PAGE s) = Some None" "LAST_SCANNED_PAGE s > 0" "?scan 0 = Some None"
    using nopanic by (metis not_None_eq word_neq_0_conv)
  then show ?thesis
  proof cases
    case (1 j)
    then show ?thesis
      using take_page_spec [OF wf some [OF 1]] some [OF 1] by (auto simp: alloc_page_def)
  next
    case 2
    then show ?thesis using none wf by (simp add: alloc_page_def)
  next
    case (3 j)
    then show ?thesis
      using take_page_spec [OF wf0(1), of j] some [OF 3(3)] wf0(2) by (auto simp: alloc_page_def)
  next
    case 4
    then show ?thesis using none wf0 by (auto simp: alloc_page_def)
  qed
qed

lemma free_page_spec:
  assumes wf: "pmm_wf s"
  shows "\<exists>s'. free_page addr s = Some s' \<and> pmm_wf s' \<and> RESERVED_BITMAP s' = RESERVED_BITMAP s \<and>
    PHYS s' = PHYS s \<and> TOTAL_SPAN_PAGES s' = TOTAL_SPAN_PAGES s \<and>
    (if \<exists>n. addr = frame_of n \<and> n < unat (TOTAL_SPAN_PAGES s) \<and>
          \<not> bm_bit (RESERVED_BITMAP s) n \<and> bm_bit (USED_BITMAP s) n
     then free_set s' = insert (unat (addr div PMM_PAGE_SIZE)) (free_set s) else s' = s)"
proof -
  let ?i = "addr div PMM_PAGE_SIZE" and ?n = "unat (addr div PMM_PAGE_SIZE)"
  note [simp] = PMM_PAGE_SIZE_def
  have aligned: "addr = frame_of n \<and> n < unat (TOTAL_SPAN_PAGES s) \<longleftrightarrow>
      addr mod 4096 = 0 \<and> n = ?n \<and> ?n < unat (TOTAL_SPAN_PAGES s)" for n
  proof
    assume "addr = frame_of n \<and> n < unat (TOTAL_SPAN_PAGES s)"
    then show "addr mod 4096 = 0 \<and> n = ?n \<and> ?n < unat (TOTAL_SPAN_PAGES s)"
      using pmm_wfD(3) [OF wf] frame_of_index [of n] by auto
  next
    assume r: "addr mod 4096 = 0 \<and> n = ?n \<and> ?n < unat (TOTAL_SPAN_PAGES s)"
    have "of_nat ?n * 4096 = (addr div 4096) * 4096" by simp
    also have "\<dots> = addr" using r div_mult_mod_eq [of addr 4096] by simp
    finally show "addr = frame_of n \<and> n < unat (TOTAL_SPAN_PAGES s)"
      using r by (simp add: frame_of_def)
  qed
  have zero: "bm_bit (RESERVED_BITMAP s) ?n" if "addr = 0"
    using pmm_wfD(5) [OF wf] that by simp
  let ?ok = "addr mod 4096 = 0 \<and> ?n < unat (TOTAL_SPAN_PAGES s) \<and>
    \<not> bm_bit (RESERVED_BITMAP s) ?n \<and> bm_bit (USED_BITMAP s) ?n"
  have ok: "(\<exists>n. addr = frame_of n \<and> n < unat (TOTAL_SPAN_PAGES s) \<and>
          \<not> bm_bit (RESERVED_BITMAP s) n \<and> bm_bit (USED_BITMAP s) n) \<longleftrightarrow> ?ok"
    unfolding conj_assoc [symmetric] aligned by auto
  have tests: "bm_test (RESERVED_BITMAP s) ?i = Some (bm_bit (RESERVED_BITMAP s) ?n)"
    "bm_test (USED_BITMAP s) ?i = Some (bm_bit (USED_BITMAP s) ?n)" if "?n < unat (TOTAL_SPAN_PAGES s)"
    using that pmm_wfD(1,2) [OF wf] by (auto simp: bm_test_eq)
  show ?thesis
  proof (cases ?ok)
    case False
    have "free_page addr s = Some s"
      using False zero tests by (auto simp: free_page_def Let_def word_le_nat_alt)
    then show ?thesis
      unfolding ok if_not_P [OF False] using wf by simp
  next
    case True
    then have lt: "?n < 8 * length (USED_BITMAP s)" using pmm_wfD(2) [OF wf] by simp
    obtain ub where ub: "bm_clear (USED_BITMAP s) ?i = Some ub" "length ub = length (USED_BITMAP s)"
      "\<And>n. n < 8 * length (USED_BITMAP s) \<Longrightarrow> bm_bit ub n \<longleftrightarrow> n \<noteq> ?n \<and> bm_bit (USED_BITMAP s) n"
      using bm_clear_eq [OF lt] by blast
    have bits: "bm_bit ub n \<longleftrightarrow> n \<noteq> ?n \<and> bm_bit (USED_BITMAP s) n" if "n < unat (TOTAL_SPAN_PAGES s)" for n
      using ub(3) pmm_wfD(2) [OF wf] that by simp
    let ?s = "s\<lparr>USED_BITMAP := ub, STATS := (STATS s)\<lparr>free_pages := free_pages (STATS s) + 1,
        used_pages := used_pages (STATS s) - 1\<rparr>,
        LAST_SCANNED_PAGE := (if ?i < LAST_SCANNED_PAGE s then ?i else LAST_SCANNED_PAGE s)\<rparr>"
    have fs: "free_set ?s = insert ?n (free_set s)"
      using bits True by (auto simp: free_set_def)
    have "?n \<notin> free_set s" using True by (simp add: free_set_def)
    then have "free_pages (STATS s) + 1 = of_nat (card (free_set ?s))"
      unfolding fs using pmm_wfD(7) [OF wf] by simp
    then have wf': "pmm_wf ?s"
      using wf ub(2) bits True by (auto simp: pmm_wf_def)
    have "addr \<noteq> 0" using zero True by blast
    then have "free_page addr s = Some ?s"
      using True tests ub(1) by (simp add: free_page_def Let_def word_le_nat_alt)
    with wf' fs show ?thesis
      unfolding ok if_P [OF True] by (intro exI [of _ ?s]) simp
  qed
qed

interpretation pmm: frame_allocator "pmm_wf :: 'a pmm_scheme \<Rightarrow> bool" pmm_usable pmm_free_frames
  alloc_page free_page
proof unfold_locales
  fix s :: "'a pmm_scheme"
  assume wf: "pmm_wf s"
  show "pmm_free_frames s \<subseteq> pmm_usable s"
    using pmm_wfD(6) [OF wf] by (auto simp: pmm_free_frames_def pmm_usable_def free_set_def)
  show "0 \<notin> pmm_usable s"
  proof
    assume "0 \<in> pmm_usable s"
    then obtain n where n: "n < unat (TOTAL_SPAN_PAGES s)" "\<not> bm_bit (RESERVED_BITMAP s) n" "frame_of n = 0"
      by (auto simp: pmm_usable_def)
    then have "n = 0" using unat_frame_of [of n] pmm_wfD(3) [OF wf] by simp
    with n pmm_wfD(5) [OF wf] show False by simp
  qed
  show "\<exists>s'. alloc_page s = Some (0, s') \<and> pmm_free_frames s' = {} \<and> pmm_wf s' \<and> pmm_usable s' = pmm_usable s"
    if "pmm_free_frames s = {}"
    using alloc_page_spec [OF wf] that by (auto simp: pmm_free_frames_def pmm_usable_def)
  show "\<exists>f s'. alloc_page s = Some (f, s') \<and> f \<in> pmm_free_frames s \<and>
      pmm_free_frames s' = pmm_free_frames s - {f} \<and> pmm_wf s' \<and> pmm_usable s' = pmm_usable s"
    if "pmm_free_frames s \<noteq> {}"
  proof -
    have ne: "free_set s \<noteq> {}" using that by (auto simp: pmm_free_frames_def)
    obtain n s' where n: "n \<in> free_set s" "alloc_page s = Some (frame_of n, s')" "pmm_wf s'"
      "free_set s' = free_set s - {n}" "RESERVED_BITMAP s' = RESERVED_BITMAP s"
      "TOTAL_SPAN_PAGES s' = TOTAL_SPAN_PAGES s"
      using alloc_page_spec [OF wf] unfolding if_not_P [OF ne] by blast
    have "pmm_free_frames s' = pmm_free_frames s - {frame_of n}"
      using free_set_bound(1) [OF wf] n frame_of_inj by (auto simp: pmm_free_frames_def)
    with n show ?thesis by (auto simp: pmm_free_frames_def pmm_usable_def)
  qed
  show "\<exists>s'. free_page f s = Some s' \<and> pmm_wf s' \<and> pmm_usable s' = pmm_usable s \<and>
      pmm_free_frames s' \<in> {pmm_free_frames s, insert f (pmm_free_frames s)}" for f
  proof -
    obtain s' where s': "free_page f s = Some s'" "pmm_wf s'" "RESERVED_BITMAP s' = RESERVED_BITMAP s"
      "TOTAL_SPAN_PAGES s' = TOTAL_SPAN_PAGES s"
      "if \<exists>n. f = frame_of n \<and> n < unat (TOTAL_SPAN_PAGES s) \<and>
          \<not> bm_bit (RESERVED_BITMAP s) n \<and> bm_bit (USED_BITMAP s) n
       then free_set s' = insert (unat (f div PMM_PAGE_SIZE)) (free_set s) else s' = s"
      using free_page_spec [OF wf, of f] by blast
    have "f = frame_of n \<Longrightarrow> n < unat (TOTAL_SPAN_PAGES s) \<Longrightarrow> unat (f div PMM_PAGE_SIZE) = n" for n
      using frame_of_index(1) [of n] pmm_wfD(3) [OF wf] by simp
    with s' show ?thesis
      by (auto simp: pmm_free_frames_def pmm_usable_def split: if_splits)
  qed
qed

subsection \<open>Initialisation establishes the invariant\<close>

text \<open>The part of the invariant that holds throughout initialisation.\<close>

definition pmm_core :: "'a pmm_scheme \<Rightarrow> bool" where
  "pmm_core s \<longleftrightarrow> length (RESERVED_BITMAP s) = length (USED_BITMAP s) \<and>
     unat (TOTAL_SPAN_PAGES s) \<le> 8 * length (USED_BITMAP s) \<and>
     (\<forall>n < unat (TOTAL_SPAN_PAGES s). bm_bit (RESERVED_BITMAP s) n \<longrightarrow> bm_bit (USED_BITMAP s) n) \<and>
     free_pages (STATS s) = of_nat (card (free_set s))"

lemma reserve_page_core:
  assumes core: "pmm_core s"
  shows "\<exists>s'. reserve_page idx s = Some s' \<and> pmm_core s' \<and> TOTAL_SPAN_PAGES s' = TOTAL_SPAN_PAGES s \<and>
    (\<forall>n < unat (TOTAL_SPAN_PAGES s). bm_bit (RESERVED_BITMAP s') n \<longleftrightarrow>
       n = unat idx \<or> bm_bit (RESERVED_BITMAP s) n)"
proof (cases "idx < TOTAL_SPAN_PAGES s \<and> \<not> bm_bit (RESERVED_BITMAP s) (unat idx)")
  case False
  show ?thesis
  proof (cases "idx < TOTAL_SPAN_PAGES s")
    case True
    then have "reserve_page idx s = Some s"
      using False core by (simp add: reserve_page_def bm_test_eq pmm_core_def word_less_nat_alt)
    with False True core show ?thesis by auto
  next
    case nlt: False
    then have "reserve_page idx s = Some s" by (simp add: reserve_page_def not_less)
    with nlt core show ?thesis by (auto simp: word_less_nat_alt)
  qed
next
  case True
  let ?n = "unat idx"
  have lt: "?n < unat (TOTAL_SPAN_PAGES s)" using True by (simp add: word_less_nat_alt)
  then have ltb: "?n < 8 * length (USED_BITMAP s)" "?n < 8 * length (RESERVED_BITMAP s)"
    using core by (auto simp: pmm_core_def)
  obtain rb where rb: "bm_set (RESERVED_BITMAP s) idx = Some rb" "length rb = length (RESERVED_BITMAP s)"
    "\<And>n. n < 8 * length (RESERVED_BITMAP s) \<Longrightarrow> bm_bit rb n \<longleftrightarrow> n = ?n \<or> bm_bit (RESERVED_BITMAP s) n"
    using bm_set_eq [OF ltb(2)] by blast
  obtain ub where ub: "bm_set (USED_BITMAP s) idx = Some ub" "length ub = length (USED_BITMAP s)"
    "\<And>n. n < 8 * length (USED_BITMAP s) \<Longrightarrow> bm_bit ub n \<longleftrightarrow> n = ?n \<or> bm_bit (USED_BITMAP s) n"
    using bm_set_eq [OF ltb(1)] by blast
  have span: "unat (TOTAL_SPAN_PAGES s) \<le> 8 * length (USED_BITMAP s)"
    "length (RESERVED_BITMAP s) = length (USED_BITMAP s)"
    using core by (auto simp: pmm_core_def)
  have bits: "bm_bit rb n \<longleftrightarrow> n = ?n \<or> bm_bit (RESERVED_BITMAP s) n"
    "bm_bit ub n \<longleftrightarrow> n = ?n \<or> bm_bit (USED_BITMAP s) n" if "n < unat (TOTAL_SPAN_PAGES s)" for n
    using rb(3) ub(3) span that by simp_all
  define s1 where "s1 = s\<lparr>RESERVED_BITMAP := rb\<rparr>"
  define s2 where "s2 = (if bm_bit (USED_BITMAP s) ?n then s1
     else s1\<lparr>USED_BITMAP := ub, STATS := (STATS s1)\<lparr>free_pages := free_pages (STATS s1) - 1\<rparr>\<rparr>)"
  define s3 where "s3 = s2\<lparr>STATS := (STATS s2)\<lparr>reserved_memory := reserved_memory (STATS s2) + PMM_PAGE_SIZE\<rparr>\<rparr>"
  have "\<not> TOTAL_SPAN_PAGES s \<le> idx" using True by (simp add: not_le)
  then have eq: "reserve_page idx s = Some s3"
    using True lt ltb rb(1) ub(1)
    by (simp add: reserve_page_def bm_test_eq s1_def s2_def s3_def)
  have fs: "free_set s3 = free_set s - {?n}"
    using bits lt by (auto simp: free_set_def s1_def s2_def s3_def)
  have count: "free_pages (STATS s3) = of_nat (card (free_set s3))"
  proof (cases "bm_bit (USED_BITMAP s) ?n")
    case True
    then have "free_set s3 = free_set s" unfolding fs by (auto simp: free_set_def)
    with True core show ?thesis by (simp add: pmm_core_def s1_def s2_def s3_def)
  next
    case False
    then have mem: "?n \<in> free_set s" using lt by (simp add: free_set_def)
    have "card (free_set s) = Suc (card (free_set s3))"
      unfolding fs using card.remove [OF finite_free_set mem] by simp
    moreover have "free_pages (STATS s3) = free_pages (STATS s) - 1"
      using False by (simp add: s1_def s2_def s3_def)
    moreover have "free_pages (STATS s) = of_nat (card (free_set s))"
      using core by (simp add: pmm_core_def)
    ultimately show ?thesis by simp
  qed
  have "pmm_core s3"
    unfolding pmm_core_def count
    using core rb(2) ub(2) bits span by (auto simp: pmm_core_def s1_def s2_def s3_def)
  moreover have "TOTAL_SPAN_PAGES s3 = TOTAL_SPAN_PAGES s" "RESERVED_BITMAP s3 = rb"
    by (simp_all add: s1_def s2_def s3_def)
  ultimately show ?thesis using eq bits(1) by auto
qed

lemma reserve_pages_core:
  "pmm_core s \<Longrightarrow> \<exists>s'. reserve_pages idx n s = Some s' \<and> pmm_core s' \<and> TOTAL_SPAN_PAGES s' = TOTAL_SPAN_PAGES s \<and>
    (\<forall>k < unat (TOTAL_SPAN_PAGES s). bm_bit (RESERVED_BITMAP s') k \<longleftrightarrow>
       (\<exists>i < n. k = unat (idx + of_nat i)) \<or> bm_bit (RESERVED_BITMAP s) k)"
proof (induction n arbitrary: idx s)
  case (Suc n)
  obtain s1 where s1: "reserve_page idx s = Some s1" "pmm_core s1" "TOTAL_SPAN_PAGES s1 = TOTAL_SPAN_PAGES s"
    "\<forall>k < unat (TOTAL_SPAN_PAGES s). bm_bit (RESERVED_BITMAP s1) k \<longleftrightarrow> k = unat idx \<or> bm_bit (RESERVED_BITMAP s) k"
    using reserve_page_core [OF Suc.prems] by blast
  obtain s' where s': "reserve_pages (idx + 1) n s1 = Some s'" "pmm_core s'" "TOTAL_SPAN_PAGES s' = TOTAL_SPAN_PAGES s1"
    "\<forall>k < unat (TOTAL_SPAN_PAGES s1). bm_bit (RESERVED_BITMAP s') k \<longleftrightarrow>
       (\<exists>i < n. k = unat (idx + 1 + of_nat i)) \<or> bm_bit (RESERVED_BITMAP s1) k"
    using Suc.IH [OF s1(2)] by blast
  have "(\<exists>i < Suc n. k = unat (idx + of_nat i)) \<longleftrightarrow> k = unat idx \<or> (\<exists>i < n. k = unat (idx + 1 + of_nat i))" for k
    by (simp add: Ex_less_Suc2 add.assoc)
  with s1 s' show ?case by auto
qed simp

lemma reserve_range_core:
  assumes "pmm_core s"
  shows "\<exists>s'. reserve_range start len s = Some s' \<and> pmm_core s' \<and> TOTAL_SPAN_PAGES s' = TOTAL_SPAN_PAGES s \<and>
    (\<forall>k < unat (TOTAL_SPAN_PAGES s). bm_bit (RESERVED_BITMAP s) k \<longrightarrow> bm_bit (RESERVED_BITMAP s') k)"
  using reserve_pages_core [OF assms] by (fastforce simp: reserve_range_def split_beta)

definition desc_pages :: "EfiMemoryDescriptor \<Rightarrow> nat set" where
  "desc_pages d = {unat (md_physical_start d) div 4096 ..<
     unat (md_physical_start d) div 4096 + unat (md_number_of_pages d)}"

text \<open>
  A sane memory map: real memory lies below \<open>2 ^ 63\<close> at page-aligned addresses, and conventional
  regions do not overlap.
\<close>

fun memory_map_ok :: "EfiMemoryDescriptor list \<Rightarrow> bool" where
  "memory_map_ok [] = True"
| "memory_map_ok (d # ds) \<longleftrightarrow>
     (is_real_memory (md_ty d) \<longrightarrow> md_physical_start d mod 4096 = 0 \<and>
        unat (md_physical_start d) + unat (md_number_of_pages d) * 4096 < 2 ^ 63) \<and>
     (md_ty d = EFI_CONVENTIONAL_MEMORY \<longrightarrow>
        (\<forall>e \<in> set ds. md_ty e = EFI_CONVENTIONAL_MEMORY \<longrightarrow> desc_pages d \<inter> desc_pages e = {})) \<and>
     memory_map_ok ds"

lemma clear_pages_core:
  "pmm_core s \<Longrightarrow> unat idx + n \<le> unat (TOTAL_SPAN_PAGES s) \<Longrightarrow>
    \<forall>k \<in> {unat idx ..< unat idx + n}. bm_bit (USED_BITMAP s) k \<and> \<not> bm_bit (RESERVED_BITMAP s) k \<Longrightarrow>
   \<exists>s'. clear_pages idx n s = Some s' \<and> pmm_core s' \<and> TOTAL_SPAN_PAGES s' = TOTAL_SPAN_PAGES s \<and>
     RESERVED_BITMAP s' = RESERVED_BITMAP s \<and> free_set s' = free_set s \<union> {unat idx ..< unat idx + n}"
proof (induction n arbitrary: idx s)
  case (Suc n)
  let ?n = "unat idx"
  have lt: "?n < unat (TOTAL_SPAN_PAGES s)" using Suc.prems(2) by simp
  then have ltb: "?n < 8 * length (USED_BITMAP s)" using Suc.prems(1) by (simp add: pmm_core_def)
  have span: "unat (TOTAL_SPAN_PAGES s) \<le> 8 * length (USED_BITMAP s)"
    using Suc.prems(1) by (simp add: pmm_core_def)
  obtain ub where ub: "bm_clear (USED_BITMAP s) idx = Some ub" "length ub = length (USED_BITMAP s)"
    "\<And>k. k < 8 * length (USED_BITMAP s) \<Longrightarrow> bm_bit ub k \<longleftrightarrow> k \<noteq> ?n \<and> bm_bit (USED_BITMAP s) k"
    using bm_clear_eq [OF ltb] by blast
  have bits: "bm_bit ub k \<longleftrightarrow> k \<noteq> ?n \<and> bm_bit (USED_BITMAP s) k" if "k < unat (TOTAL_SPAN_PAGES s)" for k
    using ub(3) span that by simp
  define s1 where "s1 = s\<lparr>USED_BITMAP := ub, STATS := (STATS s)\<lparr>free_pages := free_pages (STATS s) + 1\<rparr>\<rparr>"
  have fs: "free_set s1 = insert ?n (free_set s)"
    using bits lt by (auto simp: free_set_def s1_def)
  have set: "bm_bit (USED_BITMAP s) ?n" "\<not> bm_bit (RESERVED_BITMAP s) ?n"
    using Suc.prems(3) by auto
  have "?n \<notin> free_set s" using set by (simp add: free_set_def)
  then have count: "free_pages (STATS s1) = of_nat (card (free_set s1))"
    unfolding fs using Suc.prems(1) by (simp add: s1_def pmm_core_def)
  have s1: "pmm_core s1"
    unfolding pmm_core_def count using Suc.prems(1) ub(2) bits set by (auto simp: pmm_core_def s1_def)
  have suc: "unat (idx + 1) = Suc ?n"
    using lt unat_u64_less [of "TOTAL_SPAN_PAGES s"] by (simp add: unat_word_ariths)
  have "\<forall>k \<in> {unat (idx + 1) ..< unat (idx + 1) + n}. bm_bit (USED_BITMAP s1) k \<and> \<not> bm_bit (RESERVED_BITMAP s1) k"
    using Suc.prems(2,3) bits by (auto simp: suc s1_def)
  then obtain s' where "clear_pages (idx + 1) n s1 = Some s'" "pmm_core s'" "TOTAL_SPAN_PAGES s' = TOTAL_SPAN_PAGES s1"
    "RESERVED_BITMAP s' = RESERVED_BITMAP s1" "free_set s' = free_set s1 \<union> {unat (idx + 1) ..< unat (idx + 1) + n}"
    using Suc.IH [OF s1, of "idx + 1"] Suc.prems(2) by (auto simp: suc s1_def)
  moreover have "insert ?n (free_set s) \<union> {Suc ?n ..< Suc ?n + n} = free_set s \<union> {?n ..< ?n + Suc n}"
    by auto
  ultimately show ?case
    by (simp add: ub(1) s1_def [symmetric] fs suc) (simp add: s1_def)
qed simp

lemma free_conventional_core:
  assumes "pmm_core s" "memory_map_ok ds" "\<forall>k. \<not> bm_bit (RESERVED_BITMAP s) k \<or> k \<ge> unat (TOTAL_SPAN_PAGES s)"
    and "\<forall>d \<in> set ds. md_ty d = EFI_CONVENTIONAL_MEMORY \<longrightarrow>
      unat (md_physical_start d) div 4096 + unat (md_number_of_pages d) \<le> unat (TOTAL_SPAN_PAGES s) \<and>
      desc_pages d \<inter> free_set s = {}"
  shows "\<exists>s'. free_conventional ds s = Some s' \<and> pmm_core s' \<and> TOTAL_SPAN_PAGES s' = TOTAL_SPAN_PAGES s"
  using assms
proof (induction ds arbitrary: s)
  case (Cons d ds)
  show ?case
  proof (cases "md_ty d = EFI_CONVENTIONAL_MEMORY")
    case True
    let ?s = "s\<lparr>STATS := (STATS s)\<lparr>total_usable_memory :=
        total_usable_memory (STATS s) + md_number_of_pages d * PMM_PAGE_SIZE\<rparr>\<rparr>"
    let ?i = "md_physical_start d div PMM_PAGE_SIZE" and ?n = "unat (md_number_of_pages d)"
    have i: "unat ?i = unat (md_physical_start d) div 4096" by (simp add: unat_div PMM_PAGE_SIZE_def)
    have s0: "pmm_core ?s" "free_set ?s = free_set s"
      using Cons.prems(1) by (simp_all add: pmm_core_def free_set_def)
    have rng: "unat ?i + ?n \<le> unat (TOTAL_SPAN_PAGES s)" "desc_pages d \<inter> free_set s = {}"
      using Cons.prems(4) True by (auto simp: i)
    then have "\<forall>k \<in> {unat ?i ..< unat ?i + ?n}. bm_bit (USED_BITMAP ?s) k \<and> \<not> bm_bit (RESERVED_BITMAP ?s) k"
      using Cons.prems(3) by (fastforce simp: desc_pages_def free_set_def i)
    then obtain s' where s': "clear_pages ?i ?n ?s = Some s'" "pmm_core s'" "TOTAL_SPAN_PAGES s' = TOTAL_SPAN_PAGES s"
      "RESERVED_BITMAP s' = RESERVED_BITMAP s" "free_set s' = free_set s \<union> desc_pages d"
      using clear_pages_core [OF s0(1), of ?i ?n] rng(1) s0(2) by (auto simp: i desc_pages_def)
    have "\<forall>e \<in> set ds. md_ty e = EFI_CONVENTIONAL_MEMORY \<longrightarrow> desc_pages e \<inter> free_set s' = {}"
      using Cons.prems(2,4) True s'(5) by (simp add: Int_Un_distrib Int_commute)
    then obtain s'' where "free_conventional ds s' = Some s''" "pmm_core s''" "TOTAL_SPAN_PAGES s'' = TOTAL_SPAN_PAGES s'"
      using Cons.IH [OF s'(2)] Cons.prems s'(3,4) by auto
    with s' True show ?thesis by simp
  next
    case False
    then show ?thesis using Cons.IH [OF Cons.prems(1)] Cons.prems by simp
  qed
qed simp

lemma desc_end:
  assumes "unat (md_physical_start d) + unat (md_number_of_pages d) * 4096 < 2 ^ 63"
  shows "unat (md_physical_start d + md_number_of_pages d * PMM_PAGE_SIZE) =
    unat (md_physical_start d) + unat (md_number_of_pages d) * 4096"
proof -
  have "unat (md_number_of_pages d * PMM_PAGE_SIZE) = unat (md_number_of_pages d) * 4096"
    using assms by (simp add: PMM_PAGE_SIZE_def unat_word_ariths)
  with assms show ?thesis by (simp add: unat_word_ariths)
qed

lemma highest_address_bounds:
  assumes "memory_map_ok ds" "unat h < 2 ^ 63"
  shows "unat h \<le> unat (highest_address ds h) \<and> unat (highest_address ds h) < 2 ^ 63 \<and>
    (\<forall>d \<in> set ds. is_real_memory (md_ty d) \<longrightarrow>
       unat (md_physical_start d) + unat (md_number_of_pages d) * 4096 \<le> unat (highest_address ds h))"
  using assms
proof (induction ds arbitrary: h)
  case (Cons d ds)
  let ?last = "md_physical_start d + md_number_of_pages d * PMM_PAGE_SIZE"
  let ?h = "if is_real_memory (md_ty d) \<and> ?last > h then ?last else h"
  have step: "highest_address (d # ds) h = highest_address ds ?h" by (simp add: Let_def)
  have e: "unat ?last = unat (md_physical_start d) + unat (md_number_of_pages d) * 4096 \<and> unat ?last < 2 ^ 63"
    if "is_real_memory (md_ty d)"
    using desc_end [of d] Cons.prems(1) that by simp
  have h: "unat ?h < 2 ^ 63" "unat h \<le> unat ?h" "is_real_memory (md_ty d) \<longrightarrow> unat ?last \<le> unat ?h"
    using e Cons.prems(2) by (auto simp: word_less_nat_alt)
  have ok: "memory_map_ok ds" using Cons.prems(1) by simp
  note IH = Cons.IH [OF ok h(1)]
  have "unat (md_physical_start d) + unat (md_number_of_pages d) * 4096 \<le> unat (highest_address ds ?h)"
    if "is_real_memory (md_ty d)"
    using IH h(3) e that by linarith
  moreover have "unat h \<le> unat (highest_address ds ?h)"
    using IH h(2) by (meson le_trans)
  ultimately show ?case
    unfolding step using IH by (simp del: if_split)
qed simp

lemma bitmap_bytes_enough: "unat span \<le> 8 * unat (bitmap_bytes span)"
proof -
  have lt: "Suc (unat span div 8) < 2 ^ 64"
    using unat_u64_less [of span] by simp
  have d: "unat (span div 8) = unat span div 8" "span mod 8 = 0 \<longleftrightarrow> unat span mod 8 = 0"
    by (simp_all add: unat_div unat_mod flip: unat_eq_zero)
  have "unat (span div 8 + 1) = Suc (unat span div 8)"
    using lt by (subst unat_word_ariths) (simp add: d(1) del: unat_div)
  then have "unat (bitmap_bytes span) = unat span div 8 + (if unat span mod 8 \<noteq> 0 then 1 else 0)"
    by (simp add: bitmap_bytes_def d)
  then show ?thesis
    using div_mult_mod_eq [of "unat span" 8] mod_less_divisor [of 8 "unat span"] by auto
qed

lemma conventional_is_real: "md_ty d = EFI_CONVENTIONAL_MEMORY \<Longrightarrow> is_real_memory (md_ty d)"
  by (simp add: is_real_memory_def EFI_CONVENTIONAL_MEMORY_def)

lemma memory_map_okD:
  "memory_map_ok ds \<Longrightarrow> d \<in> set ds \<Longrightarrow> is_real_memory (md_ty d) \<Longrightarrow>
     md_physical_start d mod 4096 = 0 \<and> unat (md_physical_start d) + unat (md_number_of_pages d) * 4096 < 2 ^ 63"
  by (induction ds) auto

lemma aligned_unat:
  assumes "(w :: u64) mod 4096 = 0"
  shows "unat w mod 4096 = 0"
proof -
  have "unat (w mod 4096) = unat w mod 4096" by (simp add: unat_mod)
  with assms show ?thesis by simp
qed

lemma ff_bits:
  assumes "k < 8"
  shows "bit (0xFF :: u8) k"
proof -
  have ff: "(0xFF :: u8) = mask 8" by (simp add: mask_eq_exp_minus_1)
  show ?thesis using assms unfolding ff bit_mask_iff by simp
qed

lemma pmm_init_wf:
  assumes ok: "memory_map_ok ds"
    and region: "find_bitmap_region ds (bitmap_bytes (highest_address ds 0 div PMM_PAGE_SIZE) * 2) = Some region"
  shows "\<exists>s. pmm_init ds b mem = Some s \<and> pmm_wf s \<and> TOTAL_SPAN_PAGES s = highest_address ds 0 div PMM_PAGE_SIZE"
proof -
  let ?h = "highest_address ds 0" and ?span = "highest_address ds 0 div PMM_PAGE_SIZE"
  let ?bytes = "unat (bitmap_bytes ?span)"
  note hi = highest_address_bounds [OF ok, of 0, simplified]
  have span: "unat ?span = unat ?h div 4096" by (simp add: unat_div PMM_PAGE_SIZE_def)
  define s0 where "s0 = \<lparr>USED_BITMAP = replicate ?bytes 0xFF, RESERVED_BITMAP = replicate ?bytes 0,
      TOTAL_SPAN_PAGES = ?span, LAST_SCANNED_PAGE = 0,
      STATS = \<lparr>total_physical_span = ?h, total_usable_memory = 0, reserved_memory = 0, free_pages = 0, used_pages = 0\<rparr>,
      PHYS = mem\<rparr>"
  have bits: "bm_bit (USED_BITMAP s0) k" "\<not> bm_bit (RESERVED_BITMAP s0) k" if "k < unat ?span" for k
    using that bitmap_bytes_enough [of ?span] ff_bits [of "k mod 8"] by (simp_all add: s0_def bm_bit_def)
  have free0: "free_set s0 = {}"
    using bits by (auto simp: free_set_def s0_def)
  have core0: "pmm_core s0"
    unfolding pmm_core_def free0 using bits bitmap_bytes_enough [of ?span] by (auto simp: s0_def)
  have conv: "\<forall>d \<in> set ds. md_ty d = EFI_CONVENTIONAL_MEMORY \<longrightarrow>
      unat (md_physical_start d) div 4096 + unat (md_number_of_pages d) \<le> unat ?span"
  proof (intro ballI impI)
    fix d assume d: "d \<in> set ds" "md_ty d = EFI_CONVENTIONAL_MEMORY"
    then have "unat (md_physical_start d) + unat (md_number_of_pages d) * 4096 \<le> unat ?h"
      using hi conventional_is_real by blast
    from div_le_mono [OF this, of 4096] show "unat (md_physical_start d) div 4096 + unat (md_number_of_pages d) \<le> unat ?span"
      by (simp add: span)
  qed
  obtain s1 where s1: "free_conventional ds s0 = Some s1" "pmm_core s1" "TOTAL_SPAN_PAGES s1 = ?span"
  proof -
    have span0: "TOTAL_SPAN_PAGES s0 = ?span" by (simp add: s0_def)
    have "\<forall>k. \<not> bm_bit (RESERVED_BITMAP s0) k \<or> k \<ge> unat (TOTAL_SPAN_PAGES s0)"
      using bits(2) unfolding span0 by (meson not_less)
    then show thesis
      using free_conventional_core [OF core0 ok] conv free0 that unfolding span0 by auto
  qed
  have pos: "0 < unat ?span"
  proof -
    have r: "region \<in> set ds" "md_ty region = EFI_CONVENTIONAL_MEMORY" "md_physical_start region > 0"
      using region by (auto simp: find_bitmap_region_def find_Some_iff)
    then have "unat (md_physical_start region) mod 4096 = 0" "0 < unat (md_physical_start region)"
      using memory_map_okD [OF ok] conventional_is_real aligned_unat by (auto simp: word_less_nat_alt)
    then have "4096 \<le> unat (md_physical_start region)" by (intro dvd_imp_le) auto
    moreover have "unat (md_physical_start region) \<le> unat ?h"
      using hi r conventional_is_real by (meson add_leD1)
    ultimately show ?thesis by (simp add: span)
  qed
  obtain s2 where s2: "reserve_range 0 PMM_PAGE_SIZE s1 = Some s2" "pmm_core s2" "TOTAL_SPAN_PAGES s2 = ?span"
      "bm_bit (RESERVED_BITMAP s2) 0"
    using reserve_pages_core [OF s1(2), of 0 1] s1(3) pos
    by (auto simp: reserve_range_def reserve_range_pages_def PMM_PAGE_SIZE_def)
  have keep: "\<exists>s'. reserve_range a l s = Some s' \<and> pmm_core s' \<and> TOTAL_SPAN_PAGES s' = ?span \<and> bm_bit (RESERVED_BITMAP s') 0"
    if "pmm_core s" "TOTAL_SPAN_PAGES s = ?span" "bm_bit (RESERVED_BITMAP s) 0" for a l and s :: pmm
    using reserve_range_core [OF that(1), of a l] that(2,3) pos by auto
  obtain s3 where s3: "reserve_range (md_physical_start region) (bitmap_bytes ?span * 2) s2 = Some s3"
    "pmm_core s3" "TOTAL_SPAN_PAGES s3 = ?span" "bm_bit (RESERVED_BITMAP s3) 0" using keep [OF s2(2-4)] by blast
  obtain s4 where s4: "reserve_range (kernel_physical_start b) (kernel_physical_end b - kernel_physical_start b) s3 = Some s4"
    "pmm_core s4" "TOTAL_SPAN_PAGES s4 = ?span" "bm_bit (RESERVED_BITMAP s4) 0" using keep [OF s3(2-4)] by blast
  obtain s5 where s5: "reserve_range (boot_info_addr b) BOOT_INFO_SIZE s4 = Some s5"
    "pmm_core s5" "TOTAL_SPAN_PAGES s5 = ?span" "bm_bit (RESERVED_BITMAP s5) 0" using keep [OF s4(2-4)] by blast
  obtain s6 where s6: "reserve_range (memory_map_addr b) (memory_map_size b) s5 = Some s6"
    "pmm_core s6" "TOTAL_SPAN_PAGES s6 = ?span" "bm_bit (RESERVED_BITMAP s6) 0" using keep [OF s5(2-4)] by blast
  have "pmm_init ds b mem = Some s6"
    unfolding pmm_init_def Let_def region using s1(1) s2(1) s3(1) s4(1) s5(1) s6(1)
    by (simp add: s0_def [symmetric])
  moreover have "unat ?h < 2 ^ 63" using hi by simp
  then have "unat ?span \<le> 2 ^ 52" by (simp add: span)
  ultimately show ?thesis
    using s6 pos by (auto simp: pmm_wf_def pmm_core_def)
qed

text \<open>
  C11. Start-up establishes the allocator's invariant: for a sane memory map that has a region
  for the bitmaps, initialisation does not panic, every reserved page is also marked used, page zero is
  reserved, and the free-page counter is the number of clear bits.
\<close>

theorem pmm_init_establishes_invariant:
  assumes ok: "memory_map_ok ds"
    and region: "find_bitmap_region ds (bitmap_bytes (highest_address ds 0 div PMM_PAGE_SIZE) * 2) = Some region"
  shows "\<exists>s. pmm_init ds b mem = Some s \<and> pmm_wf s \<and> TOTAL_SPAN_PAGES s = highest_address ds 0 div PMM_PAGE_SIZE"
  by (rule pmm_init_wf [OF ok region])

definition demo_map :: "EfiMemoryDescriptor list" where
  "demo_map = [\<lparr>md_ty = 7, md_physical_start = 0, md_number_of_pages = 4\<rparr>,
               \<lparr>md_ty = 0, md_physical_start = 0xfd00000000, md_number_of_pages = 1000\<rparr>,
               \<lparr>md_ty = 7, md_physical_start = 0x10000, md_number_of_pages = 8\<rparr>]"

definition demo_ranges :: BootRanges where
  "demo_ranges = \<lparr>kernel_physical_start = 0x12000, kernel_physical_end = 0x13000, boot_info_addr = 0x1000,
     memory_map_addr = 0x1100, memory_map_size = 120\<rparr>"

lemma demo_map_ok:
  "memory_map_ok demo_map" "highest_address demo_map 0 div PMM_PAGE_SIZE = 24"
  "find_bitmap_region demo_map (bitmap_bytes (highest_address demo_map 0 div PMM_PAGE_SIZE) * 2) = Some (demo_map ! 2)"
  by (simp_all add: demo_map_def is_real_memory_def EFI_CONVENTIONAL_MEMORY_def PMM_PAGE_SIZE_def
      desc_pages_def find_bitmap_region_def bitmap_bytes_def)

theorem pmm_init_establishes_invariant_witness:
  "\<exists>s. pmm_init demo_map demo_ranges (\<lambda>_. 0) = Some s \<and> pmm_wf s \<and> TOTAL_SPAN_PAGES s = 24"
  using pmm_init_establishes_invariant [OF demo_map_ok(1,3), of demo_ranges "\<lambda>_. 0"]
  by (simp add: demo_map_ok(2))

text \<open>
  C8. No physical page is handed out twice. Whatever sequence of allocations and of frees of held
  pages runs on a well-formed allocator, it never panics, and the pages held at the end are distinct,
  nonzero, page-aligned, inside the managed span, not reserved and not free.
\<close>

theorem pages_never_handed_out_twice:
  assumes "pmm_wf s"
  shows "\<exists>held s'. run_frames alloc_page free_page ops [] s = Some (held, s') \<and> pmm_wf s' \<and> distinct held \<and>
    (\<forall>f \<in> set held. f \<noteq> 0 \<and> f \<notin> pmm_free_frames s' \<and>
       (\<exists>n < unat (TOTAL_SPAN_PAGES s). f = frame_of n \<and> \<not> bm_bit (RESERVED_BITMAP s) n))"
proof -
  obtain held s' where r: "run_frames alloc_page free_page ops [] s = Some (held, s')" "pmm_wf s'"
    "distinct held" "set held \<inter> pmm_free_frames s' = {}" "set held \<subseteq> pmm_usable s"
    using pmm.run_frames_distinct [OF assms, of "[]" ops] by auto
  then have "\<forall>f \<in> set held. f \<noteq> 0" using pmm.usable_nonzero [OF assms] by blast
  with r show ?thesis by (fastforce simp: pmm_usable_def)
qed

definition demo_pmm :: pmm where
  "demo_pmm = the (pmm_init demo_map demo_ranges (\<lambda>_. 0))"

lemma demo_pmm_wf: "pmm_wf demo_pmm"
  using pmm_init_wf [OF demo_map_ok(1,3), of demo_ranges "\<lambda>_. 0"] by (auto simp: demo_pmm_def)

theorem pages_never_handed_out_twice_witness:
  "\<exists>held s'. run_frames alloc_page free_page [AllocFrame, AllocFrame, FreeFrame 0x2000, AllocFrame] [] demo_pmm =
     Some (held, s') \<and> distinct held"
  using pages_never_handed_out_twice [OF demo_pmm_wf] by blast

text \<open>
  Allocation is complete: it returns the out-of-memory value 0 only when every page of the
  span is in use; otherwise it returns the address of a page that was free, clears its
  contents, changes no other memory and takes exactly that page. Freeing gives back exactly the
  named page when it is a used, unreserved page of the span, and otherwise changes nothing.
\<close>

lemma alloc_and_free_exact:
  assumes "pmm_wf s"
  shows "(\<exists>a s'. alloc_page s = Some (a, s') \<and> pmm_wf s' \<and>
      (if free_set s = {} then a = 0 \<and> free_set s' = {}
       else \<exists>n \<in> free_set s. a = frame_of n \<and> free_set s' = free_set s - {n} \<and>
              PHYS s' = (\<lambda>x. if x - a < 4096 then 0 else PHYS s x))) \<and>
    (\<forall>n < unat (TOTAL_SPAN_PAGES s). \<exists>s'. free_page (frame_of n) s = Some s' \<and> pmm_wf s' \<and>
      (if bm_bit (USED_BITMAP s) n \<and> \<not> bm_bit (RESERVED_BITMAP s) n
       then free_set s' = insert n (free_set s) else s' = s))"
proof (intro conjI allI impI)
  show "\<exists>a s'. alloc_page s = Some (a, s') \<and> pmm_wf s' \<and>
      (if free_set s = {} then a = 0 \<and> free_set s' = {}
       else \<exists>n \<in> free_set s. a = frame_of n \<and> free_set s' = free_set s - {n} \<and>
              PHYS s' = (\<lambda>x. if x - a < 4096 then 0 else PHYS s x))"
    using alloc_page_spec [OF assms]
    by (cases "free_set s = {}") (auto simp: zero_page_def PMM_PAGE_SIZE_def)
next
  fix n assume n: "n < unat (TOTAL_SPAN_PAGES s)"
  then have n52: "n < 2 ^ 52" using pmm_wfD(3) [OF assms] by simp
  have same: "frame_of m = frame_of n \<and> m < unat (TOTAL_SPAN_PAGES s) \<longleftrightarrow> m = n" for m
    using frame_of_inj [of m n] n n52 pmm_wfD(3) [OF assms] by auto
  obtain s' where "free_page (frame_of n) s = Some s'" "pmm_wf s'"
    "if \<exists>m. frame_of n = frame_of m \<and> m < unat (TOTAL_SPAN_PAGES s) \<and>
          \<not> bm_bit (RESERVED_BITMAP s) m \<and> bm_bit (USED_BITMAP s) m
     then free_set s' = insert (unat (frame_of n div PMM_PAGE_SIZE)) (free_set s) else s' = s"
    using free_page_spec [OF assms, of "frame_of n"] by blast
  moreover have "(\<exists>m. frame_of n = frame_of m \<and> m < unat (TOTAL_SPAN_PAGES s) \<and>
          \<not> bm_bit (RESERVED_BITMAP s) m \<and> bm_bit (USED_BITMAP s) m) \<longleftrightarrow>
      bm_bit (USED_BITMAP s) n \<and> \<not> bm_bit (RESERVED_BITMAP s) n"
    using same by metis
  ultimately show "\<exists>s'. free_page (frame_of n) s = Some s' \<and> pmm_wf s' \<and>
      (if bm_bit (USED_BITMAP s) n \<and> \<not> bm_bit (RESERVED_BITMAP s) n
       then free_set s' = insert n (free_set s) else s' = s)"
    using frame_of_index(1) [OF n52] by auto
qed

end
