(* ===== verification/Vmm.thy ===== *)
theory Vmm
  imports Pmm
begin

text \<open>
  \<^verbatim>\<open>kernel_rs/src/vmm.rs\<close> and \<^verbatim>\<open>kernel_common/src/pagetable.rs\<close>: the four-level page tables in
  physical memory. A table is the address of its frame, an entry a 64-bit word of it; the direct map makes every
  frame readable and writable at its physical address. New tables come from the page allocator.
  \<open>None\<close> is the panic on exhaustion. The abstraction of a set of tables is the leaf entry at each
  path of four indices.
\<close>

subsection \<open>Entries and indices\<close>

definition PAGE_PRESENT :: u64 where "PAGE_PRESENT = push_bit 0 1"
definition PAGE_WRITABLE :: u64 where "PAGE_WRITABLE = push_bit 1 1"
definition PAGE_USER :: u64 where "PAGE_USER = push_bit 2 1"
definition PAGE_CACHE_DISABLE :: u64 where "PAGE_CACHE_DISABLE = push_bit 4 1"
definition PAGE_PAT :: u64 where "PAGE_PAT = push_bit 7 1"
definition PAGE_GLOBAL :: u64 where "PAGE_GLOBAL = push_bit 8 1"
definition PAGE_NO_EXECUTE :: u64 where "PAGE_NO_EXECUTE = push_bit 63 1"
definition ADDR_MASK :: u64 where "ADDR_MASK = 0x000FFFFFFFFFF000"

definition MMIO_VIRTUAL_BASE :: u64 where "MMIO_VIRTUAL_BASE = 0xFFFFFE0000000000"

definition split_indices :: "u64 \<Rightarrow> nat \<times> nat \<times> nat \<times> nat" where
  "split_indices vaddr =
     (unat (drop_bit 39 vaddr AND 0x1ff), unat (drop_bit 30 vaddr AND 0x1ff),
      unat (drop_bit 21 vaddr AND 0x1ff), unat (drop_bit 12 vaddr AND 0x1ff))"

definition frame_from_entry :: "u64 \<Rightarrow> u64" where
  "frame_from_entry entry = entry AND ADDR_MASK"

record vmm = pmm +
  KERNEL_PML4_PHYS :: u64
  LAST_MMIO_PAGE_PADDR :: u64
  LAST_FB_PAGE_PADDR :: u64
  CR3 :: u64

definition entry_addr :: "u64 \<Rightarrow> nat \<Rightarrow> u64" where
  "entry_addr table i = table + 8 * of_nat i"

definition get_entry :: "u64 \<Rightarrow> nat \<Rightarrow> 'a pmm_scheme \<Rightarrow> u64" where
  "get_entry table i s = PHYS s (entry_addr table i)"

definition set_entry :: "u64 \<Rightarrow> nat \<Rightarrow> u64 \<Rightarrow> 'a pmm_scheme \<Rightarrow> 'a pmm_scheme" where
  "set_entry table i v s = s\<lparr>PHYS := (PHYS s)(entry_addr table i := v)\<rparr>"

definition is_present :: "u64 \<Rightarrow> bool" where
  "is_present e \<longleftrightarrow> e AND PAGE_PRESENT \<noteq> 0"

subsection \<open>The operations\<close>

definition zeroed_table :: "'a pmm_scheme \<Rightarrow> (u64 \<times> 'a pmm_scheme) option" where
  "zeroed_table s = do {
     (page, s') \<leftarrow> alloc_page s;
     if page = 0 then None else Some (page, s')
   }"

definition debug_translate :: "u64 \<Rightarrow> u64 \<Rightarrow> 'a pmm_scheme \<Rightarrow> u64" where
  "debug_translate pml4_phys vaddr s =
     (let (i4, i3, i2, i1) = split_indices vaddr
      in if \<not> is_present (get_entry pml4_phys i4 s) then 0
         else (let pdpt = get_entry pml4_phys i4 s AND ADDR_MASK
               in if \<not> is_present (get_entry pdpt i3 s) then 0
                  else (let pd = get_entry pdpt i3 s AND ADDR_MASK
                        in if \<not> is_present (get_entry pd i2 s) then 0
                           else (let pt = get_entry pd i2 s AND ADDR_MASK in get_entry pt i1 s))))"

text \<open>One level of \<open>map_page\<close>: the table below an entry, allocated when there is none.\<close>

definition ensure_table :: "u64 \<Rightarrow> nat \<Rightarrow> 'a pmm_scheme \<Rightarrow> (u64 \<times> 'a pmm_scheme) option" where
  "ensure_table table i s = do {
     s' \<leftarrow> (if \<not> is_present (get_entry table i s)
            then do {
              (new, s1) \<leftarrow> zeroed_table s;
              Some (set_entry table i (new OR (PAGE_PRESENT OR PAGE_WRITABLE OR PAGE_USER)) s1)
            }
            else Some s);
     Some (get_entry table i s' AND ADDR_MASK, s')
   }"

definition map_page :: "u64 \<Rightarrow> u64 \<Rightarrow> u64 \<Rightarrow> u64 \<Rightarrow> 'a pmm_scheme \<Rightarrow> 'a pmm_scheme option" where
  "map_page pml4_phys vaddr paddr flags s =
     (let (i4, i3, i2, i1) = split_indices vaddr
      in do {
        (pdpt_phys, s) \<leftarrow> ensure_table pml4_phys i4 s;
        (pd_phys, s) \<leftarrow> ensure_table pdpt_phys i3 s;
        (pt_phys, s) \<leftarrow> ensure_table pd_phys i2 s;
        Some (set_entry pt_phys i1 ((paddr AND ADDR_MASK) OR flags OR PAGE_PRESENT) s)
      })"

definition map_page_in :: "u64 \<Rightarrow> u64 \<Rightarrow> u64 \<Rightarrow> u64 \<Rightarrow> 'a pmm_scheme \<Rightarrow> 'a pmm_scheme option" where
  "map_page_in pml4_phys vaddr paddr flags s = map_page pml4_phys vaddr paddr flags s"

definition virt_to_phys :: "u64 \<Rightarrow> u64 \<Rightarrow> 'a pmm_scheme \<Rightarrow> u64 option" where
  "virt_to_phys pml4_phys vaddr s =
     (let (i4, i3, i2, i1) = split_indices vaddr
      in if \<not> is_present (get_entry pml4_phys i4 s) then None
         else (let pdpt = get_entry pml4_phys i4 s AND ADDR_MASK
               in if \<not> is_present (get_entry pdpt i3 s) then None
                  else (let pd = get_entry pdpt i3 s AND ADDR_MASK
                        in if \<not> is_present (get_entry pd i2 s) then None
                           else (let pt = get_entry pd i2 s AND ADDR_MASK; pte = get_entry pt i1 s
                                 in if \<not> is_present pte then None
                                    else Some ((pte AND ADDR_MASK) OR (vaddr AND 0xFFF))))))"

definition unmap_page :: "u64 \<Rightarrow> u64 \<Rightarrow> 'a pmm_scheme \<Rightarrow> 'a pmm_scheme" where
  "unmap_page pml4_phys vaddr s =
     (let (i4, i3, i2, i1) = split_indices vaddr
      in if \<not> is_present (get_entry pml4_phys i4 s) then s
         else (let pdpt = get_entry pml4_phys i4 s AND ADDR_MASK
               in if \<not> is_present (get_entry pdpt i3 s) then s
                  else (let pd = get_entry pdpt i3 s AND ADDR_MASK
                        in if \<not> is_present (get_entry pd i2 s) then s
                           else (let pt = get_entry pd i2 s AND ADDR_MASK in set_entry pt i1 0 s))))"

definition new_address_space :: "'a vmm_scheme \<Rightarrow> (u64 \<times> 'a vmm_scheme) option" where
  "new_address_space s = do {
     (new_pml4, s) \<leftarrow> alloc_page s;
     Some (new_pml4, fold (\<lambda>i s. set_entry new_pml4 i (get_entry (KERNEL_PML4_PHYS s) i s) s) [256..<512] s)
   }"

definition map_heap_page :: "u64 \<Rightarrow> u64 \<Rightarrow> 'a vmm_scheme \<Rightarrow> 'a vmm_scheme option" where
  "map_heap_page vaddr paddr s =
     map_page (KERNEL_PML4_PHYS s) vaddr paddr (PAGE_WRITABLE OR PAGE_NO_EXECUTE OR PAGE_GLOBAL) s"

definition map_mmio_page :: "u64 \<Rightarrow> 'a vmm_scheme \<Rightarrow> (u64 \<times> 'a vmm_scheme) option" where
  "map_mmio_page paddr s =
     (let page_paddr = paddr AND NOT 0xFFF; vaddr = MMIO_VIRTUAL_BASE + page_paddr
      in do {
        s' \<leftarrow> (if LAST_MMIO_PAGE_PADDR s \<noteq> page_paddr
               then map_option (\<lambda>s1. s1\<lparr>LAST_MMIO_PAGE_PADDR := page_paddr\<rparr>)
                 (map_page (KERNEL_PML4_PHYS s) vaddr page_paddr
                   (PAGE_WRITABLE OR PAGE_NO_EXECUTE OR PAGE_CACHE_DISABLE OR PAGE_GLOBAL) s)
               else Some s);
        Some (vaddr + (paddr AND 0xFFF), s')
      })"

definition map_framebuffer_page :: "u64 \<Rightarrow> 'a vmm_scheme \<Rightarrow> (u64 \<times> 'a vmm_scheme) option" where
  "map_framebuffer_page paddr s =
     (let page_paddr = paddr AND NOT 0xFFF; vaddr = MMIO_VIRTUAL_BASE + page_paddr
      in do {
        s' \<leftarrow> (if LAST_FB_PAGE_PADDR s \<noteq> page_paddr
               then map_option (\<lambda>s1. s1\<lparr>LAST_FB_PAGE_PADDR := page_paddr\<rparr>)
                 (map_page (KERNEL_PML4_PHYS s) vaddr page_paddr
                   (PAGE_WRITABLE OR PAGE_NO_EXECUTE OR PAGE_PAT OR PAGE_GLOBAL) s)
               else Some s);
        Some (vaddr + (paddr AND 0xFFF), s')
      })"

definition map_framebuffer_range :: "u64 \<Rightarrow> u64 \<Rightarrow> 'a vmm_scheme \<Rightarrow> 'a vmm_scheme option" where
  "map_framebuffer_range paddr len s =
     (let start_page = paddr AND NOT 0xFFF; end_page = (paddr + len + 0xFFF) AND NOT 0xFFF
      in map_option (\<lambda>s. s\<lparr>LAST_FB_PAGE_PADDR := start_page\<rparr>)
           (fold_opt (\<lambda>n. map_page (KERNEL_PML4_PHYS s) (MMIO_VIRTUAL_BASE + frame_of n) (frame_of n)
               (PAGE_WRITABLE OR PAGE_NO_EXECUTE OR PAGE_PAT OR PAGE_GLOBAL))
             [unat start_page div 4096 ..< unat end_page div 4096] s))"

text \<open>
  The kernel's own tables: each segment of the image with its permissions, the direct map of all of physical
  memory, and three regions of 2 MB around the stack of the boot loader, mapped to themselves.
\<close>

record KernelSegment =
  seg_vaddr :: u64
  seg_paddr :: u64
  seg_len :: u64
  seg_writable :: bool
  seg_executable :: bool

definition PHYS_MAP_BASE :: u64 where "PHYS_MAP_BASE = 0xFFFF800000000000"

definition segment_flags :: "KernelSegment \<Rightarrow> u64" where
  "segment_flags seg =
     (let flags = PAGE_NO_EXECUTE OR PAGE_GLOBAL;
          flags = (if seg_writable seg then flags OR PAGE_WRITABLE else flags)
      in if seg_executable seg then flags AND NOT PAGE_NO_EXECUTE else flags)"

definition map_segment :: "u64 \<Rightarrow> KernelSegment \<Rightarrow> 'a pmm_scheme \<Rightarrow> 'a pmm_scheme option" where
  "map_segment pml4_phys seg =
     (let pages = (seg_len seg + PMM_PAGE_SIZE - 1) div PMM_PAGE_SIZE
      in fold_opt (\<lambda>p. map_page pml4_phys (seg_vaddr seg + frame_of p) (seg_paddr seg + frame_of p) (segment_flags seg))
           [0 ..< unat pages])"

definition map_direct :: "u64 \<Rightarrow> 'a pmm_scheme \<Rightarrow> 'a pmm_scheme option" where
  "map_direct pml4_phys s =
     fold_opt (\<lambda>p. map_page pml4_phys (PHYS_MAP_BASE + frame_of p) (frame_of p)
         (PAGE_WRITABLE OR PAGE_NO_EXECUTE OR PAGE_GLOBAL))
       [0 ..< unat (total_physical_span (STATS s) div PMM_PAGE_SIZE)] s"

definition map_stack :: "u64 \<Rightarrow> u64 \<Rightarrow> 'a pmm_scheme \<Rightarrow> 'a pmm_scheme option" where
  "map_stack pml4_phys current_stack_ptr =
     (let aligned = current_stack_ptr AND NOT 0x1FFFFF; stack_region_base = aligned - 0x200000
      in fold_opt (\<lambda>p. map_page pml4_phys (stack_region_base + frame_of p) (stack_region_base + frame_of p)
             (PAGE_WRITABLE OR PAGE_NO_EXECUTE OR PAGE_GLOBAL))
           [0 ..< 0x600000 div 4096])"

definition vmm_init :: "KernelSegment list \<Rightarrow> u64 \<Rightarrow> 'a vmm_scheme \<Rightarrow> 'a vmm_scheme option" where
  "vmm_init segments current_stack_ptr s = do {
     (pml4_phys, s) \<leftarrow> zeroed_table s;
     s \<leftarrow> fold_opt (map_segment pml4_phys) segments (s\<lparr>KERNEL_PML4_PHYS := pml4_phys\<rparr>);
     s \<leftarrow> map_direct pml4_phys s;
     s \<leftarrow> map_stack pml4_phys current_stack_ptr s;
     Some (s\<lparr>CR3 := pml4_phys\<rparr>)
   }"

text \<open>Taking an address space apart, level by level.\<close>

definition current_cr3 :: "'a vmm_scheme \<Rightarrow> u64" where
  "current_cr3 s = CR3 s AND 0x000FFFFFFFFFF000"

definition switch_address_space :: "u64 \<Rightarrow> 'a vmm_scheme \<Rightarrow> 'a vmm_scheme" where
  "switch_address_space pml4_phys s = s\<lparr>CR3 := pml4_phys\<rparr>"

definition free_leaf :: "u64 \<Rightarrow> nat \<Rightarrow> 'a pmm_scheme \<Rightarrow> 'a pmm_scheme option" where
  "free_leaf pt i1 s =
     (let pte = get_entry pt i1 s in if is_present pte then free_page (pte AND ADDR_MASK) s else Some s)"

text \<open>The loop body of one level: visit the entries of the table below, then free that table.\<close>

definition free_below ::
    "(u64 \<Rightarrow> nat \<Rightarrow> 'a pmm_scheme \<Rightarrow> 'a pmm_scheme option) \<Rightarrow> u64 \<Rightarrow> nat \<Rightarrow> 'a pmm_scheme \<Rightarrow> 'a pmm_scheme option" where
  "free_below visit table i s =
     (let entry = get_entry table i s; below = entry AND ADDR_MASK
      in if is_present entry then do { s \<leftarrow> fold_opt (visit below) [0..<512] s; free_page below s } else Some s)"

definition destroy_address_space :: "u64 \<Rightarrow> 'a vmm_scheme \<Rightarrow> 'a vmm_scheme option" where
  "destroy_address_space pml4_phys s =
     (if pml4_phys = 0 \<or> pml4_phys = KERNEL_PML4_PHYS s then Some s
      else do {
        let s = (if current_cr3 s = pml4_phys then switch_address_space (KERNEL_PML4_PHYS s) s else s);
        s \<leftarrow> fold_opt (free_below (free_below (free_below free_leaf)) pml4_phys) [0..<256] s;
        free_page pml4_phys s
      })"

text \<open>
  The validation loop over the pages of a user buffer. Its end test compares wrapping addresses, so it need
  not end for a buffer in the very last page; \<open>None\<close> is a loop that does not return.
\<close>

partial_function (option) validate_pages :: "u64 \<Rightarrow> u64 \<Rightarrow> u64 \<Rightarrow> u64 \<Rightarrow> 'a pmm_scheme \<Rightarrow> bool option" where
  "validate_pages pml4_phys required page stop s =
     (if page < stop
      then (if debug_translate pml4_phys page s AND required \<noteq> required then Some False
            else validate_pages pml4_phys required (page + 0x1000) stop s)
      else Some True)"

definition validate_user_buffer :: "u64 \<Rightarrow> u64 \<Rightarrow> u64 \<Rightarrow> u64 \<Rightarrow> 'a pmm_scheme \<Rightarrow> bool option" where
  "validate_user_buffer required pml4_phys vaddr len s =
     (if len = 0 then Some False
      else if unat vaddr + unat len \<ge> 2 ^ 64 then Some False
      else validate_pages pml4_phys required (vaddr AND NOT 0xFFF) (vaddr + len) s)"

definition validate_user_buffer_writable :: "u64 \<Rightarrow> u64 \<Rightarrow> u64 \<Rightarrow> 'a vmm_scheme \<Rightarrow> bool option" where
  "validate_user_buffer_writable pml4_phys vaddr len s =
     validate_user_buffer
       (if pml4_phys = KERNEL_PML4_PHYS s then PAGE_PRESENT OR PAGE_WRITABLE
        else PAGE_PRESENT OR PAGE_WRITABLE OR PAGE_USER) pml4_phys vaddr len s"

definition validate_user_buffer_readable :: "u64 \<Rightarrow> u64 \<Rightarrow> u64 \<Rightarrow> 'a vmm_scheme \<Rightarrow> bool option" where
  "validate_user_buffer_readable pml4_phys vaddr len s =
     validate_user_buffer
       (if pml4_phys = KERNEL_PML4_PHYS s then PAGE_PRESENT else PAGE_PRESENT OR PAGE_USER)
       pml4_phys vaddr len s"

subsection \<open>Frames, entries and addresses\<close>

lemma frame_of_push: "frame_of n = push_bit 12 (of_nat n)"
  by (simp add: frame_of_def PMM_PAGE_SIZE_def push_bit_eq_mult)

lemma ADDR_MASK_push: "ADDR_MASK = push_bit 12 (mask 40)"
  by (simp add: ADDR_MASK_def push_bit_eq_mult mask_eq_exp_minus_1)

lemma frame_and_mask:
  assumes "n < 2 ^ 40"
  shows "(frame_of n OR flags) AND ADDR_MASK = frame_of n OR (flags AND ADDR_MASK)"
proof -
  have "take_bit 40 (of_nat n :: u64) = of_nat n"
    using assms by (simp flip: of_nat_take_bit add: take_bit_nat_eq_self)
  then have "frame_of n AND ADDR_MASK = frame_of n"
    unfolding frame_of_push ADDR_MASK_push push_bit_and [symmetric] by (simp add: take_bit_eq_mask)
  then show ?thesis by (simp add: bit.conj_disj_distrib2)
qed

lemma unat_entry_addr:
  assumes "n < 2 ^ 40" "i < 512"
  shows "unat (entry_addr (frame_of n) i) = n * 4096 + 8 * i"
proof -
  have "unat (8 * of_nat i :: u64) = 8 * i"
    using assms(2) by (simp add: unat_word_ariths unat_of_nat take_bit_nat_eq_self)
  with assms unat_frame_of [of n] show ?thesis
    by (simp add: entry_addr_def unat_word_ariths)
qed

lemma entry_addr_inj:
  assumes "m < 2 ^ 40" "n < 2 ^ 40" "i < 512" "j < 512"
  shows "entry_addr (frame_of m) i = entry_addr (frame_of n) j \<longleftrightarrow> m = n \<and> i = j"
proof
  assume "entry_addr (frame_of m) i = entry_addr (frame_of n) j"
  then have eq: "m * 4096 + 8 * i = n * 4096 + 8 * j"
    using unat_entry_addr assms by metis
  then have "(m * 4096 + 8 * i) div 4096 = (n * 4096 + 8 * j) div 4096" by simp
  then have "m = n" using assms by simp
  with eq show "m = n \<and> i = j" by simp
qed simp

lemma entry_in_page:
  assumes "m < 2 ^ 40" "n < 2 ^ 40" "i < 512"
  shows "entry_addr (frame_of m) i - frame_of n < 4096 \<longleftrightarrow> m = n"
proof -
  let ?a = "entry_addr (frame_of m) i"
  have a: "unat ?a = m * 4096 + 8 * i" "unat (frame_of n) = n * 4096"
    using unat_entry_addr unat_frame_of assms by simp_all
  consider "n \<le> m" | "m < n" by linarith
  then show ?thesis
  proof cases
    case 1
    then have "n * 4096 \<le> m * 4096" by simp
    then have "frame_of n \<le> ?a" by (simp add: word_le_nat_alt a)
    then have "unat (?a - frame_of n) = m * 4096 + 8 * i - n * 4096"
      using a by (simp add: unat_sub)
    also have "\<dots> = (m - n) * 4096 + 8 * i" using 1 by (simp add: algebra_simps)
    finally show ?thesis using 1 assms(3) by (simp add: word_less_nat_alt) linarith
  next
    case 2
    then have lt: "m * 4096 + 4096 \<le> n * 4096" by simp
    have "\<not> unat (?a - frame_of n) < 4096"
    proof
      assume d: "unat (?a - frame_of n) < 4096"
      have "unat (frame_of n + (?a - frame_of n)) = n * 4096 + unat (?a - frame_of n)"
        using d assms(2) a(2) by (subst unat_word_ariths) simp
      then have "unat ?a = n * 4096 + unat (?a - frame_of n)" by simp
      with a(1) lt assms(3) show False by simp
    qed
    with 2 show ?thesis by (simp add: word_less_nat_alt)
  qed
qed

subsection \<open>Paths through the tables\<close>

fun tbl :: "'a pmm_scheme \<Rightarrow> u64 \<Rightarrow> nat list \<Rightarrow> u64 option" where
  "tbl s t [] = Some t"
| "tbl s t (i # p) =
     (if is_present (get_entry t i s) then tbl s (get_entry t i s AND ADDR_MASK) p else None)"

definition valid_path :: "nat \<Rightarrow> nat list \<Rightarrow> bool" where
  "valid_path n p \<longleftrightarrow> length p \<le> n \<and> (\<forall>i \<in> set p. i < 512)"

definition leaf :: "'a pmm_scheme \<Rightarrow> u64 \<Rightarrow> nat list \<Rightarrow> u64" where
  "leaf s root p = (case tbl s root (butlast p) of None \<Rightarrow> 0 | Some t \<Rightarrow> get_entry t (last p) s)"

definition path_of :: "u64 \<Rightarrow> nat list" where
  "path_of vaddr = (let (i4, i3, i2, i1) = split_indices vaddr in [i4, i3, i2, i1])"

lemma tbl_snoc:
  "tbl s t (p @ [i]) =
     (case tbl s t p of None \<Rightarrow> None
      | Some u \<Rightarrow> if is_present (get_entry u i s) then Some (get_entry u i s AND ADDR_MASK) else None)"
  by (induction p arbitrary: t) auto

lemma debug_translate_leaf: "debug_translate root vaddr s = leaf s root (path_of vaddr)"
  by (simp add: debug_translate_def leaf_def path_of_def split_beta Let_def)

lemma and_511: "unat (w AND 0x1ff :: u64) < 512"
proof -
  have "w AND 0x1ff = take_bit 9 w" by (simp add: take_bit_eq_mask mask_eq_exp_minus_1)
  then show ?thesis by (simp add: unsigned_take_bit_eq take_bit_nat_less_exp [of 9, simplified])
qed

lemma path_of_valid:
  "length (path_of vaddr) = 4" "\<forall>i \<in> set (path_of vaddr). i < 512"
  "path_of vaddr \<noteq> []" "valid_path 3 (butlast (path_of vaddr))" "last (path_of vaddr) < 512"
  by (simp_all add: path_of_def split_indices_def and_511 valid_path_def)

text \<open>
  Well-formed tables: the allocator is well formed and manages less than the 52 bits of physical
  address an entry can hold; every table of the tree is a frame that is in use; and the tables
  of different paths are different frames.
\<close>

definition table_ok :: "'a pmm_scheme \<Rightarrow> u64 \<Rightarrow> bool" where
  "table_ok s f \<longleftrightarrow> (\<exists>n. f = frame_of n \<and> n < unat (TOTAL_SPAN_PAGES s) \<and> n \<notin> free_set s)"

definition pt_wf :: "'a pmm_scheme \<Rightarrow> u64 \<Rightarrow> bool" where
  "pt_wf s root \<longleftrightarrow> pmm_wf s \<and> unat (TOTAL_SPAN_PAGES s) \<le> 2 ^ 40 \<and>
     (\<forall>p f. valid_path 3 p \<longrightarrow> tbl s root p = Some f \<longrightarrow> table_ok s f) \<and>
     (\<forall>p q f. valid_path 3 p \<longrightarrow> valid_path 3 q \<longrightarrow> tbl s root p = Some f \<longrightarrow> tbl s root q = Some f \<longrightarrow> p = q)"

lemma pt_wfD:
  assumes "pt_wf s root"
  shows "pmm_wf s" "unat (TOTAL_SPAN_PAGES s) \<le> 2 ^ 40"
    "valid_path 3 p \<Longrightarrow> tbl s root p = Some f \<Longrightarrow> table_ok s f"
    "valid_path 3 p \<Longrightarrow> valid_path 3 q \<Longrightarrow> tbl s root p = Some f \<Longrightarrow> tbl s root q = Some f \<Longrightarrow> p = q"
  using assms unfolding pt_wf_def by blast+

lemma get_set_entry:
  assumes "unat (TOTAL_SPAN_PAGES s) \<le> 2 ^ 40" "table_ok s t" "table_ok s u" "i < 512" "j < 512"
  shows "get_entry u j (set_entry t i v s) = (if u = t \<and> j = i then v else get_entry u j s)"
proof -
  obtain m n where mn: "t = frame_of m" "u = frame_of n" "m < 2 ^ 40" "n < 2 ^ 40"
    using assms(1-3) by (auto simp: table_ok_def)
  then have "entry_addr u j = entry_addr t i \<longleftrightarrow> n = m \<and> j = i"
    using entry_addr_inj [of n m j i] assms(4,5) by simp
  moreover have "u = t \<longleftrightarrow> n = m"
    using mn frame_of_inj [of n m] by simp
  ultimately show ?thesis by (auto simp: get_entry_def set_entry_def)
qed

lemma set_entry_frame [simp]:
  "USED_BITMAP (set_entry t i v s) = USED_BITMAP s" "RESERVED_BITMAP (set_entry t i v s) = RESERVED_BITMAP s"
  "TOTAL_SPAN_PAGES (set_entry t i v s) = TOTAL_SPAN_PAGES s" "free_set (set_entry t i v s) = free_set s"
  "pmm_wf (set_entry t i v s) = pmm_wf s" "table_ok (set_entry t i v s) f = table_ok s f"
  "pmm.more (set_entry t i v s) = pmm.more s"
  by (simp_all add: set_entry_def free_set_def pmm_wf_def table_ok_def)

lemma valid_path_snoc: "valid_path n (p @ [i]) \<longleftrightarrow> length p < n \<and> valid_path n p \<and> i < 512"
  by (auto simp: valid_path_def)

text \<open>Writing a leaf entry changes no table and no other leaf.\<close>

lemma set_leaf:
  assumes wf: "pt_wf s root" and t: "tbl s root p = Some t" and p: "valid_path 3 p" "length p = 3" and i: "i < 512"
  shows "valid_path 3 q \<Longrightarrow> tbl (set_entry t i v s) root q = tbl s root q"
    "pt_wf (set_entry t i v s) root"
    "length q = 4 \<Longrightarrow> \<forall>k \<in> set q. k < 512 \<Longrightarrow>
      leaf (set_entry t i v s) root q = (if q = p @ [i] then v else leaf s root q)"
proof -
  let ?s = "set_entry t i v s"
  note span = pt_wfD(2) [OF wf]
  have tok: "table_ok s t" by (rule pt_wfD(3) [OF wf p(1) t])
  have get: "get_entry u j ?s = (if q = p \<and> j = i then v else get_entry u j s)"
    if "valid_path 3 q" "tbl s root q = Some u" "j < 512" for q u j
  proof -
    have "u = t \<longleftrightarrow> q = p"
      using pt_wfD(4) [OF wf that(1) p(1)] that(2) t by auto
    then show ?thesis
      using get_set_entry [OF span tok pt_wfD(3) [OF wf that(1,2)] i that(3)] by simp
  qed
  show tbl: "tbl ?s root q = tbl s root q" if "valid_path 3 q" for q
    using that
  proof (induction q rule: rev_induct)
    case (snoc j q)
    then have q: "valid_path 3 q" "j < 512" "q \<noteq> p"
      using p(2) by (auto simp: valid_path_snoc)
    then show ?case
      using snoc.IH get [OF q(1)] by (cases "tbl s root q") (simp_all add: tbl_snoc)
  qed simp
  show "pt_wf ?s root"
    using wf tbl unfolding pt_wf_def by simp
  show "leaf ?s root q = (if q = p @ [i] then v else leaf s root q)"
    if "length q = 4" "\<forall>k \<in> set q. k < 512" for q
  proof -
    have "q \<noteq> []" using that(1) by auto
    then have q: "q = butlast q @ [last q]" "last q < 512" using that by simp_all
    have b: "valid_path 3 (butlast q)"
      using that by (auto simp: valid_path_def dest: in_set_butlastD)
    show ?thesis
    proof (cases "tbl s root (butlast q)")
      case None
      then have "butlast q \<noteq> p" using t by auto
      then have "q \<noteq> p @ [i]" by auto
      with None tbl [OF b] show ?thesis by (simp add: leaf_def)
    next
      case (Some u)
      have "q = p @ [i] \<longleftrightarrow> butlast q = p \<and> last q = i" using q(1) by (metis append_butlast_last_id butlast_snoc last_snoc)
      with Some tbl [OF b] get [OF b Some q(2)] show ?thesis by (simp add: leaf_def)
    qed
  qed
qed

end
