(* ===== verification/Page_Tables.thy ===== *)
theory Page_Tables
  imports Vmm
begin

text \<open>
  What the operations of \<^verbatim>\<open>kernel_rs/src/vmm.rs\<close> do to the tree of tables. The detailed operations walk and
  extend tables in physical memory; the abstraction is \<open>leaf\<close>, the entry at each path of four indices.
  Mapping a page is a function update of the leaves, unmapping one resets a leaf, and neither touches a table
  that is not on the path of its address.
\<close>

subsection \<open>One step on a tree\<close>

definition pt_step :: "u64 \<Rightarrow> nat list set \<Rightarrow> 'a pmm_scheme \<Rightarrow> 'a pmm_scheme \<Rightarrow> bool" where
  "pt_step root P s s' \<longleftrightarrow> pt_wf s' root \<and> TOTAL_SPAN_PAGES s' = TOTAL_SPAN_PAGES s \<and>
     RESERVED_BITMAP s' = RESERVED_BITMAP s \<and> pmm.more s' = pmm.more s \<and> free_set s' \<subseteq> free_set s \<and>
     (\<forall>q. valid_path 3 q \<longrightarrow> tbl s' root q = tbl s root q \<or>
        tbl s root q = None \<and> (\<forall>f. tbl s' root q = Some f \<longrightarrow> \<not> table_ok s f)) \<and>
     (\<forall>u j. table_ok s u \<longrightarrow> j < 512 \<longrightarrow> (\<forall>q \<in> P. tbl s root q \<noteq> Some u) \<longrightarrow> get_entry u j s' = get_entry u j s)"

lemma pt_stepD:
  assumes "pt_step root P s s'"
  shows "pt_wf s' root" "TOTAL_SPAN_PAGES s' = TOTAL_SPAN_PAGES s"
    "RESERVED_BITMAP s' = RESERVED_BITMAP s" "pmm.more s' = pmm.more s" "free_set s' \<subseteq> free_set s"
    "valid_path 3 q \<Longrightarrow> tbl s' root q = tbl s root q \<or>
        tbl s root q = None \<and> (\<forall>f. tbl s' root q = Some f \<longrightarrow> \<not> table_ok s f)"
    "table_ok s u \<Longrightarrow> j < 512 \<Longrightarrow> (\<And>q. q \<in> P \<Longrightarrow> tbl s root q \<noteq> Some u) \<Longrightarrow> get_entry u j s' = get_entry u j s"
  using assms unfolding pt_step_def by blast+

lemma pt_step_table_ok: "pt_step root P s s' \<Longrightarrow> table_ok s u \<Longrightarrow> table_ok s' u"
  using pt_stepD(2,5) unfolding table_ok_def by fastforce

lemma pt_step_tbl: "pt_step root P s s' \<Longrightarrow> valid_path 3 q \<Longrightarrow> tbl s root q = Some f \<Longrightarrow> tbl s' root q = Some f"
  using pt_stepD(6) by fastforce

lemma pt_step_refl: "pt_wf s root \<Longrightarrow> pt_step root P s s"
  by (simp add: pt_step_def)

lemma pt_step_mono: "pt_step root P s s' \<Longrightarrow> P \<subseteq> Q \<Longrightarrow> pt_step root Q s s'"
  unfolding pt_step_def by blast

lemma pt_step_trans:
  assumes 1: "pt_step root P s s1" and 2: "pt_step root P s1 s2" and P: "\<And>q. q \<in> P \<Longrightarrow> valid_path 3 q"
  shows "pt_step root P s s2"
proof -
  have t: "tbl s2 root q = tbl s root q \<or> tbl s root q = None \<and> (\<forall>f. tbl s2 root q = Some f \<longrightarrow> \<not> table_ok s f)"
    if "valid_path 3 q" for q
    using pt_stepD(6) [OF 1 that] pt_stepD(6) [OF 2 that] pt_step_table_ok [OF 1] by metis
  have g: "get_entry u j s2 = get_entry u j s"
    if "table_ok s u" "j < 512" "\<And>q. q \<in> P \<Longrightarrow> tbl s root q \<noteq> Some u" for u j
  proof -
    have "tbl s1 root q \<noteq> Some u" if "q \<in> P" for q
      using pt_stepD(6) [OF 1 P [OF that]] \<open>table_ok s u\<close> \<open>\<And>q. q \<in> P \<Longrightarrow> tbl s root q \<noteq> Some u\<close> [OF that] by metis
    then have "get_entry u j s2 = get_entry u j s1"
      using pt_stepD(7) [OF 2 pt_step_table_ok [OF 1 that(1)] that(2)] by blast
    also have "\<dots> = get_entry u j s" using pt_stepD(7) [OF 1 that] .
    finally show ?thesis .
  qed
  show ?thesis
    unfolding pt_step_def using pt_stepD(1-5) [OF 1] pt_stepD(1-5) [OF 2] t g by auto
qed

subsection \<open>A new table\<close>

lemma zeroed_table_spec:
  assumes "pmm_wf s"
  shows "if free_set s = {} then zeroed_table s = None
    else \<exists>n s'. n \<in> free_set s \<and> zeroed_table s = Some (frame_of n, s') \<and> pmm_wf s' \<and>
      free_set s' = free_set s - {n} \<and> RESERVED_BITMAP s' = RESERVED_BITMAP s \<and>
      PHYS s' = zero_page (frame_of n) (PHYS s) \<and> TOTAL_SPAN_PAGES s' = TOTAL_SPAN_PAGES s \<and>
      pmm.more s' = pmm.more s"
proof -
  have "frame_of n \<noteq> 0" if "n \<in> free_set s" for n
  proof -
    have "n < 2 ^ 52" "n \<noteq> 0"
      using that pmm_wfD(3-5) [OF assms] pmm_wfD(6) [OF assms, of 0] by (auto simp: free_set_def intro: gr0I)
    then have "unat (frame_of n) \<noteq> 0" by (simp add: unat_frame_of)
    then show ?thesis by auto
  qed
  then show ?thesis
    using alloc_page_spec [OF assms] by (auto simp: zeroed_table_def split: if_splits)
qed

lemma get_entry_zeroed:
  assumes "unat (TOTAL_SPAN_PAGES s) \<le> 2 ^ 40" "n \<in> free_set s" "PHYS s' = zero_page (frame_of n) (PHYS s)" "j < 512"
  shows "table_ok s u \<Longrightarrow> get_entry u j s' = get_entry u j s" "get_entry (frame_of n) j s' = 0"
    "\<not> table_ok s (frame_of n)"
proof -
  have n: "n < unat (TOTAL_SPAN_PAGES s)" using assms(2) by (simp add: free_set_def)
  show "get_entry (frame_of n) j s' = 0"
    using entry_in_page [of n n j] n assms(1,3,4) by (simp add: get_entry_def zero_page_def PMM_PAGE_SIZE_def)
  have ne: "m \<noteq> n \<longleftrightarrow> frame_of m \<noteq> frame_of n" if "m < unat (TOTAL_SPAN_PAGES s)" for m
    using frame_of_inj [of m n] that n assms(1) by simp
  show "get_entry u j s' = get_entry u j s" if u: "table_ok s u"
  proof -
    obtain m where m: "u = frame_of m" "m < unat (TOTAL_SPAN_PAGES s)" "m \<notin> free_set s"
      using u by (auto simp: table_ok_def)
    then have "m \<noteq> n" using assms(2) by auto
    with m n assms(1,3,4) entry_in_page [of m n j] show ?thesis
      by (simp add: get_entry_def zero_page_def PMM_PAGE_SIZE_def)
  qed
  show "\<not> table_ok s (frame_of n)"
  proof
    assume "table_ok s (frame_of n)"
    then obtain m where m: "frame_of m = frame_of n" "m < unat (TOTAL_SPAN_PAGES s)" "m \<notin> free_set s"
      unfolding table_ok_def by metis
    then have "m = n" using ne by blast
    with m(3) assms(2) show False by simp
  qed
qed

lemma new_entry_value:
  assumes "n < 2 ^ 40"
  shows "(frame_of n OR (PAGE_PRESENT OR PAGE_WRITABLE OR PAGE_USER)) AND ADDR_MASK = frame_of n"
    "is_present (frame_of n OR (PAGE_PRESENT OR PAGE_WRITABLE OR PAGE_USER))"
proof -
  have "(PAGE_PRESENT OR PAGE_WRITABLE OR PAGE_USER) AND ADDR_MASK = 0"
    by (simp add: PAGE_PRESENT_def PAGE_WRITABLE_def PAGE_USER_def ADDR_MASK_def)
  with frame_and_mask [OF assms] show "(frame_of n OR (PAGE_PRESENT OR PAGE_WRITABLE OR PAGE_USER)) AND ADDR_MASK = frame_of n"
    by simp
  show "is_present (frame_of n OR (PAGE_PRESENT OR PAGE_WRITABLE OR PAGE_USER))"
    by (simp add: is_present_def PAGE_PRESENT_def and_exp_eq_0_iff_not_bit [of _ 0, simplified] bit_or_iff)
qed

text \<open>
  One level of the walk: the table at \<open>p @ [i]\<close> exists afterwards; when it is new, its entries are empty, so that
  no other table and no leaf changes.
\<close>

lemma add_table:
  assumes wf: "pt_wf s root" and t: "tbl s root p = Some t" and v: "valid_path 3 (p @ [i])"
    and absent: "\<not> is_present (get_entry t i s)" and n: "n \<in> free_set s"
    and s1: "pmm_wf s1" "free_set s1 = free_set s - {n}" "RESERVED_BITMAP s1 = RESERVED_BITMAP s"
      "PHYS s1 = zero_page (frame_of n) (PHYS s)" "TOTAL_SPAN_PAGES s1 = TOTAL_SPAN_PAGES s" "pmm.more s1 = pmm.more s"
  defines "s' \<equiv> set_entry t i (frame_of n OR (PAGE_PRESENT OR PAGE_WRITABLE OR PAGE_USER)) s1"
  shows "valid_path 3 q \<Longrightarrow> tbl s' root q = (if q = p @ [i] then Some (frame_of n) else tbl s root q)"
    "table_ok s u \<Longrightarrow> j < 512 \<Longrightarrow> u \<noteq> t \<Longrightarrow> get_entry u j s' = get_entry u j s"
    "get_entry (frame_of n) j s' = 0 \<or> \<not> j < 512"
    "get_entry t i s' = frame_of n OR (PAGE_PRESENT OR PAGE_WRITABLE OR PAGE_USER)"
    "table_ok s' f \<longleftrightarrow> table_ok s f \<or> f = frame_of n"
proof -
  let ?v = "frame_of n OR (PAGE_PRESENT OR PAGE_WRITABLE OR PAGE_USER)"
  note span = pt_wfD(2) [OF wf]
  have vp: "valid_path 3 p" "i < 512" "length p < 3" using v by (simp_all add: valid_path_snoc)
  have tok: "table_ok s t" by (rule pt_wfD(3) [OF wf vp(1) t])
  have n1: "n < unat (TOTAL_SPAN_PAGES s)" "n < 2 ^ 40"
    using n span by (auto simp: free_set_def)
  have ok1: "table_ok s1 f \<longleftrightarrow> table_ok s f \<or> f = frame_of n" for f
    using n1 frame_of_inj [of _ n] span by (auto simp: table_ok_def s1(2,5))
  show ok': "table_ok s' f \<longleftrightarrow> table_ok s f \<or> f = frame_of n" for f
    by (simp add: s'_def ok1)
  have span1: "unat (TOTAL_SPAN_PAGES s1) \<le> 2 ^ 40" using span s1(5) by simp
  have get: "get_entry u j s' = (if u = t \<and> j = i then ?v else if u = frame_of n then 0 else get_entry u j s)"
    if "table_ok s u \<or> u = frame_of n" "j < 512" for u j
  proof -
    have "get_entry u j s' = (if u = t \<and> j = i then ?v else get_entry u j s1)"
      unfolding s'_def using get_set_entry [OF span1 _ _ vp(2) that(2)] ok1 tok that(1) by blast
    then show ?thesis
      using that get_entry_zeroed [OF span n s1(4) that(2)] by auto
  qed
  have fresh: "\<not> table_ok s (frame_of n)" by (rule get_entry_zeroed(3) [OF span n s1(4) vp(2)])
  show "get_entry u j s' = get_entry u j s" if "table_ok s u" "j < 512" "u \<noteq> t" for u j
    using get [of u j] that fresh by auto
  show zero: "get_entry (frame_of n) j s' = 0 \<or> \<not> j < 512" for j
  proof -
    have "frame_of n \<noteq> t" using fresh tok by metis
    then show ?thesis using get [of "frame_of n" j] by auto
  qed
  show entry: "get_entry t i s' = ?v" using get [of t i] tok vp(2) by simp
  show "tbl s' root q = (if q = p @ [i] then Some (frame_of n) else tbl s root q)" if "valid_path 3 q" for q
    using that
  proof (induction q rule: rev_induct)
    case (snoc j q)
    then have q: "valid_path 3 q" "j < 512" by (simp_all add: valid_path_snoc)
    consider "q = p @ [i]" | "tbl s root q = None" "q \<noteq> p @ [i]"
      | u where "tbl s root q = Some u" "q \<noteq> p @ [i]" by auto
    then show ?case
    proof cases
      case 1
      have "tbl s root q = None" using t absent by (simp add: 1 tbl_snoc)
      moreover have "tbl s' root q = Some (frame_of n)" using 1 snoc.IH [OF q(1)] by simp
      moreover have "q @ [j] \<noteq> p @ [i]" using 1 by simp
      ultimately show ?thesis
        unfolding tbl_snoc [of s' root q] tbl_snoc [of s root q] using zero [of j] q(2)
        by (simp add: is_present_def)
    next
      case 2
      then have "q \<noteq> p" using t by auto
      with 2 snoc.IH [OF q(1)] show ?thesis by (simp add: tbl_snoc)
    next
      case 3
      then have uok: "table_ok s u" using pt_wfD(3) [OF wf q(1)] by blast
      then have "u \<noteq> frame_of n" using fresh by auto
      moreover have "u = t \<longleftrightarrow> q = p"
        using pt_wfD(4) [OF wf q(1) vp(1)] 3(1) t by auto
      ultimately show ?thesis
        using 3 snoc.IH [OF q(1)] get [of u j] uok q(2) t absent new_entry_value [OF n1(2)]
        by (auto simp: tbl_snoc)
    qed
  qed simp
qed

lemma leaf_cong:
  assumes "length q = 4" "\<forall>k \<in> set q. k < 512"
    and "\<And>p t. valid_path 3 p \<Longrightarrow> length p = 3 \<Longrightarrow> tbl s root p = Some t \<Longrightarrow> tbl s' root p = Some t"
    and "\<And>p t j. valid_path 3 p \<Longrightarrow> length p = 3 \<Longrightarrow> tbl s root p = Some t \<Longrightarrow> j < 512 \<Longrightarrow> get_entry t j s' = get_entry t j s"
    and "\<And>p t j. valid_path 3 p \<Longrightarrow> tbl s root p = None \<Longrightarrow> tbl s' root p = Some t \<Longrightarrow> j < 512 \<Longrightarrow> get_entry t j s' = 0"
  shows "leaf s' root q = leaf s root q"
proof -
  have "q \<noteq> []" using assms(1) by auto
  then have q: "valid_path 3 (butlast q)" "length (butlast q) = 3" "last q < 512"
    using assms(1,2) by (auto simp: valid_path_def dest: in_set_butlastD)
  show ?thesis
  proof (cases "tbl s root (butlast q)")
    case None
    with assms(5) [OF q(1)] q(3) show ?thesis by (simp add: leaf_def split: option.split)
  next
    case (Some t)
    with assms(3,4) [OF q(1,2)] q(3) show ?thesis by (simp add: leaf_def)
  qed
qed

lemma ensure_table_spec:
  assumes wf: "pt_wf s root" and t: "tbl s root p = Some t" and v: "valid_path 3 (p @ [i])"
  shows "(free_set s = {} \<and> ensure_table t i s = None) \<or>
    (\<exists>u s'. ensure_table t i s = Some (u, s') \<and> pt_step root {p} s s' \<and> tbl s' root (p @ [i]) = Some u \<and>
      card (free_set s) \<le> Suc (card (free_set s')) \<and>
      (\<forall>q. length q = 4 \<longrightarrow> (\<forall>k \<in> set q. k < 512) \<longrightarrow> leaf s' root q = leaf s root q))"
proof (cases "is_present (get_entry t i s)")
  case True
  then have "ensure_table t i s = Some (get_entry t i s AND ADDR_MASK, s)" by (simp add: ensure_table_def)
  with True t show ?thesis by (simp add: tbl_snoc pt_step_refl [OF wf])
next
  case absent: False
  note span = pt_wfD(2) [OF wf]
  have vp: "valid_path 3 p" "i < 512" "length p < 3" using v by (simp_all add: valid_path_snoc)
  show ?thesis
  proof (cases "free_set s = {}")
    case True
    then show ?thesis using absent zeroed_table_spec [OF pt_wfD(1) [OF wf]] by (simp add: ensure_table_def)
  next
    case False
    then obtain n s1 where n: "n \<in> free_set s" and z: "zeroed_table s = Some (frame_of n, s1)" and
      s1: "pmm_wf s1" "free_set s1 = free_set s - {n}" "RESERVED_BITMAP s1 = RESERVED_BITMAP s"
        "PHYS s1 = zero_page (frame_of n) (PHYS s)" "TOTAL_SPAN_PAGES s1 = TOTAL_SPAN_PAGES s" "pmm.more s1 = pmm.more s"
      using zeroed_table_spec [OF pt_wfD(1) [OF wf]] by auto
    let ?s = "set_entry t i (frame_of n OR (PAGE_PRESENT OR PAGE_WRITABLE OR PAGE_USER)) s1"
    note add = add_table [OF wf t v absent n s1]
    have n40: "n < 2 ^ 40" using n span by (auto simp: free_set_def)
    have fresh: "\<not> table_ok s (frame_of n)" by (rule get_entry_zeroed(3) [OF span n s1(4) vp(2)])
    have none: "tbl s root (p @ [i]) = None" using t absent by (simp add: tbl_snoc)
    have wf': "pt_wf ?s root"
      unfolding pt_wf_def
    proof (intro conjI allI impI)
      show "pmm_wf ?s" "unat (TOTAL_SPAN_PAGES ?s) \<le> 2 ^ 40" using s1(1,5) span by simp_all
    next
      fix q f assume "valid_path 3 q" "tbl ?s root q = Some f"
      then show "table_ok ?s f"
        using add(1) [of q] pt_wfD(3) [OF wf, of q f] unfolding add(5) by (auto split: if_splits)
    next
      fix q q' f assume "valid_path 3 q" "valid_path 3 q'" "tbl ?s root q = Some f" "tbl ?s root q' = Some f"
      then show "q = q'"
        using add(1) [of q] add(1) [of q'] pt_wfD(3) [OF wf, of q f] pt_wfD(3) [OF wf, of q' f] fresh
          pt_wfD(4) [OF wf, of q q' f]
        by (auto split: if_splits)
    qed
    have "pt_step root {p} s ?s"
      unfolding pt_step_def
      using wf' s1 add(1) add(2) t fresh none by (auto split: if_splits)
    moreover have "ensure_table t i s = Some (frame_of n, ?s)"
      using absent z add(4) new_entry_value [OF n40] by (simp add: ensure_table_def)
    moreover have "tbl ?s root (p @ [i]) = Some (frame_of n)" using add(1) [OF v] by simp
    moreover have "card (free_set s) \<le> Suc (card (free_set ?s))"
      using card.remove [OF finite_free_set n] s1(2) by simp
    moreover have "leaf ?s root q = leaf s root q" if "length q = 4" "\<forall>k \<in> set q. k < 512" for q
    proof (rule leaf_cong [OF that])
      fix q f assume "valid_path 3 q" "tbl s root q = Some f"
      then show "tbl ?s root q = Some f" using add(1) [of q] none by auto
    next
      fix q u j assume q: "valid_path 3 q" "length q = 3" "tbl s root q = Some u" "j < (512 :: nat)"
      then have "u \<noteq> t" using pt_wfD(4) [OF wf q(1) vp(1)] t vp(3) by auto
      then show "get_entry u j ?s = get_entry u j s"
        using add(2) pt_wfD(3) [OF wf q(1,3)] q(4) by blast
    next
      fix q u j assume "valid_path 3 q" "tbl s root q = None" "tbl ?s root q = Some u" "j < (512 :: nat)"
      then show "get_entry u j ?s = 0" using add(1) [of q] add(3) [of j] by (auto split: if_splits)
    qed
    ultimately show ?thesis by blast
  qed
qed

subsection \<open>Mapping, unmapping and translating\<close>

lemma path_prefixes:
  assumes "split_indices vaddr = (i4, i3, i2, i1)"
  shows "path_of vaddr = [i4, i3, i2, i1]" "valid_path 3 [i4]" "valid_path 3 [i4, i3]" "valid_path 3 [i4, i3, i2]"
    "valid_path 3 []" "i1 < 512"
  using path_of_valid(2) [of vaddr] by (simp_all add: path_of_def assms valid_path_def)

definition path_tables :: "u64 \<Rightarrow> nat list set" where
  "path_tables vaddr = (\<lambda>n. take n (path_of vaddr)) ` {0, 1, 2, 3}"

lemma path_tables_valid: "q \<in> path_tables vaddr \<Longrightarrow> valid_path 3 q"
  using path_of_valid(1,2) [of vaddr] by (auto simp: path_tables_def valid_path_def dest: in_set_takeD)

text \<open>
  The walk down to a table, as far as it has come: at most \<open>k\<close> frames were taken, only tables in \<open>P\<close>
  were written, and no leaf has changed.
\<close>

definition walked :: "u64 \<Rightarrow> nat list set \<Rightarrow> nat \<Rightarrow> 'a pmm_scheme \<Rightarrow> nat list \<Rightarrow> (u64 \<times> 'a pmm_scheme) option \<Rightarrow> bool" where
  "walked root P k s p r = (case r of None \<Rightarrow> card (free_set s) < k
     | Some (u, s') \<Rightarrow> pt_step root P s s' \<and> tbl s' root p = Some u \<and> card (free_set s) \<le> card (free_set s') + k \<and>
         (\<forall>q. length q = 4 \<longrightarrow> (\<forall>j \<in> set q. j < 512) \<longrightarrow> leaf s' root q = leaf s root q))"

lemma walked_start: "pt_wf s root \<Longrightarrow> walked root P 0 s [] (Some (root, s))"
  by (simp add: walked_def pt_step_refl)

lemma walked_ensure:
  assumes w: "walked root P k s p r" and v: "valid_path 3 (p @ [i])" and p: "p \<in> P" and P: "\<And>q. q \<in> P \<Longrightarrow> valid_path 3 q"
  shows "walked root P (Suc k) s (p @ [i]) (r \<bind> (\<lambda>(t, s). ensure_table t i s))"
proof (cases r)
  case None
  with w show ?thesis by (simp add: walked_def)
next
  case (Some x)
  then obtain t s1 where r: "r = Some (t, s1)" by (cases x) simp
  have 1: "pt_step root P s s1" "tbl s1 root p = Some t" "card (free_set s) \<le> card (free_set s1) + k"
    using w by (simp_all add: walked_def r)
  from ensure_table_spec [OF pt_stepD(1) [OF 1(1)] 1(2) v] show ?thesis
  proof (elim disjE exE conjE)
    assume "free_set s1 = {}" "ensure_table t i s1 = None"
    with 1(3) show ?thesis by (simp add: walked_def r)
  next
    fix u s' assume 2: "ensure_table t i s1 = Some (u, s')" "pt_step root {p} s1 s'" "tbl s' root (p @ [i]) = Some u"
      "card (free_set s1) \<le> Suc (card (free_set s'))"
      "\<forall>q. length q = 4 \<longrightarrow> (\<forall>k \<in> set q. k < 512) \<longrightarrow> leaf s' root q = leaf s1 root q"
    have "pt_step root P s s'"
      using pt_step_trans [OF 1(1) pt_step_mono [OF 2(2)] P] p by blast
    with w 1(3) 2 show ?thesis by (simp add: walked_def r)
  qed
qed

lemma set_leaf_step:
  assumes "pt_wf s root" "tbl s root p = Some t" "valid_path 3 p" "length p = 3" "i < 512" "p \<in> P"
  shows "pt_step root P s (set_entry t i v s)"
proof -
  have "get_entry u j (set_entry t i v s) = get_entry u j s"
    if "table_ok s u" "j < 512" "\<forall>q \<in> P. tbl s root q \<noteq> Some u" for u j
  proof -
    have "u \<noteq> t" using that(3) assms(2,6) by auto
    then show ?thesis
      using get_set_entry [OF pt_wfD(2) [OF assms(1)] pt_wfD(3) [OF assms(1,3,2)] that(1) assms(5) that(2)] by simp
  qed
  then show ?thesis
    unfolding pt_step_def using set_leaf(1,2) [OF assms(1-5)] by simp
qed

lemma map_page_spec:
  assumes wf: "pt_wf s root"
  shows "case map_page root vaddr paddr flags s of None \<Rightarrow> card (free_set s) < 3
    | Some s' \<Rightarrow> pt_step root (path_tables vaddr) s s' \<and>
      card (free_set s) \<le> card (free_set s') + 3 \<and> tbl s' root (butlast (path_of vaddr)) \<noteq> None \<and>
      (\<forall>q. length q = 4 \<longrightarrow> (\<forall>k \<in> set q. k < 512) \<longrightarrow> leaf s' root q =
        (if q = path_of vaddr then (paddr AND ADDR_MASK) OR flags OR PAGE_PRESENT else leaf s root q))"
proof -
  obtain i4 i3 i2 i1 where ix: "split_indices vaddr = (i4, i3, i2, i1)" by (metis prod_cases4)
  note path = path_prefixes [OF ix]
  let ?P = "path_tables vaddr" and ?e = "(paddr AND ADDR_MASK) OR flags OR PAGE_PRESENT"
  have pt: "?P = {[], [i4], [i4, i3], [i4, i3, i2]}"
    by (simp add: path_tables_def path(1) numeral_nat)
  let ?walk = "ensure_table root i4 s \<bind> (\<lambda>(t, s). ensure_table t i3 s) \<bind> (\<lambda>(t, s). ensure_table t i2 s)"
  note ensure = walked_ensure [where P = ?P, OF _ _ _ path_tables_valid [of _ vaddr]]
  have "walked root ?P 1 s [i4] (ensure_table root i4 s)"
    using ensure [OF walked_start [OF wf], of i4] path(2) by (simp add: pt)
  from ensure [OF this, of i3] have "walked root ?P 2 s [i4, i3] (ensure_table root i4 s \<bind> (\<lambda>(t, s). ensure_table t i3 s))"
    using path(3) by (simp add: pt numeral_2_eq_2)
  from ensure [OF this, of i2] have w: "walked root ?P 3 s [i4, i3, i2] ?walk"
    using path(4) by (simp add: pt)
  have map: "map_page root vaddr paddr flags s = ?walk \<bind> (\<lambda>(t, s). Some (set_entry t i1 ?e s))"
    by (simp add: map_page_def ix case_prod_beta' bind_assoc)
  show ?thesis
  proof (cases ?walk)
    case None
    have "map_page root vaddr paddr flags s = None" unfolding map None by simp
    moreover have "card (free_set s) < 3" using w unfolding None walked_def by simp
    ultimately show ?thesis by simp
  next
    case (Some x)
    then obtain t s1 where r: "?walk = Some (t, s1)" by (cases x) simp
    from w have 1: "pt_step root ?P s s1" "tbl s1 root [i4, i3, i2] = Some t" "card (free_set s) \<le> card (free_set s1) + 3"
      "\<And>q. length q = 4 \<Longrightarrow> \<forall>k \<in> set q. k < 512 \<Longrightarrow> leaf s1 root q = leaf s root q"
      unfolding r walked_def by simp_all
    note set = set_leaf [OF pt_stepD(1) [OF 1(1)] 1(2) path(4) _ path(6), where v = ?e, simplified]
    have "pt_step root ?P s1 (set_entry t i1 ?e s1)"
      using set_leaf_step [OF pt_stepD(1) [OF 1(1)] 1(2) path(4) _ path(6)] by (simp add: pt)
    then have "pt_step root ?P s (set_entry t i1 ?e s1)"
      using pt_step_trans [OF 1(1) _ path_tables_valid [of _ vaddr]] by blast
    then show ?thesis
      unfolding map r using 1(3,4) set(1) [OF path(4)] set(3) 1(2) by (simp add: path(1))
  qed
qed

lemma unmap_page_spec:
  assumes wf: "pt_wf s root"
  shows "pt_step root (path_tables vaddr) s (unmap_page root vaddr s)"
    "length q = 4 \<Longrightarrow> \<forall>k \<in> set q. k < 512 \<Longrightarrow>
      leaf (unmap_page root vaddr s) root q = (if q = path_of vaddr then 0 else leaf s root q)"
    "free_set (unmap_page root vaddr s) = free_set s"
proof -
  obtain i4 i3 i2 i1 where ix: "split_indices vaddr = (i4, i3, i2, i1)" by (metis prod_cases4)
  note path = path_prefixes [OF ix]
  have un: "unmap_page root vaddr s =
      (case tbl s root [i4, i3, i2] of None \<Rightarrow> s | Some t \<Rightarrow> set_entry t i1 0 s)"
    by (simp add: unmap_page_def ix Let_def)
  have "pt_step root (path_tables vaddr) s (unmap_page root vaddr s) \<and>
    (\<forall>q. length q = 4 \<longrightarrow> (\<forall>k \<in> set q. k < 512) \<longrightarrow>
      leaf (unmap_page root vaddr s) root q = (if q = path_of vaddr then 0 else leaf s root q)) \<and>
    free_set (unmap_page root vaddr s) = free_set s"
  proof (cases "tbl s root [i4, i3, i2]")
    case None
    then show ?thesis
      unfolding un using pt_step_refl [OF wf] by (simp add: leaf_def path(1))
  next
    case (Some t)
    have "[i4, i3, i2] \<in> path_tables vaddr" by (simp add: path_tables_def path(1) numeral_nat)
    with Some show ?thesis
      unfolding un using set_leaf_step [OF wf Some path(4) _ path(6)] set_leaf(3) [OF wf Some path(4) _ path(6)]
      by (simp add: path(1))
  qed
  then show "pt_step root (path_tables vaddr) s (unmap_page root vaddr s)"
    "length q = 4 \<Longrightarrow> \<forall>k \<in> set q. k < 512 \<Longrightarrow>
      leaf (unmap_page root vaddr s) root q = (if q = path_of vaddr then 0 else leaf s root q)"
    "free_set (unmap_page root vaddr s) = free_set s" by blast+
qed

lemma virt_to_phys_leaf:
  "virt_to_phys root vaddr s = (let e = leaf s root (path_of vaddr)
     in if is_present e then Some ((e AND ADDR_MASK) OR (vaddr AND 0xFFF)) else None)"
  by (simp add: virt_to_phys_def leaf_def path_of_def is_present_def split_beta Let_def)

subsection \<open>Addresses and paths\<close>

lemma path_of_drop: "drop_bit 12 v = drop_bit 12 w \<Longrightarrow> path_of v = path_of w"
proof -
  assume eq: "drop_bit 12 v = drop_bit 12 w"
  have "drop_bit (12 + n) v = drop_bit (12 + n) w" for n
    using arg_cong [OF eq, of "drop_bit n"] by (simp add: ac_simps)
  from this [of 0] this [of 9] this [of 18] this [of 27] show ?thesis
    by (simp add: path_of_def split_indices_def)
qed

lemma unat_drop_12: "unat (drop_bit 12 v :: u64) = unat v div 4096"
  by (simp add: drop_bit_eq_div unat_div)

lemma path_of_frame: "path_of v = path_of (frame_of (unat v div 4096))"
proof (rule path_of_drop)
  have "unat v div 4096 < 2 ^ 52" using unsigned_less [of v, where ?'a = nat] by (simp add: div_less_iff_less_mult)
  then have "unat (frame_of (unat v div 4096)) div 4096 = unat v div 4096" by (simp add: unat_frame_of)
  then show "drop_bit 12 v = drop_bit 12 (frame_of (unat v div 4096))"
    by (simp only: word_unat_eq_iff unat_drop_12)
qed

lemma page_align: "v AND NOT 0xFFF = frame_of (unat (v :: u64) div 4096)"
proof -
  have eq: "(0xFFF :: u64) = mask 12" by (simp add: mask_eq_exp_minus_1)
  have "v AND NOT 0xFFF = push_bit 12 (drop_bit 12 v)"
    unfolding eq by (rule bit_word_eqI) (auto simp: bit_simps)
  also have "drop_bit 12 v = of_nat (unat v div 4096)"
    by (simp flip: unat_drop_12)
  finally show ?thesis by (simp add: frame_of_push)
qed

subsection \<open>User buffers\<close>

lemma all_ge_Suc: "(\<forall>m \<ge> a. Q m) \<longleftrightarrow> Q a \<and> (\<forall>m \<ge> Suc a. Q m)"
  by (metis Suc_leD Suc_leI le_neq_implies_less order_refl)

lemma validate_pages_exact:
  assumes "unat stop \<le> 2 ^ 64 - 4096" "a \<le> 2 ^ 52 - 1"
  shows "validate_pages root required (frame_of a) stop s =
    Some (\<forall>m \<ge> a. m * 4096 < unat stop \<longrightarrow> debug_translate root (frame_of m) s AND required = required)"
  using assms(2)
proof (induction "unat stop div 4096 + 1 - a" arbitrary: a rule: less_induct)
  case less
  have ua: "unat (frame_of a) = a * 4096" using less.prems by (simp add: unat_frame_of)
  have step: "frame_of a + 0x1000 = frame_of (Suc a)"
    by (simp add: frame_of_def PMM_PAGE_SIZE_def algebra_simps)
  show ?case
  proof (cases "a * 4096 < unat stop")
    case False
    then have "\<not> frame_of a < stop" by (simp add: word_less_nat_alt ua)
    moreover have "\<not> m * 4096 < unat stop" if "a \<le> m" for m
      using False mult_le_mono1 [OF that, of 4096] by linarith
    ultimately show ?thesis by (subst validate_pages.simps) auto
  next
    case True
    then have lt: "frame_of a < stop" by (simp add: word_less_nat_alt ua)
    have "a \<le> unat stop div 4096" using True by (simp add: less_eq_div_iff_mult_less_eq)
    then have "Suc a \<le> 2 ^ 52 - 1" "unat stop div 4096 + 1 - Suc a < unat stop div 4096 + 1 - a"
      using True assms(1) by simp_all
    from less.hyps [OF this(2,1)] lt True show ?thesis
      by (subst validate_pages.simps, subst all_ge_Suc) (simp add: step)
  qed
qed

lemma validate_user_buffer_exact:
  assumes "unat vaddr + unat len \<le> 2 ^ 64 - 4096"
  shows "validate_user_buffer required root vaddr len s =
    Some (len \<noteq> 0 \<and> (\<forall>i < unat len. debug_translate root (vaddr + of_nat i) s AND required = required))"
proof (cases "len = 0")
  case False
  let ?ok = "\<lambda>v. debug_translate root v s AND required = required"
  have stop: "unat (vaddr + len) = unat vaddr + unat len" using assms by (simp add: unat_word_ariths)
  have fr: "?ok v \<longleftrightarrow> ?ok (frame_of (unat v div 4096))" for v
    using path_of_frame [of v] by (simp add: debug_translate_leaf)
  have byte: "unat (vaddr + of_nat i) = unat vaddr + i" if "i < unat len" for i
    using assms that by (simp add: unat_word_ariths unat_of_nat take_bit_nat_eq_self)
  have pages: "(\<forall>m \<ge> unat vaddr div 4096. m * 4096 < unat vaddr + unat len \<longrightarrow> ?ok (frame_of m)) \<longleftrightarrow>
    (\<forall>i < unat len. ?ok (vaddr + of_nat i))" (is "?pages = ?bytes")
  proof
    assume p: ?pages
    show ?bytes
    proof (intro allI impI)
      fix i assume i: "i < unat len"
      have "(unat vaddr + i) div 4096 \<ge> unat vaddr div 4096" by (simp add: div_le_mono)
      moreover have "(unat vaddr + i) div 4096 * 4096 < unat vaddr + unat len"
        using i by (metis add_less_cancel_left div_times_less_eq_dividend order_le_less_trans)
      ultimately have "?ok (frame_of ((unat vaddr + i) div 4096))" using p by blast
      then show "?ok (vaddr + of_nat i)" using fr [of "vaddr + of_nat i"] byte [OF i] by simp
    qed
  next
    assume b: ?bytes
    show ?pages
    proof (intro allI impI)
      fix m assume m: "unat vaddr div 4096 \<le> m" "m * 4096 < unat vaddr + unat len"
      let ?i = "m * 4096 - unat vaddr"
      have "(unat vaddr + ?i) div 4096 = m"
      proof (cases "unat vaddr \<le> m * 4096")
        case False
        then have "m \<le> unat vaddr div 4096" by (simp add: less_eq_div_iff_mult_less_eq)
        with False m(1) show ?thesis by simp
      qed simp
      moreover have i: "?i < unat len" using m(2) False by (cases "unat vaddr \<le> m * 4096") (auto simp: unat_gt_0)
      ultimately show "?ok (frame_of m)" using b fr [of "vaddr + of_nat ?i"] byte [OF i] by auto
    qed
  qed
  have "unat vaddr div 4096 \<le> 2 ^ 52 - 1"
    using unsigned_less [of vaddr, where ?'a = nat] by (simp add: div_le_mono)
  from validate_pages_exact [OF _ this, of "vaddr + len"]
  have "validate_pages root required (vaddr AND NOT 0xFFF) (vaddr + len) s = Some (\<forall>i < unat len. ?ok (vaddr + of_nat i))"
    unfolding page_align pages [symmetric] stop using assms by simp
  moreover have "\<not> unat vaddr + unat len \<ge> 2 ^ 64" using assms by simp
  ultimately show ?thesis using False by (simp add: validate_user_buffer_def)
qed (simp add: validate_user_buffer_def)

end
