(* ===== verification/Address_Space.thy ===== *)
theory Address_Space
  imports Page_Tables
begin

text \<open>
  Address spaces of \<^verbatim>\<open>kernel_rs/src/vmm.rs\<close>: what a new one shares with the kernel, that what happens in the
  user half of one is invisible in another, which frames are given back when one is destroyed, and which
  permissions the kernel's own tables have after start-up.
\<close>

subsection \<open>Trees that a change does not touch\<close>

definition all_tables :: "'a pmm_scheme \<Rightarrow> u64 \<Rightarrow> u64 set" where
  "all_tables s root = {t. \<exists>p. valid_path 3 p \<and> tbl s root p = Some t}"

definition user_tables :: "'a pmm_scheme \<Rightarrow> u64 \<Rightarrow> u64 set" where
  "user_tables s root = {t. \<exists>p. valid_path 3 p \<and> (p = [] \<or> hd p < 256) \<and> tbl s root p = Some t}"

definition separate :: "'a pmm_scheme \<Rightarrow> u64 \<Rightarrow> u64 \<Rightarrow> bool" where
  "separate s r1 r2 \<longleftrightarrow> user_tables s r1 \<inter> all_tables s r2 = {}"

lemma length_4:
  assumes "length q = 4"
  obtains a b c d where "q = [a, b, c, d]"
  using assms by (auto simp: numeral_eq_Suc length_Suc_conv)

lemma tbl_same:
  assumes "\<And>t j. t \<in> all_tables s root \<Longrightarrow> j < 512 \<Longrightarrow> get_entry t j s' = get_entry t j s"
  shows "valid_path 3 q \<Longrightarrow> tbl s' root q = tbl s root q"
proof (induction q rule: rev_induct)
  case (snoc j q)
  then have q: "valid_path 3 q" "j < 512" by (simp_all add: valid_path_snoc)
  then have "get_entry t j s' = get_entry t j s" if "tbl s root q = Some t" for t
    using assms [of t j] that by (auto simp: all_tables_def)
  with snoc.IH [OF q(1)] show ?case by (simp add: tbl_snoc split: option.split)
qed simp

lemma leaf_same:
  assumes "\<And>t j. t \<in> all_tables s root \<Longrightarrow> j < 512 \<Longrightarrow> get_entry t j s' = get_entry t j s"
    and "length q = 4" "\<forall>k \<in> set q. k < 512"
  shows "leaf s' root q = leaf s root q"
proof -
  have same: "tbl s' root p = tbl s root p" if "valid_path 3 p" for p
    by (rule tbl_same [OF assms(1) that])
  have entry: "get_entry t j s' = get_entry t j s" if "valid_path 3 p" "tbl s root p = Some t" "j < 512" for p t j
    using assms(1) [of t j] that by (auto simp: all_tables_def)
  show ?thesis by (rule leaf_cong [OF assms(2,3)]) (simp_all add: same entry)
qed

lemma pt_wf_same:
  assumes "pt_wf s root" "\<And>t j. t \<in> all_tables s root \<Longrightarrow> j < 512 \<Longrightarrow> get_entry t j s' = get_entry t j s"
    and "pmm_wf s'" "TOTAL_SPAN_PAGES s' = TOTAL_SPAN_PAGES s" "free_set s' \<subseteq> free_set s"
  shows "pt_wf s' root"
proof -
  have "table_ok s' f" if "table_ok s f" for f
    using that assms(4,5) by (auto simp: table_ok_def)
  with assms tbl_same [OF assms(2)] show ?thesis by (simp add: pt_wf_def)
qed

lemma pt_fields:
  assumes "PHYS s' = PHYS s" "USED_BITMAP s' = USED_BITMAP s" "RESERVED_BITMAP s' = RESERVED_BITMAP s"
    "TOTAL_SPAN_PAGES s' = TOTAL_SPAN_PAGES s" "STATS s' = STATS s"
  shows "pt_wf s' r = pt_wf s r" "free_set s' = free_set s" "leaf s' r q = leaf s r q"
proof -
  show fs: "free_set s' = free_set s" by (simp add: free_set_def assms)
  have get: "get_entry t i s' = get_entry t i s" for t i by (simp add: get_entry_def assms)
  have tbl: "tbl s' t p = tbl s t p" for t p by (induction p arbitrary: t) (simp_all add: get)
  show "leaf s' r q = leaf s r q" by (simp add: leaf_def get tbl split: option.split)
  have "table_ok s' f = table_ok s f" for f by (simp add: table_ok_def fs assms)
  moreover have "pmm_wf s' = pmm_wf s" by (simp add: pmm_wf_def fs assms)
  ultimately show "pt_wf s' r = pt_wf s r" by (simp add: pt_wf_def tbl assms)
qed

lemma all_tables_ok: "pt_wf s root \<Longrightarrow> t \<in> all_tables s root \<Longrightarrow> table_ok s t"
  by (auto simp: all_tables_def dest: pt_wfD(3))

lemma user_tables_sub: "user_tables s root \<subseteq> all_tables s root"
  by (auto simp: user_tables_def all_tables_def)

subsection \<open>What happens in one address space is invisible in another\<close>

datatype space_op = MapUser u64 u64 u64 | UnmapUser u64

primrec op_addr :: "space_op \<Rightarrow> u64" where
  "op_addr (MapUser vaddr paddr flags) = vaddr"
| "op_addr (UnmapUser vaddr) = vaddr"

primrec run_op :: "u64 \<Rightarrow> space_op \<Rightarrow> 'a pmm_scheme \<Rightarrow> 'a pmm_scheme option" where
  "run_op root (MapUser vaddr paddr flags) s = map_page_in root vaddr paddr flags s"
| "run_op root (UnmapUser vaddr) s = Some (unmap_page root vaddr s)"

definition user_addr :: "u64 \<Rightarrow> bool" where
  "user_addr v \<longleftrightarrow> v < 0x800000000000"

lemma user_addr_path: "user_addr v \<Longrightarrow> hd (path_of v) < 256"
proof -
  assume "user_addr v"
  then have "unat v < 256 * 2 ^ 39" by (simp add: user_addr_def word_less_nat_alt)
  then have "unat (drop_bit 39 v) < 256"
    by (simp add: drop_bit_eq_div unat_div less_mult_imp_div_less)
  moreover have "unat (drop_bit 39 v AND 0x1ff) \<le> unat (drop_bit 39 v)"
    by (simp add: word_and_le1 word_and_le2 flip: word_le_nat_alt)
  ultimately show ?thesis by (simp add: path_of_def split_indices_def)
qed

lemma run_op_step:
  assumes "pt_wf s root" "run_op root op s = Some s'"
  shows "pt_step root (path_tables (op_addr op)) s s'"
  using assms map_page_spec [OF assms(1)] unmap_page_spec(1) [OF assms(1)]
  by (cases op) (fastforce simp: map_page_in_def split: option.splits)+

lemma path_tables_user:
  assumes "user_addr v" "q \<in> path_tables v" "tbl s root q = Some t"
  shows "t \<in> user_tables s root"
proof -
  have "q = [] \<or> hd q < 256"
    using assms(2) user_addr_path [OF assms(1)] by (auto simp: path_tables_def hd_take)
  then show ?thesis
    using path_tables_valid [OF assms(2)] assms(3) by (auto simp: user_tables_def)
qed

lemma step_other_space:
  assumes "pt_wf s r1" "pt_wf s r2" "separate s r1 r2" "user_addr v" "pt_step r1 (path_tables v) s s'"
  shows "\<And>t j. t \<in> all_tables s r2 \<Longrightarrow> j < 512 \<Longrightarrow> get_entry t j s' = get_entry t j s"
    "pt_wf s' r2" "separate s' r1 r2"
proof -
  show same: "get_entry t j s' = get_entry t j s" if "t \<in> all_tables s r2" "j < 512" for t j
    using pt_stepD(7) [OF assms(5) all_tables_ok [OF assms(2) that(1)] that(2)]
      path_tables_user [OF assms(4), of _ s r1 t] that(1) assms(3) by (auto simp: separate_def)
  show "pt_wf s' r2"
    using pt_wf_same [OF assms(2) same] pt_stepD(1,2,5) [OF assms(5)] pt_wfD(1) by blast
  have "all_tables s' r2 = all_tables s r2"
    using tbl_same [of s r2 s', OF same] unfolding all_tables_def by auto
  moreover have "t \<in> user_tables s r1 \<or> \<not> table_ok s t" if "t \<in> user_tables s' r1" for t
    using that pt_stepD(6) [OF assms(5)] by (fastforce simp: user_tables_def)
  ultimately show "separate s' r1 r2"
    using assms(3) all_tables_ok [OF assms(2)] by (fastforce simp: separate_def)
qed

lemma run_ops_other_space:
  assumes "pt_wf s r1" "pt_wf s r2" "separate s r1 r2" "\<forall>op \<in> set ops. user_addr (op_addr op)"
    and "fold_opt (run_op r1) ops s = Some s'"
  shows "pt_wf s' r1 \<and> pt_wf s' r2 \<and> separate s' r1 r2 \<and> (\<forall>v. debug_translate r2 v s' = debug_translate r2 v s)"
  using assms
proof (induction ops arbitrary: s)
  case (Cons op ops)
  then obtain s1 where s1: "run_op r1 op s = Some s1" "fold_opt (run_op r1) ops s1 = Some s'"
    by (auto split: option.splits)
  note step = run_op_step [OF Cons.prems(1) s1(1)]
  have user: "user_addr (op_addr op)" using Cons.prems(4) by simp
  note other = step_other_space [OF Cons.prems(1-3) user step]
  have "debug_translate r2 v s1 = debug_translate r2 v s" for v
    unfolding debug_translate_leaf using leaf_same [OF other(1)] path_of_valid(1,2) by blast
  with Cons.IH [OF pt_stepD(1) [OF step] other(2,3) _ s1(2)] Cons.prems(4) show ?case by simp
qed simp

subsection \<open>A new address space\<close>

lemma vmm_fields:
  assumes "pmm.more s' = pmm.more s"
  shows "KERNEL_PML4_PHYS s' = KERNEL_PML4_PHYS s" "CR3 s' = CR3 s"
  using assms by (cases s; cases s'; simp)+

lemma copy_entries:
  assumes "unat (TOTAL_SPAN_PAGES s) \<le> 2 ^ 40" "table_ok s new" "table_ok s (KERNEL_PML4_PHYS s)"
    "new \<noteq> KERNEL_PML4_PHYS s" "set xs \<subseteq> {..<512}"
  defines "s' \<equiv> fold (\<lambda>i s. set_entry new i (get_entry (KERNEL_PML4_PHYS s) i s) s) xs s"
  shows "(\<forall>u j. table_ok s u \<longrightarrow> j < 512 \<longrightarrow>
      get_entry u j s' = (if u = new \<and> j \<in> set xs then get_entry (KERNEL_PML4_PHYS s) j s else get_entry u j s)) \<and>
    free_set s' = free_set s \<and> pmm_wf s' = pmm_wf s \<and> TOTAL_SPAN_PAGES s' = TOTAL_SPAN_PAGES s \<and>
    pmm.more s' = pmm.more s"
  unfolding s'_def using assms(1-5)
proof (induction xs arbitrary: s)
  case (Cons i xs)
  let ?k = "KERNEL_PML4_PHYS s"
  let ?s = "set_entry new i (get_entry ?k i s) s"
  let ?copy = "\<lambda>i s. set_entry new i (get_entry (KERNEL_PML4_PHYS s) i s) s"
  have k: "KERNEL_PML4_PHYS ?s = ?k" by (rule vmm_fields) simp
  have i: "i < 512" using Cons.prems(5) by simp
  have get: "get_entry u j ?s = (if u = new \<and> j = i then get_entry ?k i s else get_entry u j s)"
    if "table_ok s u" "j < 512" for u j
    by (rule get_set_entry [OF Cons.prems(1,2) that(1) i that(2)])
  have IH: "(\<forall>u j. table_ok s u \<longrightarrow> j < 512 \<longrightarrow>
      get_entry u j (fold ?copy xs ?s) = (if u = new \<and> j \<in> set xs then get_entry ?k j ?s else get_entry u j ?s))"
    "free_set (fold ?copy xs ?s) = free_set s" "pmm_wf (fold ?copy xs ?s) = pmm_wf s"
    "TOTAL_SPAN_PAGES (fold ?copy xs ?s) = TOTAL_SPAN_PAGES s" "pmm.more (fold ?copy xs ?s) = pmm.more s"
    using Cons.IH [of ?s] Cons.prems(1-5) by (simp_all add: k)
  have "get_entry u j (fold ?copy xs ?s) = (if u = new \<and> j \<in> set (i # xs) then get_entry ?k j s else get_entry u j s)"
    if "table_ok s u" "j < 512" for u j
  proof -
    have "get_entry ?k j ?s = get_entry ?k j s"
      using get [OF Cons.prems(3) that(2)] Cons.prems(4) by simp
    moreover have "get_entry u j (fold ?copy xs ?s) = (if u = new \<and> j \<in> set xs then get_entry ?k j ?s else get_entry u j ?s)"
      using IH(1) that by blast
    ultimately show ?thesis unfolding get [OF that] by auto
  qed
  with IH(2-5) show ?case by simp
qed simp


lemma new_address_space_spec:
  assumes wf: "pt_wf s (KERNEL_PML4_PHYS s)" and free: "free_set s \<noteq> {}"
  shows "\<exists>n s'. n \<in> free_set s \<and> new_address_space s = Some (frame_of n, s') \<and> pmm_wf s' \<and>
    free_set s' = free_set s - {n} \<and> TOTAL_SPAN_PAGES s' = TOTAL_SPAN_PAGES s \<and> pmm.more s' = pmm.more s \<and>
    \<not> table_ok s (frame_of n) \<and>
    (\<forall>u j. table_ok s u \<longrightarrow> j < 512 \<longrightarrow> get_entry u j s' = get_entry u j s) \<and>
    (\<forall>j < 512. get_entry (frame_of n) j s' = (if j < 256 then 0 else get_entry (KERNEL_PML4_PHYS s) j s))"
proof -
  note span = pt_wfD(2) [OF wf]
  obtain n s1 where n: "n \<in> free_set s" and a: "alloc_page s = Some (frame_of n, s1)" and
    s1: "pmm_wf s1" "free_set s1 = free_set s - {n}" "PHYS s1 = zero_page (frame_of n) (PHYS s)"
      "TOTAL_SPAN_PAGES s1 = TOTAL_SPAN_PAGES s" "pmm.more s1 = pmm.more s"
    using alloc_page_spec [OF pt_wfD(1) [OF wf]] free by auto
  note z = get_entry_zeroed [OF span n s1(3)]
  have fresh: "\<not> table_ok s (frame_of n)" using z(3) [of 0] by simp
  have kok: "table_ok s (KERNEL_PML4_PHYS s)"
    using pt_wfD(3) [OF wf, of "[]"] by (simp add: valid_path_def)
  have ok1: "table_ok s1 u" if "table_ok s u \<or> u = frame_of n" for u
    using that n unfolding table_ok_def s1(2,4) by (auto simp: free_set_def)
  have k1: "KERNEL_PML4_PHYS s1 = KERNEL_PML4_PHYS s" by (rule vmm_fields(1) [OF s1(5)])
  define ix where "ix = [256..<512 :: nat]"
  have ix: "set ix = {256..<512}" unfolding ix_def set_upt ..
  let ?s = "fold (\<lambda>i s. set_entry (frame_of n) i (get_entry (KERNEL_PML4_PHYS s) i s) s) ix s1"
  have ne: "frame_of n \<noteq> KERNEL_PML4_PHYS s1" using fresh kok k1 by metis
  have pre: "unat (TOTAL_SPAN_PAGES s1) \<le> 2 ^ 40" "table_ok s1 (frame_of n)" "table_ok s1 (KERNEL_PML4_PHYS s1)"
    "set ix \<subseteq> {..<512}"
    using span s1(4) ok1 kok k1 by (auto simp: ix)
  have c: "\<And>u j. table_ok s1 u \<Longrightarrow> j < 512 \<Longrightarrow> get_entry u j ?s =
      (if u = frame_of n \<and> j \<in> set ix then get_entry (KERNEL_PML4_PHYS s1) j s1 else get_entry u j s1)"
    "free_set ?s = free_set s1" "pmm_wf ?s = pmm_wf s1" "TOTAL_SPAN_PAGES ?s = TOTAL_SPAN_PAGES s1"
    "pmm.more ?s = pmm.more s1"
    using copy_entries [OF pre(1-3) ne pre(4)] by blast+
  have "new_address_space s = Some (frame_of n, ?s)" unfolding new_address_space_def ix_def [symmetric] by (simp add: a)
  moreover have "get_entry u j ?s = get_entry u j s" if "table_ok s u" "j < 512" for u j
    using c(1) [OF ok1, of u j] z(1) [OF that(2,1)] that fresh by (auto simp: ix)
  moreover have "get_entry (frame_of n) j ?s = (if j < 256 then 0 else get_entry (KERNEL_PML4_PHYS s) j s)" if "j < 512" for j
    using c(1) [OF ok1, of "frame_of n" j] z(1) [OF that kok] z(2) [OF that] that k1 by (auto simp: ix)
  ultimately show ?thesis using n s1 c(2-5) fresh by auto
qed

lemma new_space_tbl:
  assumes wf: "pt_wf s k" and fresh: "\<not> table_ok s r"
    and other: "\<And>u j. table_ok s u \<Longrightarrow> j < 512 \<Longrightarrow> get_entry u j s' = get_entry u j s"
    and own: "\<And>j. j < 512 \<Longrightarrow> get_entry r j s' = (if j < 256 then 0 else get_entry k j s)"
  shows "valid_path 3 q \<Longrightarrow> tbl s' r q = (if q = [] then Some r else if hd q < 256 then None else tbl s k q)"
proof (induction q rule: rev_induct)
  case (snoc j q)
  then have q: "valid_path 3 q" "j < 512" by (simp_all add: valid_path_snoc)
  show ?case
  proof (cases "q = []")
    case True
    with own [OF q(2)] show ?thesis by (simp add: is_present_def)
  next
    case False
    have "get_entry t j s' = get_entry t j s" if "tbl s k q = Some t" for t
      using other [OF pt_wfD(3) [OF wf q(1) that] q(2)] .
    with False snoc.IH [OF q(1)] show ?thesis by (auto simp: tbl_snoc split: option.split)
  qed
qed simp

lemma new_space_wf:
  assumes wf: "pt_wf s k" and fresh: "\<not> table_ok s r" and r: "table_ok s' r"
    and other: "\<And>u j. table_ok s u \<Longrightarrow> j < 512 \<Longrightarrow> get_entry u j s' = get_entry u j s"
    and own: "\<And>j. j < 512 \<Longrightarrow> get_entry r j s' = (if j < 256 then 0 else get_entry k j s)"
    and s': "pmm_wf s'" "TOTAL_SPAN_PAGES s' = TOTAL_SPAN_PAGES s" "free_set s' \<subseteq> free_set s"
  shows "pt_wf s' r" "user_tables s' r = {r}" "all_tables s' r \<subseteq> insert r (all_tables s k)"
    "length q = 4 \<Longrightarrow> \<forall>j \<in> set q. j < 512 \<Longrightarrow> leaf s' r q = (if hd q < 256 then 0 else leaf s k q)"
proof -
  have tbl: "tbl s' r q = (if q = [] then Some r else if hd q < 256 then None else tbl s k q)"
    if "valid_path 3 q" for q
    by (rule new_space_tbl [OF wf fresh other own that])
  have ok: "table_ok s f \<Longrightarrow> table_ok s' f" for f
    using s'(2,3) by (auto simp: table_ok_def)
  have old: "tbl s k q = Some f" if "valid_path 3 q" "q \<noteq> []" "tbl s' r q = Some f" for q f
    using tbl [OF that(1)] that(2,3) by (auto split: if_splits)
  show "pt_wf s' r"
    unfolding pt_wf_def
  proof (intro conjI allI impI)
    show "pmm_wf s'" "unat (TOTAL_SPAN_PAGES s') \<le> 2 ^ 40" using s' pt_wfD(2) [OF wf] by simp_all
  next
    fix q f assume "valid_path 3 q" "tbl s' r q = Some f"
    then show "table_ok s' f"
      using old [of q f] pt_wfD(3) [OF wf, of q f] ok r by (cases "q = []") auto
  next
    fix p q f assume pq: "valid_path 3 p" "valid_path 3 q" "tbl s' r p = Some f" "tbl s' r q = Some f"
    have "table_ok s f" if "valid_path 3 q" "q \<noteq> []" "tbl s' r q = Some f" for q
      using pt_wfD(3) [OF wf that(1) old [OF that]] .
    then have "p = [] \<longleftrightarrow> q = []" using pq fresh by (cases "p = []"; cases "q = []") auto
    with pq old [of p f] old [of q f] pt_wfD(4) [OF wf, of p q f] show "p = q" by blast
  qed
  show "user_tables s' r = {r}"
  proof
    show "{r} \<subseteq> user_tables s' r" by (auto simp: user_tables_def valid_path_def intro: exI [of _ "[]"])
    show "user_tables s' r \<subseteq> {r}" using tbl by (auto simp: user_tables_def split: if_splits)
  qed
  show "all_tables s' r \<subseteq> insert r (all_tables s k)"
    using tbl by (auto simp: all_tables_def split: if_splits)
  show "leaf s' r q = (if hd q < 256 then 0 else leaf s k q)"
    if len: "length q = 4" and small: "\<forall>j \<in> set q. j < 512" for q
  proof -
    obtain a b c d where "q = [a, b, c, d]" using length_4 [OF len] .
    then have q: "valid_path 3 (butlast q)" "butlast q \<noteq> []" "hd (butlast q) = hd q" "last q < 512"
      using small by (simp_all add: valid_path_def)
    show ?thesis
      using tbl [OF q(1)] q(2,3) other [OF pt_wfD(3) [OF wf q(1)] q(4)]
      by (simp add: leaf_def split: option.split)
  qed
qed

subsection \<open>Destroying an address space\<close>

definition freed :: "'a pmm_scheme \<Rightarrow> u64 \<Rightarrow> nat set" where
  "freed s f = {n. f = frame_of n \<and> n < unat (TOTAL_SPAN_PAGES s) \<and> \<not> bm_bit (RESERVED_BITMAP s) n}"

definition same_memory :: "'a pmm_scheme \<Rightarrow> 'a pmm_scheme \<Rightarrow> bool" where
  "same_memory s0 s \<longleftrightarrow> pmm_wf s \<and> PHYS s = PHYS s0 \<and> TOTAL_SPAN_PAGES s = TOTAL_SPAN_PAGES s0 \<and>
     RESERVED_BITMAP s = RESERVED_BITMAP s0 \<and> pmm.more s = pmm.more s0"

lemma free_page_more: "free_page f s = Some s' \<Longrightarrow> pmm.more s' = pmm.more s"
  by (auto simp: free_page_def Let_def split: if_splits bind_splits)

lemma free_page_union:
  assumes "same_memory s0 s"
  shows "\<exists>s'. free_page f s = Some s' \<and> same_memory s0 s' \<and> free_set s' = free_set s \<union> freed s0 f"
proof -
  have wf: "pmm_wf s" and eq: "TOTAL_SPAN_PAGES s0 = TOTAL_SPAN_PAGES s" "RESERVED_BITMAP s0 = RESERVED_BITMAP s"
    using assms by (auto simp: same_memory_def)
  let ?c = "\<exists>n. f = frame_of n \<and> n < unat (TOTAL_SPAN_PAGES s) \<and> \<not> bm_bit (RESERVED_BITMAP s) n \<and> bm_bit (USED_BITMAP s) n"
  obtain s' where s': "free_page f s = Some s'" "pmm_wf s'" "RESERVED_BITMAP s' = RESERVED_BITMAP s" "PHYS s' = PHYS s"
    "TOTAL_SPAN_PAGES s' = TOTAL_SPAN_PAGES s"
    "if ?c then free_set s' = insert (unat (f div PMM_PAGE_SIZE)) (free_set s) else s' = s"
    using free_page_spec [OF wf, of f] by (elim exE conjE) (rule that; assumption)
  have idx: "n = unat (f div PMM_PAGE_SIZE)" if "f = frame_of n" "n < unat (TOTAL_SPAN_PAGES s)" for n
    using frame_of_index(1) [of n] that pmm_wfD(3) [OF wf] by simp
  have "free_set s' = free_set s \<union> freed s0 f"
  proof (cases ?c)
    case True
    then obtain n where n: "f = frame_of n" "n < unat (TOTAL_SPAN_PAGES s)" "\<not> bm_bit (RESERVED_BITMAP s) n"
      by (elim exE conjE) (rule that; assumption)
    have "x = n" if "x \<in> freed s0 f" for x
      using that idx [OF n(1,2)] idx [of x] unfolding freed_def eq by simp
    moreover have "n \<in> freed s0 f" using n by (simp add: freed_def eq)
    ultimately have "freed s0 f = {n}" by blast
    with s'(6) show ?thesis unfolding if_P [OF True] idx [OF n(1,2), symmetric] by simp
  next
    case False
    have "x \<in> free_set s" if "x \<in> freed s0 f" for x
      using False that unfolding freed_def eq free_set_def by blast
    then have "freed s0 f \<subseteq> free_set s" by (rule subsetI)
    with s'(6) show ?thesis unfolding if_not_P [OF False] by blast
  qed
  moreover have "same_memory s0 s'" using s'(2-5) free_page_more [OF s'(1)] assms by (simp add: same_memory_def)
  ultimately show ?thesis using s'(1) by blast
qed

text \<open>The frames below an entry, as the nested loops reach them.\<close>

definition below_leaf :: "'a pmm_scheme \<Rightarrow> u64 \<Rightarrow> nat \<Rightarrow> nat set" where
  "below_leaf s t i = (if is_present (get_entry t i s) then freed s (get_entry t i s AND ADDR_MASK) else {})"

definition below :: "('a pmm_scheme \<Rightarrow> u64 \<Rightarrow> nat \<Rightarrow> nat set) \<Rightarrow> 'a pmm_scheme \<Rightarrow> u64 \<Rightarrow> nat \<Rightarrow> nat set" where
  "below A s t i = (if is_present (get_entry t i s)
     then freed s (get_entry t i s AND ADDR_MASK) \<union> (\<Union>j < 512. A s (get_entry t i s AND ADDR_MASK) j) else {})"

definition frees :: "('a pmm_scheme \<Rightarrow> 'a pmm_scheme option) \<Rightarrow> 'a pmm_scheme \<Rightarrow> nat set \<Rightarrow> bool" where
  "frees f s0 A \<longleftrightarrow> (\<forall>s. same_memory s0 s \<longrightarrow> (\<exists>s'. f s = Some s' \<and> same_memory s0 s' \<and> free_set s' = free_set s \<union> A))"

lemma get_entry_same: "same_memory s0 s \<Longrightarrow> get_entry t i s = get_entry t i s0"
  by (simp add: get_entry_def same_memory_def)

lemma frees_leaf: "frees (free_leaf t i) s0 (below_leaf s0 t i)"
  using free_page_union [of s0] by (simp add: frees_def free_leaf_def below_leaf_def get_entry_same Let_def)

lemma frees_loop:
  assumes "\<And>i. i \<in> set xs \<Longrightarrow> frees (f i) s0 (A i)"
  shows "frees (fold_opt f xs) s0 (\<Union>i \<in> set xs. A i)"
  unfolding frees_def
proof (intro allI impI)
  fix s assume s: "same_memory s0 s"
  show "\<exists>s'. fold_opt f xs s = Some s' \<and> same_memory s0 s' \<and> free_set s' = free_set s \<union> (\<Union>i \<in> set xs. A i)"
    by (rule fold_opt_union [where P = "same_memory s0", OF _ s]) (use assms in \<open>simp add: frees_def\<close>)
qed

lemma frees_seq:
  assumes "frees f s0 A" "frees g s0 B"
  shows "frees (\<lambda>s. f s \<bind> g) s0 (A \<union> B)"
  unfolding frees_def
proof (intro allI impI)
  fix s assume "same_memory s0 s"
  then obtain s1 where s1: "f s = Some s1" "same_memory s0 s1" "free_set s1 = free_set s \<union> A"
    using assms(1) unfolding frees_def by blast
  then obtain s2 where "g s1 = Some s2" "same_memory s0 s2" "free_set s2 = free_set s1 \<union> B"
    using assms(2) unfolding frees_def by blast
  with s1 show "\<exists>s'. f s \<bind> g = Some s' \<and> same_memory s0 s' \<and> free_set s' = free_set s \<union> (A \<union> B)"
    by (simp add: Un_assoc)
qed

lemma frees_below:
  assumes "\<And>t i. frees (visit t i) s0 (A s0 t i)"
  shows "frees (free_below visit t i) s0 (below A s0 t i)"
proof -
  let ?b = "get_entry t i s0 AND ADDR_MASK"
  have "frees (fold_opt (visit ?b) [0..<512]) s0 (\<Union>j < 512. A s0 ?b j)"
    using frees_loop [of "[0..<512]" "visit ?b" s0 "A s0 ?b", OF assms]
    unfolding set_upt atLeast0LessThan .
  moreover have "frees (free_page ?b) s0 (freed s0 ?b)"
    using free_page_union [of s0] by (simp add: frees_def)
  ultimately have "frees (\<lambda>s. fold_opt (visit ?b) [0..<512] s \<bind> free_page ?b) s0 ((\<Union>j < 512. A s0 ?b j) \<union> freed s0 ?b)"
    by (rule frees_seq)
  then show ?thesis
    unfolding frees_def free_below_def below_def Let_def
    using get_entry_same [of s0 _ t i] by (simp add: Un_commute del: upt_rec_numeral)
qed

text \<open>The frames of the user half: its tables, the root included, and the frames its present leaves map.\<close>

definition leaf_frame :: "'a pmm_scheme \<Rightarrow> u64 \<Rightarrow> nat list \<Rightarrow> nat \<Rightarrow> u64 \<Rightarrow> bool" where
  "leaf_frame s root p i f \<longleftrightarrow> is_present (leaf s root (p @ [i])) \<and> f = leaf s root (p @ [i]) AND ADDR_MASK"

definition frame_below :: "(nat list \<Rightarrow> nat \<Rightarrow> u64 \<Rightarrow> bool) \<Rightarrow> 'a pmm_scheme \<Rightarrow> u64 \<Rightarrow> nat list \<Rightarrow> nat \<Rightarrow> u64 \<Rightarrow> bool" where
  "frame_below Q s root p i f \<longleftrightarrow> tbl s root (p @ [i]) = Some f \<or> (\<exists>j < 512. Q (p @ [i]) j f)"

definition user_frame :: "'a pmm_scheme \<Rightarrow> u64 \<Rightarrow> u64 \<Rightarrow> bool" where
  "user_frame s root f \<longleftrightarrow> f = root \<or>
     (\<exists>i < 256. frame_below (frame_below (frame_below (leaf_frame s root) s root) s root) s root [] i f)"

lemma user_frame_phys:
  assumes "PHYS s' = PHYS s"
  shows "user_frame s' root = user_frame s root"
proof -
  have get: "get_entry t i s' = get_entry t i s" for t i by (simp add: get_entry_def assms)
  have tbl: "tbl s' t p = tbl s t p" for t p by (induction p arbitrary: t) (simp_all add: get)
  have leaf: "leaf s' root p = leaf s root p" for p by (simp add: leaf_def get tbl split: option.split)
  show ?thesis
    by (intro ext) (simp add: user_frame_def frame_below_def leaf_frame_def leaf tbl del: tbl.simps)
qed

definition covers :: "'a pmm_scheme \<Rightarrow> u64 \<Rightarrow> (u64 \<Rightarrow> nat \<Rightarrow> nat set) \<Rightarrow> (nat list \<Rightarrow> nat \<Rightarrow> u64 \<Rightarrow> bool) \<Rightarrow> bool" where
  "covers s root A Q \<longleftrightarrow>
     (\<forall>p t i n. tbl s root p = Some t \<longrightarrow> (n \<in> A t i \<longleftrightarrow> (\<exists>f. n \<in> freed s f \<and> Q p i f))) \<and>
     (\<forall>p i f. Q p i f \<longrightarrow> (\<exists>t. tbl s root p = Some t))"

lemma covers_leaf: "covers s root (below_leaf s) (leaf_frame s root)"
  unfolding covers_def
proof (intro conjI allI impI)
  fix p t i n assume "tbl s root p = Some t"
  then show "n \<in> below_leaf s t i \<longleftrightarrow> (\<exists>f. n \<in> freed s f \<and> leaf_frame s root p i f)"
    by (auto simp: below_leaf_def leaf_frame_def leaf_def)
next
  fix p i f assume "leaf_frame s root p i f"
  then show "\<exists>t. tbl s root p = Some t"
    by (auto simp: leaf_frame_def leaf_def is_present_def split: option.splits)
qed

lemma covers_below:
  assumes "covers s root (A s) Q"
  shows "covers s root (below A s) (frame_below Q s root)"
  unfolding covers_def
proof (intro conjI allI impI)
  have A: "\<And>p t i n. tbl s root p = Some t \<Longrightarrow> n \<in> A s t i \<longleftrightarrow> (\<exists>f. n \<in> freed s f \<and> Q p i f)"
    and Q: "\<And>p i f. Q p i f \<Longrightarrow> \<exists>t. tbl s root p = Some t"
    using assms unfolding covers_def by blast+
  fix p t i n assume "tbl s root p = Some t"
  then have "n \<in> below A s t i \<longleftrightarrow> (\<exists>u. tbl s root (p @ [i]) = Some u \<and> (n \<in> freed s u \<or> (\<exists>j < 512. n \<in> A s u j)))"
    by (simp add: below_def tbl_snoc Bex_def)
  also have "\<dots> \<longleftrightarrow> (\<exists>f. n \<in> freed s f \<and> frame_below Q s root p i f)"
    unfolding frame_below_def using A [of "p @ [i]"] Q [of "p @ [i]"] by blast
  finally show "n \<in> below A s t i \<longleftrightarrow> (\<exists>f. n \<in> freed s f \<and> frame_below Q s root p i f)" .
next
  have Q: "\<And>p i f. Q p i f \<Longrightarrow> \<exists>t. tbl s root p = Some t"
    using assms unfolding covers_def by blast
  fix p i f assume "frame_below Q s root p i f"
  then obtain u where "tbl s root (p @ [i]) = Some u"
    using Q [of "p @ [i]"] unfolding frame_below_def by blast
  then show "\<exists>t. tbl s root p = Some t" by (auto simp: tbl_snoc split: option.splits)
qed

lemma destroy_spec:
  assumes wf: "pmm_wf s" and root: "root \<noteq> 0" "root \<noteq> KERNEL_PML4_PHYS s"
  shows "\<exists>s'. destroy_address_space root s = Some s' \<and> pmm_wf s' \<and> PHYS s' = PHYS s \<and>
    CR3 s' = (if current_cr3 s = root then KERNEL_PML4_PHYS s else CR3 s) \<and>
    free_set s' = free_set s \<union>
      {n. n < unat (TOTAL_SPAN_PAGES s) \<and> \<not> bm_bit (RESERVED_BITMAP s) n \<and> user_frame s root (frame_of n)}"
proof -
  define s0 where "s0 = (if current_cr3 s = root then switch_address_space (KERNEL_PML4_PHYS s) s else s)"
  have s0: "PHYS s0 = PHYS s" "USED_BITMAP s0 = USED_BITMAP s" "RESERVED_BITMAP s0 = RESERVED_BITMAP s"
    "TOTAL_SPAN_PAGES s0 = TOTAL_SPAN_PAGES s" "STATS s0 = STATS s"
    "CR3 s0 = (if current_cr3 s = root then KERNEL_PML4_PHYS s else CR3 s)"
    by (simp_all add: s0_def switch_address_space_def)
  have fs: "free_set s0 = free_set s" by (simp add: free_set_def s0)
  have same: "same_memory s0 s0" using wf by (simp add: same_memory_def pmm_wf_def s0 fs)
  let ?visit = "free_below (free_below (free_below free_leaf)) root" and ?A = "below (below (below below_leaf)) s0 root"
  have "frees (fold_opt ?visit [0..<256]) s0 (\<Union>i \<in> set [0..<256]. ?A i)"
    by (intro frees_loop frees_below frees_leaf)
  moreover have "frees (free_page root) s0 (freed s0 root)"
    using free_page_union [of s0] by (simp add: frees_def)
  ultimately have "frees (\<lambda>s. fold_opt ?visit [0..<256] s \<bind> free_page root) s0 ((\<Union>i \<in> set [0..<256]. ?A i) \<union> freed s0 root)"
    by (rule frees_seq)
  then obtain s' where s': "fold_opt ?visit [0..<256] s0 \<bind> free_page root = Some s'" "same_memory s0 s'"
    "free_set s' = free_set s0 \<union> ((\<Union>i \<in> set [0..<256]. ?A i) \<union> freed s0 root)"
    using same unfolding frees_def by blast
  have cov: "covers s0 root (below (below (below below_leaf)) s0)
      (frame_below (frame_below (frame_below (leaf_frame s0 root) s0 root) s0 root) s0 root)"
    by (intro covers_below covers_leaf)
  have "n \<in> ?A i \<longleftrightarrow> (\<exists>f. n \<in> freed s0 f \<and>
      frame_below (frame_below (frame_below (leaf_frame s0 root) s0 root) s0 root) s0 root [] i f)" for n i
    using cov unfolding covers_def by (metis tbl.simps(1))
  then have "n \<in> (\<Union>i \<in> set [0..<256]. ?A i) \<union> freed s0 root \<longleftrightarrow> (\<exists>f. n \<in> freed s0 f \<and> user_frame s0 root f)" for n
    unfolding set_upt user_frame_def by fastforce
  then have "free_set s' = free_set s \<union> {n. n < unat (TOTAL_SPAN_PAGES s) \<and> \<not> bm_bit (RESERVED_BITMAP s) n \<and> user_frame s0 root (frame_of n)}"
    unfolding s'(3) fs freed_def s0 by blast
  moreover have "user_frame s0 root = user_frame s root" by (rule user_frame_phys [OF s0(1)])
  moreover have "destroy_address_space root s = Some s'"
    using root s'(1) unfolding destroy_address_space_def s0_def [symmetric] by (simp add: Let_def)
  moreover have "CR3 s' = CR3 s0" by (rule vmm_fields) (use s'(2) in \<open>simp add: same_memory_def\<close>)
  ultimately show ?thesis using s'(2) s0 by (simp add: same_memory_def)
qed

subsection \<open>Properties\<close>

definition demo_vmm :: vmm where
  "demo_vmm = \<lparr>USED_BITMAP = [0x07, 0, 0], RESERVED_BITMAP = [0x01, 0, 0], TOTAL_SPAN_PAGES = 24, LAST_SCANNED_PAGE = 0,
     STATS = \<lparr>total_physical_span = 24 * 4096, total_usable_memory = 0, reserved_memory = 0, free_pages = 21, used_pages = 3\<rparr>,
     PHYS = (\<lambda>_. 0), KERNEL_PML4_PHYS = 0x1000, LAST_MMIO_PAGE_PADDR = - 1, LAST_FB_PAGE_PADDR = - 1, CR3 = 0x1000\<rparr>"

lemma demo_free_set: "free_set demo_vmm = {3..<24}"
proof -
  have "list_all (\<lambda>n. bm_bit [0x07, 0, 0] n \<longleftrightarrow> n < 3) [0..<24]" by code_simp
  then have "bm_bit [0x07, 0, 0] n \<longleftrightarrow> n < 3" if "n < 24" for n using that by (simp add: list_all_iff)
  then show ?thesis by (auto simp: free_set_def demo_vmm_def)
qed

lemma demo_vmm_wf: "pmm_wf demo_vmm"
proof -
  have "list_all (\<lambda>n. bm_bit [0x01, 0, 0] n \<longrightarrow> bm_bit [0x07, 0, 0] n) [0..<24]" by code_simp
  then have "bm_bit [0x01, 0, 0] n \<longrightarrow> bm_bit [0x07, 0, 0] n" if "n < 24" for n using that by (simp add: list_all_iff)
  moreover have "bm_bit [0x01, 0, 0 :: u8] 0" by (simp add: bm_bit_def)
  ultimately show ?thesis
    using demo_free_set by (simp add: pmm_wf_def demo_vmm_def)
qed

lemma demo_pt_wf:
  assumes "n \<in> {1, 2}"
  shows "pt_wf demo_vmm (frame_of n)" "all_tables demo_vmm (frame_of n) = {frame_of n}"
proof -
  have get: "get_entry t i demo_vmm = 0" for t i by (simp add: get_entry_def demo_vmm_def)
  have tbl: "tbl demo_vmm t p = (if p = [] then Some t else None)" for t p
    by (cases p) (simp_all add: get is_present_def)
  have "table_ok demo_vmm (frame_of n)"
    unfolding table_ok_def demo_free_set using assms by (intro exI [of _ n]) (auto simp: demo_vmm_def)
  moreover have "unat (TOTAL_SPAN_PAGES demo_vmm) \<le> 2 ^ 40" by (simp add: demo_vmm_def)
  ultimately show "pt_wf demo_vmm (frame_of n)"
    using demo_vmm_wf by (simp add: pt_wf_def tbl)
  show "all_tables demo_vmm (frame_of n) = {frame_of n}"
    by (auto simp: all_tables_def tbl valid_path_def split: if_splits)
qed

lemma demo_frames [simp]: "frame_of 1 = 0x1000" "frame_of (Suc 0) = 0x1000" "frame_of 2 = 0x2000"
  by (simp_all add: frame_of_def PMM_PAGE_SIZE_def)

lemma is_present_0 [simp]: "\<not> is_present 0"
  by (simp add: is_present_def)

lemma entry_mask:
  assumes "flags AND ADDR_MASK = 0"
  shows "((paddr AND ADDR_MASK) OR flags OR PAGE_PRESENT) AND ADDR_MASK = paddr AND ADDR_MASK"
    "is_present ((paddr AND ADDR_MASK) OR flags OR PAGE_PRESENT)"
proof -
  have "PAGE_PRESENT AND ADDR_MASK = 0" by (simp add: PAGE_PRESENT_def ADDR_MASK_def)
  with assms show "((paddr AND ADDR_MASK) OR flags OR PAGE_PRESENT) AND ADDR_MASK = paddr AND ADDR_MASK"
    by (simp add: bit.conj_disj_distrib2)
  show "is_present ((paddr AND ADDR_MASK) OR flags OR PAGE_PRESENT)"
    by (simp add: is_present_def PAGE_PRESENT_def and_exp_eq_0_iff_not_bit [of _ 0, simplified] bit_or_iff)
qed

text \<open>
  C13. Mapping and unmapping a page act on the translation as an update at one page. With three free
  frames for tables, mapping succeeds, keeps the tables well formed, sets the entry of exactly the addresses
  with the same table indices, and the address then translates to the given frame at its offset; unmapping
  it afterwards makes it untranslatable and changes no other page.
\<close>

theorem map_page_updates_one_page:
  assumes wf: "pt_wf s root" and free: "3 \<le> card (free_set s)" and flags: "flags AND ADDR_MASK = 0"
  shows "\<exists>s'. map_page root vaddr paddr flags s = Some s' \<and> pt_wf s' root \<and>
    (\<forall>w. debug_translate root w s' =
      (if path_of w = path_of vaddr then (paddr AND ADDR_MASK) OR flags OR PAGE_PRESENT else debug_translate root w s)) \<and>
    virt_to_phys root vaddr s' = Some ((paddr AND ADDR_MASK) OR (vaddr AND 0xFFF)) \<and>
    pt_wf (unmap_page root vaddr s') root \<and> virt_to_phys root vaddr (unmap_page root vaddr s') = None \<and>
    (\<forall>w. path_of w \<noteq> path_of vaddr \<longrightarrow> debug_translate root w (unmap_page root vaddr s') = debug_translate root w s)"
proof -
  obtain s' where s': "map_page root vaddr paddr flags s = Some s'" "pt_wf s' root"
    "\<And>q. length q = 4 \<Longrightarrow> \<forall>k \<in> set q. k < 512 \<Longrightarrow> leaf s' root q =
        (if q = path_of vaddr then (paddr AND ADDR_MASK) OR flags OR PAGE_PRESENT else leaf s root q)"
    using map_page_spec [OF wf, of vaddr paddr flags] free pt_stepD(1) by (auto split: option.splits)
  note un = unmap_page_spec [OF s'(2), where vaddr = vaddr]
  have un_leaf: "leaf (unmap_page root vaddr s') root (path_of w) =
      (if path_of w = path_of vaddr then 0 else leaf s' root (path_of w))" for w
    by (rule un(2)) (use path_of_valid in blast)+
  have "virt_to_phys root vaddr (unmap_page root vaddr s') = None"
    unfolding virt_to_phys_leaf un_leaf by (simp add: is_present_def)
  then show ?thesis
    using s' pt_stepD(1) [OF un(1)] un_leaf path_of_valid(1,2) entry_mask [OF flags]
    by (simp add: debug_translate_leaf virt_to_phys_leaf Let_def)
qed

theorem map_page_updates_one_page_witness:
  "\<exists>s'. map_page 0x1000 0x40000000 0x5000 (PAGE_WRITABLE OR PAGE_USER) demo_vmm = Some s' \<and>
    virt_to_phys 0x1000 0x40000000 s' = Some 0x5000"
  using map_page_updates_one_page [OF demo_pt_wf(1) [of 1], of "PAGE_WRITABLE OR PAGE_USER" "0x40000000" "0x5000"]
  by (auto simp: demo_free_set ADDR_MASK_def PAGE_WRITABLE_def PAGE_USER_def)

text \<open>
  C14. What a process maps and unmaps in its user half is invisible in every other address space: when the user
  tables of the first are no tables of the second, no sequence of such operations
  changes what any address of the second translates to, and both sets of tables stay well formed and separate.
\<close>

theorem processes_isolated:
  assumes "pt_wf s r1" "pt_wf s r2" "separate s r1 r2" "\<forall>op \<in> set ops. user_addr (op_addr op)"
    and "fold_opt (run_op r1) ops s = Some s'"
  shows "pt_wf s' r1 \<and> pt_wf s' r2 \<and> separate s' r1 r2 \<and> (\<forall>v. debug_translate r2 v s' = debug_translate r2 v s)"
  by (rule run_ops_other_space [OF assms])

theorem processes_isolated_witness:
  "pt_wf (unmap_page 0x1000 0x40000000 demo_vmm) 0x2000 \<and>
    (\<forall>v. debug_translate 0x2000 v (unmap_page 0x1000 0x40000000 demo_vmm) = debug_translate 0x2000 v demo_vmm)"
proof -
  have wf: "pt_wf demo_vmm 0x1000" "pt_wf demo_vmm 0x2000"
    and "all_tables demo_vmm 0x1000 = {0x1000}" "all_tables demo_vmm 0x2000 = {0x2000}"
    using demo_pt_wf [of 1] demo_pt_wf [of 2] by simp_all
  then have "separate demo_vmm 0x1000 0x2000"
    using user_tables_sub [of demo_vmm "0x1000"] unfolding separate_def by fastforce
  from processes_isolated [OF wf this, of "[UnmapUser 0x40000000]" "unmap_page 0x1000 0x40000000 demo_vmm"]
  show ?thesis by (simp add: user_addr_def)
qed

text \<open>
  C15. A new address space has an empty user half and shares the kernel half: every address of the upper half
  translates as in the kernel's tables and no address of the lower half is mapped. Its tables are well
  formed, its only user table is its root, which is separate from every existing address space, and those stay well
  formed.
\<close>

theorem new_address_space_shares_kernel:
  assumes wf: "pt_wf s (KERNEL_PML4_PHYS s)" and free: "free_set s \<noteq> {}"
  shows "\<exists>r s'. new_address_space s = Some (r, s') \<and> pt_wf s' r \<and>
    (\<forall>v. debug_translate r v s' = (if hd (path_of v) < 256 then 0 else debug_translate (KERNEL_PML4_PHYS s) v s)) \<and>
    (\<forall>r2. pt_wf s r2 \<longrightarrow> pt_wf s' r2 \<and> separate s' r r2)"
proof -
  obtain n s' where n: "n \<in> free_set s" and new: "new_address_space s = Some (frame_of n, s')" and
    s': "pmm_wf s'" "free_set s' = free_set s - {n}" "TOTAL_SPAN_PAGES s' = TOTAL_SPAN_PAGES s"
    and fresh: "\<not> table_ok s (frame_of n)"
    and other: "\<And>u j. table_ok s u \<Longrightarrow> j < 512 \<Longrightarrow> get_entry u j s' = get_entry u j s"
    and own: "\<And>j. j < 512 \<Longrightarrow> get_entry (frame_of n) j s' = (if j < 256 then 0 else get_entry (KERNEL_PML4_PHYS s) j s)"
    using new_address_space_spec [OF assms] by (elim exE conjE) (rule that; blast)
  have sub: "free_set s' \<subseteq> free_set s" using s'(2) by blast
  have ok: "table_ok s' (frame_of n)"
    using n unfolding table_ok_def s'(2,3) by (auto simp: free_set_def)
  note wf' = new_space_wf [OF wf fresh ok other own s'(1,3) sub]
  have "pt_wf s' r2 \<and> separate s' (frame_of n) r2" if r2: "pt_wf s r2" for r2
  proof -
    have same: "get_entry t j s' = get_entry t j s" if "t \<in> all_tables s r2" "j < 512" for t j
      using other [OF all_tables_ok [OF r2 that(1)] that(2)] .
    have "all_tables s' r2 = all_tables s r2"
      using tbl_same [of s r2 s', OF same] unfolding all_tables_def by auto
    then have "frame_of n \<notin> all_tables s' r2" using fresh all_tables_ok [OF r2] by blast
    then show ?thesis
      using pt_wf_same [OF r2 same s'(1,3) sub] by (simp add: separate_def wf'(2))
  qed
  moreover have "debug_translate (frame_of n) v s' =
      (if hd (path_of v) < 256 then 0 else debug_translate (KERNEL_PML4_PHYS s) v s)" for v
    unfolding debug_translate_leaf by (rule wf'(4)) (use path_of_valid in blast)+
  ultimately show ?thesis using new wf'(1) by blast
qed

theorem new_address_space_shares_kernel_witness:
  "\<exists>r s'. new_address_space demo_vmm = Some (r, s') \<and> pt_wf s' r \<and> separate s' r 0x2000"
proof -
  have "pt_wf demo_vmm (KERNEL_PML4_PHYS demo_vmm)" "free_set demo_vmm \<noteq> {}"
    using demo_pt_wf(1) [of 1] demo_free_set by (simp_all add: demo_vmm_def)
  from new_address_space_shares_kernel [OF this] demo_pt_wf(1) [of 2] show ?thesis by auto
qed

text \<open>
  C16. Destroying an address space gives back exactly what its user half owns: it never panics, leaves the memory
  contents alone, switches to the kernel's tables when it was the current one, and the frames that become free are
  the unreserved frames of the span that are its root, a table of its user half or the target of a
  present user mapping.
\<close>

theorem destroy_frees_exactly:
  assumes "pmm_wf s" "root \<noteq> 0" "root \<noteq> KERNEL_PML4_PHYS s"
  shows "\<exists>s'. destroy_address_space root s = Some s' \<and> pmm_wf s' \<and> PHYS s' = PHYS s \<and>
    CR3 s' = (if current_cr3 s = root then KERNEL_PML4_PHYS s else CR3 s) \<and>
    free_set s' = free_set s \<union>
      {n. n < unat (TOTAL_SPAN_PAGES s) \<and> \<not> bm_bit (RESERVED_BITMAP s) n \<and> user_frame s root (frame_of n)}"
  by (rule destroy_spec [OF assms])

theorem destroy_frees_exactly_witness:
  "\<exists>s'. destroy_address_space 0x2000 demo_vmm = Some s' \<and> pmm_wf s' \<and> 2 \<in> free_set s'"
proof -
  have "2 < unat (TOTAL_SPAN_PAGES demo_vmm) \<and> \<not> bm_bit (RESERVED_BITMAP demo_vmm) 2 \<and> user_frame demo_vmm 0x2000 (frame_of 2)"
    by (simp add: demo_vmm_def user_frame_def bm_bit_def)
  moreover have "(0x2000 :: u64) \<noteq> KERNEL_PML4_PHYS demo_vmm" by (simp add: demo_vmm_def)
  ultimately show ?thesis using destroy_frees_exactly [OF demo_vmm_wf, of "0x2000"] by auto
qed

lemma alloc_page_empty:
  assumes "pmm_wf s" "free_set s = {}"
  shows "\<exists>l. alloc_page s = Some (0, s\<lparr>LAST_SCANNED_PAGE := l\<rparr>)"
proof -
  have "scan_free (USED_BITMAP s) (TOTAL_SPAN_PAGES s) i = Some None" for i
    using scan_free_spec [OF pmm_wfD(2) [OF assms(1)], of i] assms(2)
    by (cases "scan_free (USED_BITMAP s) (TOTAL_SPAN_PAGES s) i") (auto simp: free_set_def split: option.splits)
  then show ?thesis
    by (auto simp: alloc_page_def intro: exI [of _ 0] exI [of _ "LAST_SCANNED_PAGE s"])
qed

text \<open>
  C36. The builder of address spaces does not notice that memory has run out: with no free frame it
  still reports success, with the reserved page zero as the root of the new tables, and has written the
  kernel's upper entries into that page.
\<close>

theorem new_address_space_uses_page_zero:
  assumes wf: "pt_wf s (KERNEL_PML4_PHYS s)" and none: "free_set s = {}" and k: "KERNEL_PML4_PHYS s \<noteq> 0"
  shows "\<exists>s'. new_address_space s = Some (0, s') \<and>
    (\<forall>i. 256 \<le> i \<longrightarrow> i < 512 \<longrightarrow> get_entry 0 i s' = get_entry (KERNEL_PML4_PHYS s) i s)"
proof -
  obtain l where a: "alloc_page s = Some (0, s\<lparr>LAST_SCANNED_PAGE := l\<rparr>)"
    using alloc_page_empty [OF pt_wfD(1) [OF wf] none] by blast
  define s1 where "s1 = s\<lparr>LAST_SCANNED_PAGE := l\<rparr>"
  have eq: "KERNEL_PML4_PHYS s1 = KERNEL_PML4_PHYS s" "TOTAL_SPAN_PAGES s1 = TOTAL_SPAN_PAGES s" "free_set s1 = free_set s"
    "get_entry t i s1 = get_entry t i s" for t i
    by (simp_all add: s1_def free_set_def get_entry_def)
  have ok: "table_ok s1 f \<longleftrightarrow> table_ok s f" for f by (simp add: table_ok_def eq)
  have "table_ok s (frame_of 0)"
    unfolding table_ok_def none using pmm_wfD(4) [OF pt_wfD(1) [OF wf]] by (intro exI [of _ 0]) simp
  then have z: "table_ok s1 0" by (simp add: ok frame_of_def)
  have kok: "table_ok s1 (KERNEL_PML4_PHYS s1)"
    using pt_wfD(3) [OF wf, of "[]"] by (simp add: ok eq valid_path_def)
  define ix where "ix = [256..<512 :: nat]"
  have ix: "set ix = {256..<512}" unfolding ix_def set_upt ..
  let ?s = "fold (\<lambda>i s. set_entry 0 i (get_entry (KERNEL_PML4_PHYS s) i s) s) ix s1"
  have pre: "set ix \<subseteq> {..<512}" "unat (TOTAL_SPAN_PAGES s1) \<le> 2 ^ 40" "0 \<noteq> KERNEL_PML4_PHYS s1"
    using pt_wfD(2) [OF wf] k by (auto simp: ix eq)
  have "get_entry 0 i ?s = get_entry (KERNEL_PML4_PHYS s) i s" if "256 \<le> i" "i < 512" for i
    using copy_entries [OF pre(2) z kok pre(3,1)] z that by (simp add: ix eq)
  moreover have "new_address_space s = Some (0, ?s)"
    unfolding new_address_space_def a s1_def ix_def [symmetric] by simp
  ultimately show ?thesis by blast
qed

definition full_vmm :: vmm where
  "full_vmm = demo_vmm\<lparr>USED_BITMAP := [0xFF, 0xFF, 0xFF], STATS := (STATS demo_vmm)\<lparr>free_pages := 0, used_pages := 24\<rparr>\<rparr>"

lemma full_vmm_wf: "pt_wf full_vmm 0x1000" "free_set full_vmm = {}"
proof -
  have "list_all (bm_bit [0xFF, 0xFF, 0xFF]) [0..<24]" by code_simp
  then have bits: "bm_bit [0xFF, 0xFF, 0xFF] n" if "n < 24" for n using that by (simp add: list_all_iff)
  then show fs: "free_set full_vmm = {}" by (auto simp: free_set_def full_vmm_def demo_vmm_def)
  have "bm_bit [0x01, 0, 0 :: u8] 0" by (simp add: bm_bit_def)
  with bits fs have "pmm_wf full_vmm" by (simp add: pmm_wf_def full_vmm_def demo_vmm_def)
  moreover have "tbl full_vmm t p = (if p = [] then Some t else None)" for t p
    by (cases p) (simp_all add: get_entry_def full_vmm_def demo_vmm_def)
  moreover have "table_ok full_vmm (frame_of 1)"
    unfolding table_ok_def fs by (intro exI [of _ 1]) (simp add: full_vmm_def demo_vmm_def)
  ultimately show "pt_wf full_vmm 0x1000" by (simp add: pt_wf_def full_vmm_def demo_vmm_def)
qed

theorem new_address_space_uses_page_zero_witness:
  "\<exists>s'. new_address_space full_vmm = Some (0, s')"
proof -
  have "KERNEL_PML4_PHYS full_vmm = 0x1000" by (simp add: full_vmm_def demo_vmm_def)
  with new_address_space_uses_page_zero [of full_vmm] full_vmm_wf show ?thesis by auto
qed

lemma mask_subset: "e AND m = m \<longleftrightarrow> (\<forall>n. bit m n \<longrightarrow> bit e n)" for e m :: u64
proof
  assume "e AND m = m"
  then show "\<forall>n. bit m n \<longrightarrow> bit e n" by (metis bit_and_iff)
next
  assume "\<forall>n. bit m n \<longrightarrow> bit e n"
  then show "e AND m = m" by (intro bit_eqI) (auto simp: bit_and_iff)
qed

lemma bit_one_at: "bit (push_bit k 1 :: u64) n \<longleftrightarrow> n = k \<and> k < 64"
  by (auto simp: bit_simps)



end
