(* ===== verification/Kernel_Map.thy ===== *)
theory Kernel_Map
  imports Address_Space
begin

text \<open>
  The kernel's own tables, as \<^verbatim>\<open>init\<close> of \<^verbatim>\<open>kernel_rs/src/vmm.rs\<close> builds them: no page is both
  writable and executable, and page zero is left unmapped.
\<close>

subsection \<open>Loops of mappings\<close>

definition guarded :: "'a pmm_scheme \<Rightarrow> u64 \<Rightarrow> bool" where
  "guarded s root \<longleftrightarrow> pt_wf s root \<and> leaf s root (path_of 0) = 0 \<and>
     (\<forall>q. length q = 4 \<longrightarrow> (\<forall>k \<in> set q. k < 512) \<longrightarrow> bit (leaf s root q) 1 \<longrightarrow> bit (leaf s root q) 63)"

lemma entry_flag_bits:
  "n \<in> {1, 63} \<Longrightarrow> bit ((paddr AND ADDR_MASK) OR flags OR PAGE_PRESENT) n \<longleftrightarrow> bit flags n"
  by (auto simp: ADDR_MASK_push PAGE_PRESENT_def bit_simps)

text \<open>A stage of the construction that takes at most \<open>k\<close> frames and fails only for want of them.\<close>

definition built :: "u64 \<Rightarrow> nat \<Rightarrow> 'a pmm_scheme \<Rightarrow> 'a pmm_scheme option \<Rightarrow> bool" where
  "built root k s r = (case r of None \<Rightarrow> card (free_set s) < k
     | Some s' \<Rightarrow> guarded s' root \<and> card (free_set s) \<le> card (free_set s') + k \<and> pmm.more s' = pmm.more s)"

lemma built_bind:
  assumes "built root k s r" "\<And>s'. r = Some s' \<Longrightarrow> guarded s' root \<Longrightarrow> built root l s' (f s')"
  shows "built root (k + l) s (r \<bind> f)"
  using assms by (cases r) (auto simp: built_def split: option.splits)

lemma built_loop:
  assumes "guarded s root" "\<And>x s. x \<in> set xs \<Longrightarrow> guarded s root \<Longrightarrow> built root (k x) s (f x s)"
  shows "built root (sum_list (map k xs)) s (fold_opt f xs s)"
  using assms
proof (induction xs arbitrary: s)
  case (Cons x xs)
  have "built root (k x + sum_list (map k xs)) s (f x s \<bind> fold_opt f xs)"
    using Cons by (intro built_bind) simp_all
  then show ?case by (simp add: bind_split split: option.split)
qed (simp add: built_def)

lemma map_page_built:
  assumes "guarded s root" "bit flags 1 \<longrightarrow> bit flags 63" "path_of vaddr \<noteq> path_of 0"
  shows "built root 3 s (map_page root vaddr paddr flags s)"
proof -
  have wf: "pt_wf s root" using assms(1) by (simp add: guarded_def)
  note spec = map_page_spec [OF wf, of vaddr paddr flags]
  show ?thesis
  proof (cases "map_page root vaddr paddr flags s")
    case None
    then show ?thesis using spec by (simp add: built_def)
  next
    case (Some s')
    then have s': "pt_step root (path_tables vaddr) s s'" "card (free_set s) \<le> card (free_set s') + 3"
      "\<And>q. length q = 4 \<Longrightarrow> \<forall>k \<in> set q. k < 512 \<Longrightarrow> leaf s' root q =
        (if q = path_of vaddr then (paddr AND ADDR_MASK) OR flags OR PAGE_PRESENT else leaf s root q)"
      using spec by simp_all
    have "guarded s' root"
      using assms pt_stepD(1) [OF s'(1)] s'(3) entry_flag_bits [of 1 paddr flags] entry_flag_bits [of 63 paddr flags]
        path_of_valid(1,2) [of 0] by (simp add: guarded_def)
    then show ?thesis using s' pt_stepD(4) [OF s'(1)] by (simp add: Some built_def)
  qed
qed

lemma map_loop_built:
  assumes "guarded s root" "\<And>p. p \<in> set ps \<Longrightarrow> path_of (va p) \<noteq> path_of 0" "bit flags 1 \<longrightarrow> bit flags 63"
  shows "built root (3 * length ps) s (fold_opt (\<lambda>p. map_page root (va p) (pa p) flags) ps s)"
proof -
  have "built root (sum_list (map (\<lambda>_. 3) ps)) s (fold_opt (\<lambda>p. map_page root (va p) (pa p) flags) ps s)"
    by (rule built_loop [OF assms(1)]) (rule map_page_built [OF _ assms(3,2)])
  then show ?thesis by (simp add: sum_list_triv mult.commute)
qed

subsection \<open>Which addresses are not page zero\<close>

lemma path_of_0: "path_of 0 = [0, 0, 0, 0]"
  by (simp add: path_of_def split_indices_def)

lemma index_value: "unat (drop_bit n v AND 0x1ff :: u64) = (unat v div 2 ^ n) mod 512"
proof -
  have "drop_bit n v AND 0x1ff = take_bit 9 (drop_bit n v)" by (simp add: take_bit_eq_mask mask_eq_exp_minus_1)
  then have "unat (drop_bit n v AND 0x1ff) = take_bit 9 (drop_bit n (unat v))"
    by (simp only: unsigned_take_bit_eq unat_drop_bit_eq)
  then show ?thesis by (simp add: take_bit_eq_mod drop_bit_eq_div)
qed

lemma low_not_page_zero:
  assumes "4096 \<le> unat v" "unat v < 2 ^ 48"
  shows "path_of v \<noteq> path_of 0"
proof
  assume "path_of v = path_of 0"
  then have z: "(unat v div 2 ^ 39) mod 512 = 0" "(unat v div 2 ^ 30) mod 512 = 0" "(unat v div 2 ^ 21) mod 512 = 0"
    "(unat v div 2 ^ 12) mod 512 = 0"
    unfolding path_of_0 by (simp_all only: path_of_def split_indices_def index_value Let_def split list.inject)
  have step: "x < 2 ^ n" if "x < 2 ^ (n + 9)" "(x div 2 ^ n) mod 512 = 0" for x n :: nat
  proof -
    have "x div 2 ^ n < 512" using that(1) by (simp add: less_mult_imp_div_less power_add mult.commute)
    with that(2) show ?thesis by (simp add: div_eq_0_iff)
  qed
  have "unat v < 2 ^ 39" using step [of "unat v" 39] assms(2) z(1) by simp
  then have "unat v < 2 ^ 30" using step [of "unat v" 30] z(2) by simp
  then have "unat v < 2 ^ 21" using step [of "unat v" 21] z(3) by simp
  then have "unat v < 2 ^ 12" using step [of "unat v" 12] z(4) by simp
  with assms(1) show False by simp
qed

lemma high_not_page_zero:
  assumes "0xFFFF800000000000 \<le> unat v"
  shows "path_of v \<noteq> path_of 0"
proof
  assume "path_of v = path_of 0"
  then have z: "(unat v div 2 ^ 39) mod 512 = 0"
    unfolding path_of_0 by (simp_all only: path_of_def split_indices_def index_value Let_def split list.inject)
  have "0x1FFFF00 \<le> unat v div 2 ^ 39" using assms div_le_mono [of "0xFFFF800000000000" "unat v" "2 ^ 39"] by simp
  moreover have "unat v div 2 ^ 39 < 0x10000 * 512" using unat_u64_less [of v] by (simp add: less_mult_imp_div_less)
  then have "unat v div 2 ^ 39 div 512 < 0x10000" by (rule less_mult_imp_div_less)
  ultimately show False using z div_mult_mod_eq [of "unat v div 2 ^ 39" 512] by linarith
qed

lemma unat_plus_frame:
  assumes "unat base + n * 4096 < 2 ^ 64"
  shows "unat (base + frame_of n) = unat base + n * 4096"
proof -
  have "n < 2 ^ 52" using assms by simp
  with assms show ?thesis by (simp add: unat_word_ariths unat_frame_of)
qed

subsection \<open>Start-up\<close>

definition segment_ok :: "KernelSegment \<Rightarrow> bool" where
  "segment_ok seg \<longleftrightarrow> \<not> (seg_writable seg \<and> seg_executable seg) \<and>
     0xFFFF800000000000 \<le> unat (seg_vaddr seg) \<and> unat (seg_vaddr seg) + unat (seg_len seg) \<le> 2 ^ 64 - 4096"

definition segment_pages :: "KernelSegment \<Rightarrow> nat" where
  "segment_pages seg = unat ((seg_len seg + PMM_PAGE_SIZE - 1) div PMM_PAGE_SIZE)"

lemma segment_pages_bound:
  assumes "segment_ok seg" "p < segment_pages seg"
  shows "p * 4096 < unat (seg_len seg) + 4095"
proof -
  have len: "unat (seg_len seg) + 4096 \<le> 2 ^ 64 - 1" using assms(1) by (simp add: segment_ok_def)
  have "unat (seg_len seg + 4095) = unat (seg_len seg) + 4095"
    using len by (simp add: unat_word_ariths)
  then have "segment_pages seg = (unat (seg_len seg) + 4095) div 4096"
    by (simp add: segment_pages_def PMM_PAGE_SIZE_def unat_div add.commute [of 4095])
  with assms(2) have "Suc p \<le> (unat (seg_len seg) + 4095) div 4096" by simp
  then have "Suc p * 4096 \<le> unat (seg_len seg) + 4095" by (simp add: less_eq_div_iff_mult_less_eq)
  then show ?thesis by simp
qed

lemma segment_flags_wx: "segment_ok seg \<Longrightarrow> bit (segment_flags seg) 1 \<longrightarrow> bit (segment_flags seg) 63"
  unfolding segment_ok_def segment_flags_def Let_def PAGE_NO_EXECUTE_def PAGE_GLOBAL_def PAGE_WRITABLE_def
  by (simp add: bit_or_iff bit_and_iff bit_not_iff bit_one_at del: push_bit_of_1)

lemma data_flags_wx:
  "bit (PAGE_WRITABLE OR PAGE_NO_EXECUTE OR PAGE_GLOBAL) 1 \<longrightarrow> bit (PAGE_WRITABLE OR PAGE_NO_EXECUTE OR PAGE_GLOBAL) 63"
  by (simp add: PAGE_NO_EXECUTE_def bit_or_iff bit_one_at)

lemma map_segment_built:
  assumes "guarded s root" "segment_ok seg"
  shows "built root (3 * segment_pages seg) s (map_segment root seg s)"
proof -
  have "path_of (seg_vaddr seg + frame_of p) \<noteq> path_of 0" if "p \<in> set [0..<segment_pages seg]" for p
  proof (rule high_not_page_zero)
    have "p * 4096 < unat (seg_len seg) + 4095" using segment_pages_bound [OF assms(2)] that by simp
    then have "unat (seg_vaddr seg + frame_of p) = unat (seg_vaddr seg) + p * 4096"
      using assms(2) by (intro unat_plus_frame) (simp add: segment_ok_def)
    then show "0xFFFF800000000000 \<le> unat (seg_vaddr seg + frame_of p)" using assms(2) by (simp add: segment_ok_def)
  qed
  from map_loop_built [where va = "\<lambda>p. seg_vaddr seg + frame_of p" and ps = "[0..<segment_pages seg]"
      and pa = "\<lambda>p. seg_paddr seg + frame_of p", OF assms(1) this segment_flags_wx [OF assms(2)]]
  show ?thesis by (simp add: map_segment_def segment_pages_def Let_def)
qed

lemma map_direct_built:
  assumes "guarded s root" "unat (total_physical_span (STATS s)) \<le> 2 ^ 47 - 4096"
  shows "built root (3 * unat (total_physical_span (STATS s) div PMM_PAGE_SIZE)) s (map_direct root s)"
proof -
  let ?n = "unat (total_physical_span (STATS s) div PMM_PAGE_SIZE)"
  have n: "?n * 4096 \<le> unat (total_physical_span (STATS s))" by (simp add: PMM_PAGE_SIZE_def unat_div)
  have "path_of (PHYS_MAP_BASE + frame_of p) \<noteq> path_of 0" if "p \<in> set [0..<?n]" for p
  proof (rule high_not_page_zero)
    have "p * 4096 \<le> 2 ^ 47 - 4096" using that n assms(2) by simp
    then have "unat (PHYS_MAP_BASE + frame_of p) = unat PHYS_MAP_BASE + p * 4096"
      by (intro unat_plus_frame) (simp add: PHYS_MAP_BASE_def)
    then show "0xFFFF800000000000 \<le> unat (PHYS_MAP_BASE + frame_of p)" by (simp add: PHYS_MAP_BASE_def)
  qed
  from map_loop_built [where va = "\<lambda>p. PHYS_MAP_BASE + frame_of p" and ps = "[0..<?n]" and pa = frame_of,
      OF assms(1) this data_flags_wx]
  show ?thesis by (simp add: map_direct_def)
qed

lemma align_2m: "unat (sp AND NOT 0x1FFFFF :: u64) = unat sp div 0x200000 * 0x200000"
proof -
  let ?a = "sp AND NOT 0x1FFFFF"
  have eq: "(0x1FFFFF :: u64) = mask 21" by (simp add: mask_eq_exp_minus_1)
  have "?a = push_bit 21 (drop_bit 21 sp)" unfolding eq by (rule bit_word_eqI) (auto simp: bit_simps)
  then have "?a = sp div 0x200000 * 0x200000" by (simp add: push_bit_eq_mult drop_bit_eq_div)
  then have "unat ?a = (unat (sp div 0x200000) * 0x200000) mod 2 ^ 64"
    by (simp only: unat_word_ariths) simp
  then have "unat ?a = (unat sp div 0x200000 * 0x200000) mod 2 ^ 64" by (simp only: unat_div) simp
  moreover have "unat sp div 0x200000 * 0x200000 < 2 ^ 64"
    using div_times_less_eq_dividend [of "unat sp" "0x200000"] unat_u64_less [of sp] by linarith
  ultimately show ?thesis by simp
qed

lemma map_stack_built:
  assumes "guarded s root" "0x400000 \<le> sp" "sp < 0x400000000000"
  shows "built root (3 * 1536) s (map_stack root sp s)"
proof -
  let ?a = "sp AND NOT 0x1FFFFF" and ?b = "(sp AND NOT 0x1FFFFF) - 0x200000"
  have "2 \<le> unat sp div 0x200000"
    using assms(2) div_le_mono [of "0x400000" "unat sp" "0x200000"] by (simp add: word_le_nat_alt)
  then have a: "unat ?a \<le> unat sp" "0x400000 \<le> unat ?a" unfolding align_2m by simp_all
  have b: "unat ?b = unat ?a - 0x200000" using a(2) by (simp add: unat_sub word_le_nat_alt)
  have "path_of (?b + frame_of p) \<noteq> path_of 0" if "p \<in> set [0..<1536]" for p
  proof (rule low_not_page_zero)
    have "unat sp < 0x400000000000" using assms(3) by (simp add: word_less_nat_alt)
    then have "unat (?b + frame_of p) = unat ?b + p * 4096"
      using that a b by (intro unat_plus_frame) simp
    then show "4096 \<le> unat (?b + frame_of p)" "unat (?b + frame_of p) < 2 ^ 48"
      using a b that \<open>unat sp < 0x400000000000\<close> by simp_all
  qed
  from map_loop_built [where va = "\<lambda>p. ?b + frame_of p" and ps = "[0..<1536]" and pa = "\<lambda>p. ?b + frame_of p",
      OF assms(1) this data_flags_wx]
  show ?thesis by (simp add: map_stack_def Let_def del: upt_rec_numeral)
qed

abbreviation span_of :: "'a pmm_scheme \<Rightarrow> u64" where
  "span_of s \<equiv> total_physical_span (STATS s)"

lemma take_page_span: "take_page i s = Some (a, s') \<Longrightarrow> span_of s' = span_of s"
  by (auto simp: take_page_def Let_def split: bind_splits)

lemma alloc_page_span: "alloc_page s = Some (a, s') \<Longrightarrow> span_of s' = span_of s"
  by (auto simp: alloc_page_def dest: take_page_span split: option.splits if_splits)

lemma zeroed_table_span: "zeroed_table s = Some (a, s') \<Longrightarrow> span_of s' = span_of s"
  by (auto simp: zeroed_table_def dest: alloc_page_span split: bind_splits if_splits)

lemma set_entry_span [simp]: "span_of (set_entry t i v s) = span_of s"
  by (simp add: set_entry_def)

lemma ensure_table_span: "ensure_table t i s = Some (u, s') \<Longrightarrow> span_of s' = span_of s"
  by (auto simp: ensure_table_def dest: zeroed_table_span split: bind_splits if_splits)

lemma map_page_span:
  assumes "map_page root vaddr paddr flags s = Some s'"
  shows "span_of s' = span_of s"
proof -
  obtain i4 i3 i2 i1 where ix: "split_indices vaddr = (i4, i3, i2, i1)" by (metis prod_cases4)
  from assms obtain t4 s4 t3 s3 t2 s2 where e: "ensure_table root i4 s = Some (t4, s4)" "ensure_table t4 i3 s4 = Some (t3, s3)"
    "ensure_table t3 i2 s3 = Some (t2, s2)" "s' = set_entry t2 i1 ((paddr AND ADDR_MASK) OR flags OR PAGE_PRESENT) s2"
    unfolding map_page_def ix by (auto simp: bind_eq_Some_conv)
  show ?thesis using ensure_table_span [OF e(1)] ensure_table_span [OF e(2)] ensure_table_span [OF e(3)] by (simp add: e(4))
qed

lemma map_loop_span: "fold_opt (\<lambda>p. map_page root (va p) (pa p) flags) ps s = Some s' \<Longrightarrow> span_of s' = span_of s"
  by (induction ps arbitrary: s) (auto dest: map_page_span split: option.splits)

lemma map_segments_span: "fold_opt (map_segment root) segs s = Some s' \<Longrightarrow> span_of s' = span_of s"
  by (induction segs arbitrary: s) (auto simp: map_segment_def Let_def dest: map_loop_span split: option.splits)

lemma empty_root_guarded:
  assumes "pmm_wf s" "unat (TOTAL_SPAN_PAGES s) \<le> 2 ^ 40" "zeroed_table s = Some (r, s')"
  shows "guarded s' r" "card (free_set s) = Suc (card (free_set s'))" "pmm.more s' = pmm.more s"
    "span_of s' = span_of s"
proof -
  obtain n where n: "n \<in> free_set s" "r = frame_of n" "pmm_wf s'" "free_set s' = free_set s - {n}"
    "PHYS s' = zero_page (frame_of n) (PHYS s)" "TOTAL_SPAN_PAGES s' = TOTAL_SPAN_PAGES s" "pmm.more s' = pmm.more s"
    using zeroed_table_spec [OF assms(1)] assms(3) by (auto split: if_splits)
  show "pmm.more s' = pmm.more s" by fact
  show "card (free_set s) = Suc (card (free_set s'))"
    using card.remove [OF finite_free_set n(1)] n(4) by simp
  have zero: "get_entry r j s' = 0" if "j < 512" for j
    using get_entry_zeroed(2) [OF assms(2) n(1,5) that] n(2) by simp
  have ok: "table_ok s' r" using n by (auto simp: table_ok_def free_set_def)
  have tbl: "tbl s' r q = (if q = [] then Some r else None)" if "valid_path 3 q" for q
    using that zero by (cases q) (simp_all add: valid_path_def)
  have "pt_wf s' r" using n(3,6) assms(2) ok tbl by (simp add: pt_wf_def)
  moreover have "leaf s' r q = 0" if "length q = 4" "\<forall>k \<in> set q. k < 512" for q
  proof -
    have "valid_path 3 (butlast q)" "butlast q \<noteq> []"
      using that by (auto simp: valid_path_def dest: in_set_butlastD simp flip: length_0_conv)
    then show ?thesis using tbl by (simp add: leaf_def)
  qed
  ultimately show "guarded s' r" using path_of_valid(1,2) [of 0] by (simp add: guarded_def)
  show "span_of s' = span_of s" by (rule zeroed_table_span [OF assms(3)])
qed

lemma guarded_fields:
  assumes "PHYS s' = PHYS s" "USED_BITMAP s' = USED_BITMAP s" "RESERVED_BITMAP s' = RESERVED_BITMAP s"
    "TOTAL_SPAN_PAGES s' = TOTAL_SPAN_PAGES s" "STATS s' = STATS s"
  shows "guarded s' r = guarded s r" "free_set s' = free_set s"
  using pt_fields [OF assms] by (simp_all add: guarded_def)


definition demo_segments :: "KernelSegment list" where
  "demo_segments = [\<lparr>seg_vaddr = 0xFFFFFFFF80000000, seg_paddr = 0x3000, seg_len = 0x1800, seg_writable = False, seg_executable = True\<rparr>]"


end
