(* ===== verification/Heap.thy ===== *)
theory Heap
  imports Kernel_Map
begin

text \<open>
  \<^verbatim>\<open>kernel_rs/src/heap.rs\<close>: the kernel's allocator, a free list of variable-sized blocks in address order. The list
  linked from \<^verbatim>\<open>head\<close> is the list of its nodes, each the address and size of a free block; the nodes are stored in
  the blocks they describe, so that the invariant that free blocks are disjoint is what makes the list
  readable. Sizes and addresses are 64-bit words with the wrapping arithmetic of the release build.
\<close>

type_synonym FreeListNode = "u64 \<times> u64"

definition HEAP_VIRTUAL_BASE :: u64 where "HEAP_VIRTUAL_BASE = 0xFFFFFF0000000000"
definition INITIAL_HEAP_PAGES :: u64 where "INITIAL_HEAP_PAGES = 2048"
definition NODE_SIZE :: u64 where "NODE_SIZE = 16"

record LockedHeap = vmm +
  head :: "FreeListNode list"
  heap_end :: u64

subsection \<open>The free list\<close>

text \<open>The search for the insertion point carries the node before it, as the code's \<^verbatim>\<open>prev\<close>.\<close>

fun insert_region :: "FreeListNode option \<Rightarrow> u64 \<Rightarrow> u64 \<Rightarrow> FreeListNode list \<Rightarrow> FreeListNode list" where
  "insert_region prev addr sz [] =
     (case prev of
        None \<Rightarrow> [(addr, sz)]
      | Some (p, psize) \<Rightarrow> if p + psize = addr then [(p, psize + sz)] else [(p, psize), (addr, sz)])"
| "insert_region prev addr sz ((c, csize) # rest) =
     (if c < addr
      then (case prev of None \<Rightarrow> [] | Some p \<Rightarrow> [p]) @ insert_region (Some (c, csize)) addr sz rest
      else (case prev of
              None \<Rightarrow> if addr + sz = c then (addr, sz + csize) # rest else (addr, sz) # (c, csize) # rest
            | Some (p, psize) \<Rightarrow>
                if p + psize = addr
                then (if p + (psize + sz) = c then (p, psize + sz + csize) # rest else (p, psize + sz) # (c, csize) # rest)
                else if addr + sz = c then (p, psize) # (addr, sz + csize) # rest
                else (p, psize) # (addr, sz) # (c, csize) # rest))"

definition add_free_region :: "u64 \<Rightarrow> u64 \<Rightarrow> FreeListNode list \<Rightarrow> FreeListNode list" where
  "add_free_region addr sz fl = (if sz < NODE_SIZE then fl else insert_region None addr sz fl)"

definition align_up :: "u64 \<Rightarrow> u64 \<Rightarrow> u64" where
  "align_up addr align = (addr + align - 1) AND NOT (align - 1)"

fun find_fit :: "u64 \<Rightarrow> u64 \<Rightarrow> FreeListNode list \<Rightarrow> FreeListNode list \<Rightarrow> (u64 \<times> FreeListNode list) option" where
  "find_fit sz align seen [] = None"
| "find_fit sz align seen ((node_addr, node_size) # rest) =
     (let alloc_start = align_up node_addr align; alloc_end = alloc_start + sz; node_end = node_addr + node_size
      in if alloc_end \<le> node_end
         then (let fl = seen @ rest; front_pad = alloc_start - node_addr;
                   fl = (if front_pad > 0 then add_free_region node_addr front_pad fl else fl);
                   back_pad = node_end - alloc_end;
                   fl = (if back_pad > 0 then add_free_region alloc_end back_pad fl else fl)
               in Some (alloc_start, fl))
         else find_fit sz align (seen @ [(node_addr, node_size)]) rest)"

definition find_and_remove :: "u64 \<Rightarrow> u64 \<Rightarrow> FreeListNode list \<Rightarrow> (u64 \<times> FreeListNode list) option" where
  "find_and_remove sz align fl = find_fit sz align [] fl"

subsection \<open>Growing, allocating, freeing\<close>

text \<open>Mapping the new pages; \<open>False\<close> when the page allocator runs out on the way.\<close>

fun grow_pages :: "u64 \<Rightarrow> nat list \<Rightarrow> 'a LockedHeap_scheme \<Rightarrow> (bool \<times> 'a LockedHeap_scheme) option" where
  "grow_pages start [] h = Some (True, h)"
| "grow_pages start (p # ps) h = do {
     (phys, h) \<leftarrow> alloc_page h;
     if phys = 0 then Some (False, h)
     else do { h \<leftarrow> map_heap_page (start + frame_of p) phys h; grow_pages start ps h }
   }"

definition grow_by :: "u64 \<Rightarrow> 'a LockedHeap_scheme \<Rightarrow> 'a LockedHeap_scheme option" where
  "grow_by pages h = do {
     (ok, h') \<leftarrow> grow_pages (heap_end h) [0..<unat pages] h;
     Some (if ok then h'\<lparr>heap_end := heap_end h + pages * PMM_PAGE_SIZE,
                         head := add_free_region (heap_end h) (pages * PMM_PAGE_SIZE) (head h')\<rparr>
           else h')
   }"

definition heap_alloc :: "u64 \<Rightarrow> u64 \<Rightarrow> 'a LockedHeap_scheme \<Rightarrow> (u64 \<times> 'a LockedHeap_scheme) option" where
  "heap_alloc layout_size layout_align h =
     (let sz = max layout_size NODE_SIZE; align = max layout_align 8
      in case find_and_remove sz align (head h) of
           Some (addr, fl) \<Rightarrow> Some (addr, h\<lparr>head := fl\<rparr>)
         | None \<Rightarrow>
             (let needed_bytes = sz + align + PMM_PAGE_SIZE;
                  pages = max ((needed_bytes + PMM_PAGE_SIZE - 1) div PMM_PAGE_SIZE) 256
              in do {
                h \<leftarrow> grow_by pages h;
                Some (case find_and_remove sz align (head h) of
                        Some (addr, fl) \<Rightarrow> (addr, h\<lparr>head := fl\<rparr>)
                      | None \<Rightarrow> (0, h))
              }))"

definition heap_dealloc :: "u64 \<Rightarrow> u64 \<Rightarrow> 'a LockedHeap_scheme \<Rightarrow> 'a LockedHeap_scheme" where
  "heap_dealloc p layout_size h = h\<lparr>head := add_free_region p (max layout_size NODE_SIZE) (head h)\<rparr>"

definition heap_init :: "'a LockedHeap_scheme \<Rightarrow> 'a LockedHeap_scheme option" where
  "heap_init h = grow_by INITIAL_HEAP_PAGES (h\<lparr>heap_end := HEAP_VIRTUAL_BASE\<rparr>)"

subsection \<open>Free bytes\<close>

definition region :: "FreeListNode \<Rightarrow> nat set" where
  "region n = {unat (fst n) ..< unat (fst n) + unat (snd n)}"

definition fl_bytes :: "FreeListNode list \<Rightarrow> nat set" where
  "fl_bytes fl = (\<Union>n \<in> set fl. region n)"

definition node_ok :: "nat \<Rightarrow> nat \<Rightarrow> FreeListNode \<Rightarrow> bool" where
  "node_ok lo hi n \<longleftrightarrow> lo \<le> unat (fst n) \<and> 16 \<le> unat (snd n) \<and> unat (fst n) + unat (snd n) \<le> hi"

definition gap :: "FreeListNode \<Rightarrow> FreeListNode \<Rightarrow> bool" where
  "gap m n \<longleftrightarrow> unat (fst m) + unat (snd m) < unat (fst n)"

text \<open>In address order, with a gap between neighbours, inside the heap: adjacent free blocks are always merged.\<close>

definition fl_ok :: "nat \<Rightarrow> nat \<Rightarrow> FreeListNode list \<Rightarrow> bool" where
  "fl_ok lo hi fl \<longleftrightarrow> hi < 2 ^ 64 \<and> sorted_wrt gap fl \<and> (\<forall>n \<in> set fl. node_ok lo hi n)"

lemma fl_bytes_simps [simp]:
  "fl_bytes [] = {}" "fl_bytes (n # fl) = region n \<union> fl_bytes fl" "fl_bytes (fl @ fl') = fl_bytes fl \<union> fl_bytes fl'"
  by (auto simp: fl_bytes_def)

lemma fl_okD:
  assumes "fl_ok lo hi fl" "n \<in> set fl"
  shows "hi < 2 ^ 64" "node_ok lo hi n"
  using assms by (auto simp: fl_ok_def)

text \<open>The order of the list, read off from the bytes.\<close>

lemma fl_ok_Cons:
  "fl_ok lo hi (n # fl) \<longleftrightarrow> node_ok lo hi n \<and> (\<forall>x \<in> fl_bytes fl. unat (fst n) + unat (snd n) < x) \<and> fl_ok lo hi fl"
proof -
  have "(\<forall>m \<in> set fl. gap n m) \<longleftrightarrow> (\<forall>x \<in> fl_bytes fl. unat (fst n) + unat (snd n) < x)" if "\<forall>m \<in> set fl. node_ok lo hi m"
  proof
    assume "\<forall>m \<in> set fl. gap n m"
    then show "\<forall>x \<in> fl_bytes fl. unat (fst n) + unat (snd n) < x"
      by (force simp: fl_bytes_def region_def gap_def)
  next
    assume *: "\<forall>x \<in> fl_bytes fl. unat (fst n) + unat (snd n) < x"
    have "unat (fst m) \<in> fl_bytes fl" if "m \<in> set fl" for m
      using that \<open>\<forall>m \<in> set fl. node_ok lo hi m\<close> by (force simp: fl_bytes_def region_def node_ok_def)
    with * show "\<forall>m \<in> set fl. gap n m" by (auto simp: gap_def)
  qed
  then show ?thesis by (auto simp: fl_ok_def)
qed

lemma region_merge:
  assumes "a + s = b" "unat a + unat s + unat t < 2 ^ 64"
  shows "region (a, s + t) = region (a, s) \<union> region (b, t)" "unat (s + t) = unat s + unat t" "unat b = unat a + unat s"
proof -
  show u: "unat (s + t) = unat s + unat t" "unat b = unat a + unat s"
    using assms by (auto simp: unat_word_ariths)
  then show "region (a, s + t) = region (a, s) \<union> region (b, t)" by (auto simp: region_def)
qed

text \<open>Putting a block in front of a list, merged with its first block when they touch.\<close>

fun coalesce :: "FreeListNode \<Rightarrow> FreeListNode list \<Rightarrow> FreeListNode list" where
  "coalesce (a, s) [] = [(a, s)]"
| "coalesce (a, s) ((c, cs) # rest) = (if a + s = c then (a, s + cs) # rest else (a, s) # (c, cs) # rest)"

lemma coalesce_ok:
  assumes fl: "fl_ok lo hi fl" and n: "node_ok lo hi (a, s)" and after: "\<And>x. x \<in> fl_bytes fl \<Longrightarrow> unat a + unat s \<le> x"
    and hi: "hi < 2 ^ 64"
  shows "fl_ok lo hi (coalesce (a, s) fl) \<and> fl_bytes (coalesce (a, s) fl) = region (a, s) \<union> fl_bytes fl"
proof (cases fl)
  case Nil
  with n hi show ?thesis by (simp add: fl_ok_def)
next
  case (Cons node rest)
  obtain c cs where node: "node = (c, cs)" by (cases node)
  have c: "node_ok lo hi (c, cs)" "\<And>x. x \<in> fl_bytes rest \<Longrightarrow> unat c + unat cs < x" "fl_ok lo hi rest"
    using fl by (auto simp: Cons node fl_ok_Cons)
  then have "unat c \<in> fl_bytes fl" by (simp add: Cons node region_def node_ok_def)
  then have le: "unat a + unat s \<le> unat c" by (rule after)
  show ?thesis
  proof (cases "a + s = c")
    case True
    have "unat a + unat s + unat cs < 2 ^ 64"
      using le c(1) hi by (simp add: node_ok_def)
    note m = region_merge [OF True this]
    show ?thesis
      using True n c m by (auto simp: Cons node fl_ok_Cons node_ok_def add.assoc)
  next
    case False
    have "unat (a + s) = unat a + unat s" using n hi by (simp add: node_ok_def unat_word_ariths)
    with False le have lt: "unat a + unat s < unat c" by (metis le_neq_implies_less word_unat_eq_iff)
    have "unat a + unat s < x" if "x \<in> fl_bytes fl" for x
      using that lt c(2) by (force simp: Cons node region_def)
    with False n fl show ?thesis by (simp add: Cons node fl_ok_Cons)
  qed
qed

lemma insert_region_here:
  assumes "\<And>c cs rest. fl = (c, cs) # rest \<Longrightarrow> \<not> c < addr"
  shows "insert_region prev addr sz fl = (case prev of None \<Rightarrow> coalesce (addr, sz) fl
     | Some (p, ps) \<Rightarrow> if p + ps = addr then coalesce (p, ps + sz) fl else (p, ps) # coalesce (addr, sz) fl)"
  using assms by (cases fl) (auto split: option.split)

lemma after_region:
  assumes "region (a, s) \<inter> B = {}" "\<And>x. x \<in> B \<Longrightarrow> unat a \<le> x" "x \<in> B"
  shows "unat a + unat s \<le> x"
  using assms by (fastforce simp: region_def not_less)

lemma insert_here_ok:
  assumes "fl_ok lo hi fl" "node_ok lo hi (addr, sz)" "hi < 2 ^ 64" "region (addr, sz) \<inter> fl_bytes fl = {}"
    and prev: "case prev of None \<Rightarrow> True | Some p \<Rightarrow> fl_ok lo hi (p # fl) \<and> region (addr, sz) \<inter> region p = {} \<and> fst p < addr"
    and here: "\<And>x. x \<in> fl_bytes fl \<Longrightarrow> unat addr \<le> x"
  shows "fl_ok lo hi (insert_region prev addr sz fl) \<and> fl_bytes (insert_region prev addr sz fl) =
    region (addr, sz) \<union> fl_bytes fl \<union> (case prev of None \<Rightarrow> {} | Some p \<Rightarrow> region p)"
proof -
  have "\<not> c < addr" if "fl = (c, cs) # rest" for c cs rest
  proof -
    have "node_ok lo hi (c, cs)" using assms(1) that by (simp add: fl_ok_def)
    then have "unat c \<in> fl_bytes fl" using that by (simp add: region_def node_ok_def)
    then show ?thesis using here by (fastforce simp: word_less_nat_alt)
  qed
  note ins = insert_region_here [OF this]
  have after: "unat addr + unat sz \<le> x" if "x \<in> fl_bytes fl" for x
    by (rule after_region [OF assms(4) here that])
  have new: "fl_ok lo hi (coalesce (addr, sz) fl) \<and> fl_bytes (coalesce (addr, sz) fl) = region (addr, sz) \<union> fl_bytes fl"
    by (rule coalesce_ok [OF assms(1,2) after assms(3)])
  show ?thesis
  proof (cases prev)
    case None
    with new show ?thesis by (simp add: ins)
  next
    case (Some q)
    obtain p ps where q: "q = (p, ps)" by (cases q)
    have p: "node_ok lo hi (p, ps)" "\<And>x. x \<in> fl_bytes fl \<Longrightarrow> unat p + unat ps < x"
      "region (addr, sz) \<inter> region (p, ps) = {}" "unat p < unat addr"
      using prev by (auto simp: Some q fl_ok_Cons word_less_nat_alt)
    have "unat addr \<notin> region (p, ps)" using p(3) assms(2) by (force simp: region_def node_ok_def)
    then have le: "unat p + unat ps \<le> unat addr" using p(4) by (simp add: region_def)
    show ?thesis
    proof (cases "p + ps = addr")
      case True
      have "unat p + unat ps + unat sz < 2 ^ 64" using le assms(2,3) by (simp add: node_ok_def)
      note m = region_merge [OF True this]
      have "node_ok lo hi (p, ps + sz)" using p(1) assms(2) m by (simp add: node_ok_def)
      moreover have "unat p + unat (ps + sz) \<le> x" if "x \<in> fl_bytes fl" for x
        using after [OF that] m by simp
      ultimately show ?thesis
        using coalesce_ok [OF assms(1) _ _ assms(3), of p "ps + sz"] m(1) True by (auto simp: ins Some q)
    next
      case False
      have "unat (p + ps) = unat p + unat ps" using p(1) assms(3) by (simp add: node_ok_def unat_word_ariths)
      with False le have "unat p + unat ps < unat addr" by (metis le_neq_implies_less word_unat_eq_iff)
      then have "unat p + unat ps < x" if "x \<in> fl_bytes (coalesce (addr, sz) fl)" for x
        using that new p(2) by (auto simp: region_def)
      with new p(1) False show ?thesis by (auto simp: ins Some q fl_ok_Cons)
    qed
  qed
qed

lemma insert_region_ok:
  assumes "fl_ok lo hi fl" "node_ok lo hi (addr, sz)" "hi < 2 ^ 64" "region (addr, sz) \<inter> fl_bytes fl = {}"
    and "case prev of None \<Rightarrow> True | Some p \<Rightarrow> fl_ok lo hi (p # fl) \<and> region (addr, sz) \<inter> region p = {} \<and> fst p < addr"
  shows "fl_ok lo hi (insert_region prev addr sz fl) \<and> fl_bytes (insert_region prev addr sz fl) =
    region (addr, sz) \<union> fl_bytes fl \<union> (case prev of None \<Rightarrow> {} | Some p \<Rightarrow> region p)"
  using assms
proof (induction fl arbitrary: prev)
  case Nil
  then show ?case by (intro insert_here_ok) simp_all
next
  case (Cons node rest)
  obtain c cs where node: "node = (c, cs)" by (cases node)
  have rest: "node_ok lo hi (c, cs)" "\<And>x. x \<in> fl_bytes rest \<Longrightarrow> unat c + unat cs < x" "fl_ok lo hi rest"
    using Cons.prems(1) by (auto simp: node fl_ok_Cons)
  show ?case
  proof (cases "c < addr")
    case True
    have IH: "fl_ok lo hi (insert_region (Some (c, cs)) addr sz rest)"
      "fl_bytes (insert_region (Some (c, cs)) addr sz rest) = region (addr, sz) \<union> fl_bytes rest \<union> region (c, cs)"
      using Cons.IH [OF rest(3) Cons.prems(2,3), of "Some (c, cs)"] Cons.prems(1,4) True by (auto simp: node)
    show ?thesis
    proof (cases prev)
      case None
      with IH True show ?thesis by (auto simp: node)
    next
      case (Some p)
      have p: "node_ok lo hi p" "\<And>x. x \<in> fl_bytes (node # rest) \<Longrightarrow> unat (fst p) + unat (snd p) < x"
        using Cons.prems(5) by (auto simp: Some fl_ok_Cons)
      have "unat c \<in> fl_bytes (node # rest)" using rest(1) by (simp add: node region_def node_ok_def)
      then have "unat (fst p) + unat (snd p) < unat addr"
        using p(2) True by (fastforce simp: word_less_nat_alt)
      then have "unat (fst p) + unat (snd p) < x" if "x \<in> fl_bytes (insert_region (Some (c, cs)) addr sz rest)" for x
        using that p(2) unfolding IH(2) by (auto simp: node region_def)
      with IH p(1) True show ?thesis by (auto simp: node Some fl_ok_Cons)
    qed
  next
    case False
    have "unat addr \<le> x" if "x \<in> fl_bytes (node # rest)" for x
      using that False rest(2) by (force simp: node region_def word_less_nat_alt)
    with Cons.prems show ?thesis by (intro insert_here_ok)
  qed
qed

lemma add_free_region_ok:
  assumes "fl_ok lo hi fl" "lo \<le> unat addr" "unat addr + unat sz \<le> hi" "region (addr, sz) \<inter> fl_bytes fl = {}"
  shows "fl_ok lo hi (add_free_region addr sz fl)"
    "fl_bytes (add_free_region addr sz fl) = fl_bytes fl \<union> (if unat sz < 16 then {} else region (addr, sz))"
proof -
  have hi: "hi < 2 ^ 64" using assms(1) by (simp add: fl_ok_def)
  have small: "sz < NODE_SIZE \<longleftrightarrow> unat sz < 16" by (simp add: NODE_SIZE_def word_less_nat_alt)
  have "fl_ok lo hi (add_free_region addr sz fl) \<and>
    fl_bytes (add_free_region addr sz fl) = fl_bytes fl \<union> (if unat sz < 16 then {} else region (addr, sz))"
  proof (cases "unat sz < 16")
    case True
    with assms(1) small show ?thesis by (simp add: add_free_region_def)
  next
    case False
    then have "node_ok lo hi (addr, sz)" using assms(2,3) by (simp add: node_ok_def)
    from insert_region_ok [OF assms(1) this hi assms(4), of None] False small show ?thesis
      by (auto simp: add_free_region_def)
  qed
  then show "fl_ok lo hi (add_free_region addr sz fl)"
    "fl_bytes (add_free_region addr sz fl) = fl_bytes fl \<union> (if unat sz < 16 then {} else region (addr, sz))" by blast+
qed

lemma align_up_value:
  assumes "k < 64" "unat a + 2 ^ k \<le> 2 ^ 64"
  shows "unat a \<le> unat (align_up a (2 ^ k))" "unat (align_up a (2 ^ k)) < unat a + 2 ^ k" "2 ^ k dvd unat (align_up a (2 ^ k))"
proof -
  have "(2 :: nat) ^ k < 2 ^ 64" using assms(1) by (rule power_strict_increasing) simp
  then have p: "unat (2 ^ k :: u64) = 2 ^ k"
    using unat_of_nat [of "2 ^ k", where ?'a = 64] by (simp add: take_bit_nat_eq_self)
  then have "(2 ^ k :: u64) \<noteq> 0" by (metis power_not_zero unsigned_0 zero_neq_numeral)
  with p have "unat (2 ^ k - 1 :: u64) = 2 ^ k - 1" by (simp add: unat_minus_one)
  then have "unat (a + (2 ^ k - 1)) = unat a + (2 ^ k - 1)"
    using assms(2) by (simp add: unat_word_ariths)
  then have eq: "unat (align_up a (2 ^ k)) = (unat a + (2 ^ k - 1)) div 2 ^ k * 2 ^ k"
    using align_down [OF assms(1), of "a + (2 ^ k - 1)"] by (simp add: align_up_def algebra_simps)
  show "2 ^ k dvd unat (align_up a (2 ^ k))" by (simp add: eq)
  have "(unat a + (2 ^ k - 1)) mod 2 ^ k < 2 ^ k" by simp
  then show "unat a \<le> unat (align_up a (2 ^ k))" "unat (align_up a (2 ^ k)) < unat a + 2 ^ k"
    unfolding eq using div_mult_mod_eq [of "unat a + (2 ^ k - 1)" "2 ^ k"] by linarith+
qed

lemma fl_remove:
  assumes "fl_ok lo hi (xs @ n # ys)"
  shows "fl_ok lo hi (xs @ ys)" "region n \<inter> fl_bytes (xs @ ys) = {}" "node_ok lo hi n" "hi < 2 ^ 64"
proof -
  have "region n \<inter> region m = {}" if "m \<in> set (xs @ ys)" for m
  proof -
    have "gap m n \<or> gap n m" using assms that by (auto simp: fl_ok_def sorted_wrt_append)
    then show ?thesis by (auto simp: gap_def region_def)
  qed
  then show "region n \<inter> fl_bytes (xs @ ys) = {}" unfolding fl_bytes_def by blast
  show "fl_ok lo hi (xs @ ys)" "node_ok lo hi n" "hi < 2 ^ 64"
    using assms by (auto simp: fl_ok_def sorted_wrt_append)
qed

lemma add_pad: "(if pad > 0 then add_free_region a pad fl else fl) = add_free_region a pad fl"
  by (simp add: add_free_region_def NODE_SIZE_def word_gt_0)

text \<open>Cutting a block out of a node: what is put back, and what is too small to keep.\<close>

lemma cut_block:
  assumes ok: "fl_ok lo hi (xs @ (n, ns) # ys)" and start: "unat n \<le> unat a" and fits: "unat a + unat sz \<le> unat n + unat ns"
  defines "fl' \<equiv> add_free_region (a + sz) (n + ns - (a + sz)) (add_free_region n (a - n) (xs @ ys))"
    and "all \<equiv> fl_bytes (xs @ (n, ns) # ys)"
  shows "fl_ok lo hi fl'" "region (a, sz) \<subseteq> all" "fl_bytes fl' \<subseteq> all - region (a, sz)"
    "card (all - region (a, sz) - fl_bytes fl') \<le> 30"
proof -
  note rem = fl_remove [OF ok]
  have n: "unat n + unat ns < 2 ^ 64" "lo \<le> unat n" "unat n + unat ns \<le> hi" using rem(3,4) by (simp_all add: node_ok_def)
  have front: "unat (a - n) = unat a - unat n" using start by (simp add: unat_sub word_le_nat_alt)
  have ends: "unat (a + sz) = unat a + unat sz" "unat (n + ns) = unat n + unat ns"
    using n fits by (simp_all add: unat_word_ariths)
  have bk: "unat (n + ns - (a + sz)) = unat n + unat ns - (unat a + unat sz)"
    using fits ends by (simp add: unat_sub word_le_nat_alt)
  let ?F = "region (n, a - n)" and ?B = "region (a + sz, n + ns - (a + sz))" and ?M = "region (a, sz)"
  have split: "region (n, ns) = ?F \<union> ?M \<union> ?B" "?F \<inter> ?M = {}" "?M \<inter> ?B = {}" "?F \<inter> ?B = {}"
    using start fits by (auto simp: region_def front bk ends)
  let ?f = "if unat (a - n) < 16 then {} else ?F" and ?b = "if unat (n + ns - (a + sz)) < 16 then {} else ?B"
  have d1: "?F \<inter> fl_bytes (xs @ ys) = {}" using rem(2) split(1) by blast
  have "unat n + unat (a - n) \<le> hi" using front start fits n(3) by simp
  note f = add_free_region_ok [OF rem(1) n(2) this d1]
  have d2: "?B \<inter> fl_bytes (add_free_region n (a - n) (xs @ ys)) = {}"
    unfolding f(2) using rem(2) split by auto
  have "lo \<le> unat (a + sz)" "unat (a + sz) + unat (n + ns - (a + sz)) \<le> hi"
    using ends bk start fits n by simp_all
  note b = add_free_region_ok [OF f(1) this d2]
  show "fl_ok lo hi fl'" unfolding fl'_def by (rule b(1))
  have bytes: "fl_bytes fl' = fl_bytes (xs @ ys) \<union> ?f \<union> ?b" unfolding fl'_def b(2) f(2) by simp
  have all: "all = fl_bytes (xs @ ys) \<union> region (n, ns)" by (auto simp: all_def)
  show "region (a, sz) \<subseteq> all" unfolding all split(1) by blast
  show "fl_bytes fl' \<subseteq> all - region (a, sz)"
    unfolding bytes all using rem(2) split by auto
  let ?leak = "(?F - ?f) \<union> (?B - ?b)"
  have "all - region (a, sz) - fl_bytes fl' \<subseteq> ?leak" unfolding bytes all split(1) by blast
  moreover have "finite ?leak" by (simp add: region_def)
  ultimately have "card (all - region (a, sz) - fl_bytes fl') \<le> card ?leak" by (rule card_mono [rotated])
  also have "\<dots> \<le> card (?F - ?f) + card (?B - ?b)" by (rule card_Un_le)
  also have "\<dots> \<le> 15 + 15" by (intro add_mono) (auto simp: region_def)
  finally show "card (all - region (a, sz) - fl_bytes fl') \<le> 30" by simp
qed

lemma find_fit_ok:
  assumes "fl_ok lo hi (seen @ fl)" "k < 64" "hi + 2 ^ k + unat sz < 2 ^ 64" "find_fit sz (2 ^ k) seen fl = Some (a, fl')"
  shows "2 ^ k dvd unat a \<and> fl_ok lo hi fl' \<and> region (a, sz) \<subseteq> fl_bytes (seen @ fl) \<and>
    fl_bytes fl' \<subseteq> fl_bytes (seen @ fl) - region (a, sz) \<and>
    card (fl_bytes (seen @ fl) - region (a, sz) - fl_bytes fl') \<le> 30"
  using assms(1,4)
proof (induction fl arbitrary: seen)
  case (Cons node rest)
  obtain n ns where node: "node = (n, ns)" by (cases node)
  have ok: "node_ok lo hi (n, ns)" using Cons.prems(1) by (simp add: node fl_ok_def)
  let ?a = "align_up n (2 ^ k)"
  have "unat n + 2 ^ k \<le> 2 ^ 64" using ok assms(3) by (simp add: node_ok_def)
  note al = align_up_value [OF assms(2) this]
  have ends: "unat (?a + sz) = unat ?a + unat sz" "unat (n + ns) = unat n + unat ns"
    using al(2) ok assms(3) by (simp_all add: unat_word_ariths node_ok_def)
  show ?case
  proof (cases "?a + sz \<le> n + ns")
    case True
    then have fits: "unat ?a + unat sz \<le> unat n + unat ns" by (simp add: word_le_nat_alt ends)
    have "a = ?a \<and> fl' = add_free_region (?a + sz) (n + ns - (?a + sz)) (add_free_region n (?a - n) (seen @ rest))"
      using Cons.prems(2) True by (auto simp: node Let_def add_pad)
    with cut_block [OF Cons.prems(1) [unfolded node] al(1) fits] al(3) show ?thesis by (simp add: node)
  next
    case False
    with Cons.IH [of "seen @ [node]"] Cons.prems show ?thesis by (simp add: node Let_def)
  qed
qed simp

lemma find_fit_complete:
  assumes "fl_ok lo hi (seen @ fl)" "k < 64" "hi + 2 ^ k + unat sz < 2 ^ 64"
    and "\<exists>n \<in> set fl. unat sz + 2 ^ k \<le> unat (snd n)"
  shows "find_fit sz (2 ^ k) seen fl \<noteq> None"
  using assms(1,4)
proof (induction fl arbitrary: seen)
  case (Cons node rest)
  obtain n ns where node: "node = (n, ns)" by (cases node)
  have ok: "node_ok lo hi (n, ns)" using Cons.prems(1) by (simp add: node fl_ok_def)
  let ?a = "align_up n (2 ^ k)"
  have "unat n + 2 ^ k \<le> 2 ^ 64" using ok assms(3) by (simp add: node_ok_def)
  note al = align_up_value [OF assms(2) this]
  have ends: "unat (?a + sz) = unat ?a + unat sz" "unat (n + ns) = unat n + unat ns"
    using al(2) ok assms(3) by (simp_all add: unat_word_ariths node_ok_def)
  show ?case
  proof (cases "?a + sz \<le> n + ns")
    case True
    then show ?thesis by (simp add: node Let_def)
  next
    case False
    then have "\<not> unat sz + 2 ^ k \<le> unat ns" using al(2) by (simp add: word_le_nat_alt ends)
    with Cons.IH [of "seen @ [node]"] Cons.prems False show ?thesis by (simp add: node Let_def)
  qed
qed simp

lemma interval_in_node:
  assumes "fl_ok lo hi fl" "{x ..< x + l} \<subseteq> fl_bytes fl" "0 < l"
  shows "\<exists>n \<in> set fl. l \<le> unat (snd n)"
  using assms(1,2)
proof (induction fl)
  case Nil
  with assms(3) show ?case by (auto simp: atLeastLessThan_empty_iff)
next
  case (Cons n fl)
  let ?e = "unat (fst n) + unat (snd n)"
  have gap: "\<And>x. x \<in> fl_bytes fl \<Longrightarrow> ?e < x" and fl: "fl_ok lo hi fl" using Cons.prems(1) by (auto simp: fl_ok_Cons)
  have "x \<in> {x ..< x + l}" using assms(3) by simp
  then have x: "x \<in> region n \<union> fl_bytes fl" using subsetD [OF Cons.prems(2)] by simp
  show ?case
  proof (cases "x \<in> region n")
    case True
    have "?e \<notin> region n \<union> fl_bytes fl" using gap by (auto simp: region_def)
    then have "\<not> (x \<le> ?e \<and> ?e < x + l)" using Cons.prems(2) by auto
    with True show ?thesis by (auto simp: region_def)
  next
    case False
    with x gap have "?e < x" by blast
    then have "{x ..< x + l} \<inter> region n = {}" by (auto simp: region_def)
    with Cons.prems(2) have "{x ..< x + l} \<subseteq> fl_bytes fl" by auto
    from Cons.IH [OF fl this] show ?thesis by auto
  qed
qed

subsection \<open>The heap on the page allocator\<close>

definition heap_wf :: "'a LockedHeap_scheme \<Rightarrow> bool" where
  "heap_wf h \<longleftrightarrow> pt_wf h (KERNEL_PML4_PHYS h) \<and> HEAP_VIRTUAL_BASE \<le> heap_end h \<and>
     fl_ok (unat HEAP_VIRTUAL_BASE) (unat (heap_end h)) (head h)"

definition managed :: "'a LockedHeap_scheme \<Rightarrow> nat set" where
  "managed h = {unat HEAP_VIRTUAL_BASE ..< unat (heap_end h)}"

lemma heap_fields:
  assumes "pmm.more h' = pmm.more h"
  shows "KERNEL_PML4_PHYS h' = KERNEL_PML4_PHYS h" "head h' = head h" "heap_end h' = heap_end h"
  using assms by (cases h; cases h'; simp)+

lemma alloc_page_pt_wf:
  assumes wf: "pt_wf s root" and a: "alloc_page s = Some (f, s')"
  shows "pt_wf s' root" "pmm.more s' = pmm.more s" "f = 0 \<longrightarrow> free_set s' = {}"
proof -
  have "pt_wf s' root \<and> pmm.more s' = pmm.more s \<and> (f = 0 \<longrightarrow> free_set s' = {})"
  proof (cases "free_set s = {}")
    case True
    obtain l where "alloc_page s = Some (0, s\<lparr>LAST_SCANNED_PAGE := l\<rparr>)"
      using alloc_page_empty [OF pt_wfD(1) [OF wf] True] by blast
    with a have s': "s' = s\<lparr>LAST_SCANNED_PAGE := l\<rparr>" by simp
    have "free_set s' = free_set s" "pmm_wf s' = pmm_wf s" by (simp_all add: s' free_set_def pmm_wf_def)
    moreover have "pt_wf s' root"
      by (rule pt_wf_same [OF wf]) (use \<open>pmm_wf s' = pmm_wf s\<close> \<open>free_set s' = free_set s\<close> pt_wfD(1) [OF wf] in \<open>simp_all add: s' get_entry_def\<close>)
    ultimately show ?thesis using True by (simp add: s')
  next
    case False
    then obtain n where n: "n \<in> free_set s" "f = frame_of n" "pmm_wf s'" "free_set s' = free_set s - {n}"
      "PHYS s' = zero_page (frame_of n) (PHYS s)" "TOTAL_SPAN_PAGES s' = TOTAL_SPAN_PAGES s" "pmm.more s' = pmm.more s"
      using alloc_page_spec [OF pt_wfD(1) [OF wf]] a by auto
    have "get_entry t j s' = get_entry t j s" if "t \<in> all_tables s root" "j < 512" for t j
      using get_entry_zeroed(1) [OF pt_wfD(2) [OF wf] n(1,5) that(2) all_tables_ok [OF wf that(1)]] .
    then have "pt_wf s' root" using pt_wf_same [OF wf _ n(3,6)] n(4) by blast
    moreover have "f \<noteq> 0" using zeroed_table_spec [OF pt_wfD(1) [OF wf]] a False by (auto simp: zeroed_table_def split: if_splits)
    ultimately show ?thesis using n(7) by simp
  qed
  then show "pt_wf s' root" "pmm.more s' = pmm.more s" "f = 0 \<longrightarrow> free_set s' = {}" by blast+
qed

lemma grow_pages_ok:
  assumes "pt_wf h (KERNEL_PML4_PHYS h)" "grow_pages start ps h = Some (ok, h')"
  shows "pt_wf h' (KERNEL_PML4_PHYS h') \<and> pmm.more h' = pmm.more h \<and> (\<not> ok \<longrightarrow> free_set h' = {})"
  using assms
proof (induction ps arbitrary: h)
  case (Cons p ps)
  obtain f h1 where a: "alloc_page h = Some (f, h1)" using Cons.prems(2) by (auto split: bind_splits)
  note al = alloc_page_pt_wf [OF Cons.prems(1) a]
  have k1: "KERNEL_PML4_PHYS h1 = KERNEL_PML4_PHYS h" by (rule heap_fields(1) [OF al(2)])
  show ?case
  proof (cases "f = 0")
    case True
    with Cons.prems(2) a al k1 show ?thesis by auto
  next
    case False
    then obtain h2 where m: "map_heap_page (start + frame_of p) f h1 = Some h2" and g: "grow_pages start ps h2 = Some (ok, h')"
      using Cons.prems(2) a by (auto split: bind_splits)
    have "pt_step (KERNEL_PML4_PHYS h) (path_tables (start + frame_of p)) h1 h2"
      using map_page_spec [OF al(1), of "start + frame_of p" f "PAGE_WRITABLE OR PAGE_NO_EXECUTE OR PAGE_GLOBAL"] m
      by (simp add: map_heap_page_def k1)
    note st = pt_stepD(1,4) [OF this]
    have "KERNEL_PML4_PHYS h2 = KERNEL_PML4_PHYS h" using heap_fields(1) [OF st(2)] k1 by simp
    with Cons.IH [OF _ g] st al(2) show ?thesis by simp
  qed
qed auto

lemma grow_by_ok:
  assumes wf: "heap_wf h" and room: "unat (heap_end h) + unat pages * 4096 < 2 ^ 64" and g: "grow_by pages h = Some h'"
  shows "heap_wf h'" "(heap_end h' = heap_end h \<and> head h' = head h \<and> free_set h' = {}) \<or>
    (unat (heap_end h') = unat (heap_end h) + unat pages * 4096 \<and>
     fl_bytes (head h') = fl_bytes (head h) \<union> (if pages = 0 then {} else {unat (heap_end h) ..< unat (heap_end h) + unat pages * 4096}))"
proof -
  let ?lo = "unat HEAP_VIRTUAL_BASE" and ?hi = "unat (heap_end h)"
  have w: "pt_wf h (KERNEL_PML4_PHYS h)" "HEAP_VIRTUAL_BASE \<le> heap_end h" "fl_ok ?lo ?hi (head h)"
    using wf by (simp_all add: heap_wf_def)
  obtain ok h1 where g1: "grow_pages (heap_end h) [0..<unat pages] h = Some (ok, h1)"
    and h': "h' = (if ok then h1\<lparr>heap_end := heap_end h + pages * PMM_PAGE_SIZE,
        head := add_free_region (heap_end h) (pages * PMM_PAGE_SIZE) (head h1)\<rparr> else h1)"
    using g by (auto simp: grow_by_def split: bind_splits)
  have 1: "pt_wf h1 (KERNEL_PML4_PHYS h1)" "pmm.more h1 = pmm.more h" "\<not> ok \<longrightarrow> free_set h1 = {}"
    using grow_pages_ok [OF w(1) g1] by auto
  note fields = heap_fields [OF 1(2)]
  have bytes: "unat (pages * PMM_PAGE_SIZE) = unat pages * 4096" "unat (heap_end h + pages * PMM_PAGE_SIZE) = ?hi + unat pages * 4096"
    using room by (simp_all add: PMM_PAGE_SIZE_def unat_word_ariths)
  have ext: "fl_ok ?lo (?hi + unat pages * 4096) (head h)"
    using w(3) room by (auto simp: fl_ok_def node_ok_def)
  have "fl_bytes (head h) \<subseteq> {..<?hi}"
    using w(3) by (force simp: fl_ok_def node_ok_def fl_bytes_def region_def)
  then have disj: "region (heap_end h, pages * PMM_PAGE_SIZE) \<inter> fl_bytes (head h) = {}" by (auto simp: region_def)
  have "?lo \<le> unat (heap_end h)" using w(2) by (simp add: word_le_nat_alt)
  note add = add_free_region_ok [OF ext this _ disj, unfolded bytes, OF order_refl]
  have same: "pt_wf (h1\<lparr>heap_end := e, head := fl\<rparr>) r = pt_wf h1 r" for e fl r
    by (rule pt_fields) simp_all
  show "heap_wf h'"
    using 1 w add(1) bytes fields by (auto simp: heap_wf_def h' same word_le_nat_alt)
  have "fl_bytes (add_free_region (heap_end h) (pages * PMM_PAGE_SIZE) (head h)) =
      fl_bytes (head h) \<union> (if pages = 0 then {} else {?hi ..< ?hi + unat pages * 4096})"
    unfolding add(2) by (auto simp: region_def bytes unat_eq_zero)
  then show "(heap_end h' = heap_end h \<and> head h' = head h \<and> free_set h' = {}) \<or>
    (unat (heap_end h') = ?hi + unat pages * 4096 \<and>
     fl_bytes (head h') = fl_bytes (head h) \<union> (if pages = 0 then {} else {?hi ..< ?hi + unat pages * 4096}))"
    using 1(3) fields bytes by (cases ok) (simp_all add: h')
qed

subsection \<open>Allocation\<close>

text \<open>A layout: a size and the exponent of its alignment, a power of two.\<close>

type_synonym layout = "u64 \<times> nat"

definition admissible :: "layout \<Rightarrow> 'a LockedHeap_scheme \<Rightarrow> bool" where
  "admissible l h \<longleftrightarrow> snd l < 64 \<and> unat (fst l) + 2 ^ snd l \<le> 2 ^ 32 \<and> unat (heap_end h) \<le> 2 ^ 64 - 2 ^ 34"

definition block :: "layout \<Rightarrow> u64 \<Rightarrow> nat set" where
  "block l a = region (a, max (fst l) NODE_SIZE)"

lemma unat_power: "k < 64 \<Longrightarrow> unat (2 ^ k :: u64) = 2 ^ k"
proof -
  assume "k < 64"
  then have "(2 :: nat) ^ k < 2 ^ 64" by (rule power_strict_increasing) simp
  then show ?thesis using unat_of_nat [of "2 ^ k", where ?'a = 64] by (simp add: take_bit_nat_eq_self)
qed

lemma unat_max: "unat (max a b :: u64) = max (unat a) (unat b)"
  by (simp add: max_def word_le_nat_alt)

lemma max_power: "max (2 ^ k) 8 = (2 ^ max k 3 :: nat)"
proof -
  have "(2 :: nat) ^ k \<le> 2 ^ 3 \<longleftrightarrow> k \<le> 3" by (rule power_increasing_iff) simp
  then show ?thesis by (auto simp: max_def)
qed

lemma max_align: "k < 64 \<Longrightarrow> max (2 ^ k) 8 = (2 ^ max k 3 :: u64)"
  by (simp add: word_unat_eq_iff unat_max unat_power max_power)

lemma take_fit:
  assumes wf: "heap_wf h" and fit: "find_and_remove sz (2 ^ k) (head h) = Some (a, fl)" and k: "k < 64"
    and room: "unat (heap_end h) + 2 ^ k + unat sz < 2 ^ 64" and sz: "0 < unat sz"
  shows "heap_wf (h\<lparr>head := fl\<rparr>)" "a \<noteq> 0" "2 ^ k dvd unat a" "region (a, sz) \<subseteq> fl_bytes (head h)"
    "fl_bytes fl \<subseteq> fl_bytes (head h) - region (a, sz)" "card (fl_bytes (head h) - region (a, sz) - fl_bytes fl) \<le> 30"
proof -
  have w: "pt_wf h (KERNEL_PML4_PHYS h)" "fl_ok (unat HEAP_VIRTUAL_BASE) (unat (heap_end h)) (head h)"
    using wf by (simp_all add: heap_wf_def)
  note f = find_fit_ok [of _ _ "[]", unfolded append_Nil, OF w(2) k room fit [unfolded find_and_remove_def]]
  show "2 ^ k dvd unat a" "region (a, sz) \<subseteq> fl_bytes (head h)"
    "fl_bytes fl \<subseteq> fl_bytes (head h) - region (a, sz)" "card (fl_bytes (head h) - region (a, sz) - fl_bytes fl) \<le> 30"
    using f by blast+
  have "pt_wf (h\<lparr>head := fl\<rparr>) r = pt_wf h r" for r by (rule pt_fields) simp_all
  then show "heap_wf (h\<lparr>head := fl\<rparr>)" using wf f by (simp add: heap_wf_def)
  have "unat a \<in> fl_bytes (head h)" using f sz by (auto simp: region_def)
  then have "unat HEAP_VIRTUAL_BASE \<le> unat a"
    using w(2) by (force simp: fl_ok_def node_ok_def fl_bytes_def region_def)
  then show "a \<noteq> 0" by (auto simp: HEAP_VIRTUAL_BASE_def)
qed

definition grow_request :: "layout \<Rightarrow> u64" where
  "grow_request l = max ((max (fst l) NODE_SIZE + max (2 ^ snd l) 8 + PMM_PAGE_SIZE + PMM_PAGE_SIZE - 1) div PMM_PAGE_SIZE) 256"

lemma admissibleD:
  assumes "admissible l h"
  defines "sz \<equiv> max (fst l) NODE_SIZE" and "k \<equiv> max (snd l) 3"
  shows "k < 64" "max (2 ^ snd l) 8 = (2 ^ k :: u64)" "16 \<le> unat sz" "unat (heap_end h) + 2 ^ k + unat sz < 2 ^ 64"
    "unat (heap_end h) + unat (grow_request l) * 4096 + 2 ^ k + unat sz < 2 ^ 64"
    "unat sz + 2 ^ k \<le> unat (grow_request l) * 4096" "grow_request l \<noteq> 0"
proof -
  have adm: "snd l < 64" "unat (fst l) + 2 ^ snd l \<le> 2 ^ 32" "unat (heap_end h) \<le> 2 ^ 64 - 2 ^ 34"
    using assms(1) by (simp_all add: admissible_def)
  show k: "k < 64" using adm(1) by (simp add: k_def)
  show al: "max (2 ^ snd l) 8 = (2 ^ k :: u64)" unfolding k_def by (rule max_align [OF adm(1)])
  have sz: "unat sz = max (unat (fst l)) 16" by (simp add: sz_def NODE_SIZE_def unat_max)
  have kk: "(2 :: nat) ^ k = max (2 ^ snd l) 8" by (simp add: k_def max_power)
  show "16 \<le> unat sz" by (simp add: sz)
  have sum: "unat sz + 2 ^ k \<le> 2 ^ 32 + 24" unfolding sz kk using adm(2) by simp
  then show "unat (heap_end h) + 2 ^ k + unat sz < 2 ^ 64" using adm(3) by simp
  let ?need = "sz + 2 ^ k + PMM_PAGE_SIZE + PMM_PAGE_SIZE - 1"
  have "?need = sz + 2 ^ k + 8191" by (simp add: PMM_PAGE_SIZE_def)
  moreover have "unat (sz + 2 ^ k + 8191) = unat sz + 2 ^ k + 8191"
    using sum unat_power [OF k] by (simp add: unat_word_ariths)
  ultimately have g: "unat (grow_request l) = max ((unat sz + 2 ^ k + 8191) div 4096) 256"
    by (simp add: grow_request_def al sz_def [symmetric] unat_max unat_div PMM_PAGE_SIZE_def add.commute [of 8191])
  have "x \<le> max ((x + 8191) div 4096) 256 * 4096" for x :: nat by linarith
  then show le: "unat sz + 2 ^ k \<le> unat (grow_request l) * 4096" unfolding g .
  have "unat (grow_request l) * 4096 \<le> 2 ^ 32 + 2 ^ 21" unfolding g using sum by (simp add: max_def) linarith
  with adm(3) sum show "unat (heap_end h) + unat (grow_request l) * 4096 + 2 ^ k + unat sz < 2 ^ 64" by simp
  from le \<open>16 \<le> unat sz\<close> show "grow_request l \<noteq> 0" by auto
qed

text \<open>
  What an allocation may do: fail because no physical page is left, or hand out an aligned block of bytes that
  were free or are new, and lose at most thirty bytes of padding.
\<close>

definition alloc_result :: "layout \<Rightarrow> 'a LockedHeap_scheme \<Rightarrow> u64 \<Rightarrow> 'a LockedHeap_scheme \<Rightarrow> bool" where
  "alloc_result l h a h' \<longleftrightarrow> heap_wf h' \<and> heap_end h \<le> heap_end h' \<and>
     (if a = 0 then free_set h' = {} \<and> fl_bytes (head h') = fl_bytes (head h)
      else (let avail = fl_bytes (head h) \<union> (managed h' - managed h)
            in 2 ^ snd l dvd unat a \<and> block l a \<subseteq> avail \<and> fl_bytes (head h') \<subseteq> avail - block l a \<and>
               card (avail - block l a - fl_bytes (head h')) \<le> 30))"

lemma take_fit_result:
  assumes "heap_wf h1" "heap_end h \<le> heap_end h1" "fl_bytes (head h1) = fl_bytes (head h) \<union> (managed h1 - managed h)"
    and "find_and_remove (max (fst l) NODE_SIZE) (2 ^ max (snd l) 3) (head h1) = Some (a, fl)" "max (snd l) 3 < 64"
    and "unat (heap_end h1) + 2 ^ max (snd l) 3 + unat (max (fst l) NODE_SIZE) < 2 ^ 64" "16 \<le> unat (max (fst l) NODE_SIZE)"
  shows "alloc_result l h a (h1\<lparr>head := fl\<rparr>)"
proof -
  note t = take_fit [OF assms(1,4,5,6)]
  have "2 ^ snd l dvd (2 ^ max (snd l) 3 :: nat)" by (rule le_imp_power_dvd) simp
  moreover have "managed (h1\<lparr>head := fl\<rparr>) = managed h1" by (simp add: managed_def)
  ultimately show ?thesis
    using t assms(2,3,7) by (auto simp: alloc_result_def block_def Let_def intro: dvd_trans)
qed

lemma heap_alloc_ok:
  assumes wf: "heap_wf h" and adm: "admissible l h" and a: "heap_alloc (fst l) (2 ^ snd l) h = Some (a, h')"
  shows "alloc_result l h a h'"
proof -
  let ?sz = "max (fst l) NODE_SIZE" and ?k = "max (snd l) 3"
  note D = admissibleD [OF adm]
  show ?thesis
  proof (cases "find_and_remove ?sz (2 ^ ?k) (head h)")
    case (Some r)
    then obtain fl where fit: "find_and_remove ?sz (2 ^ ?k) (head h) = Some (a, fl)" and h': "h' = h\<lparr>head := fl\<rparr>"
      using a by (cases r) (auto simp: heap_alloc_def Let_def D(2))
    from take_fit_result [OF wf _ _ fit D(1,4,3), of h] show ?thesis by (simp add: h')
  next
    case None
    obtain h1 where g: "grow_by (grow_request l) h = Some h1"
      and r: "(a, h') = (case find_and_remove ?sz (2 ^ ?k) (head h1) of Some (addr, fl) \<Rightarrow> (addr, h1\<lparr>head := fl\<rparr>) | None \<Rightarrow> (0, h1))"
      using a None by (auto simp: heap_alloc_def Let_def grow_request_def D(2) split: bind_splits)
    have room: "unat (heap_end h) + unat (grow_request l) * 4096 < 2 ^ 64" using D(5) by simp
    note gr = grow_by_ok [OF wf room g]
    let ?new = "{unat (heap_end h) ..< unat (heap_end h) + unat (grow_request l) * 4096}"
    consider "heap_end h1 = heap_end h" "head h1 = head h" "free_set h1 = {}"
      | "unat (heap_end h1) = unat (heap_end h) + unat (grow_request l) * 4096" "fl_bytes (head h1) = fl_bytes (head h) \<union> ?new"
      using gr(2) D(7) by auto
    then show ?thesis
    proof cases
      case 1
      with None r gr(1) show ?thesis by (auto simp: alloc_result_def)
    next
      case 2
      have ok: "fl_ok (unat HEAP_VIRTUAL_BASE) (unat (heap_end h1)) (head h1)" using gr(1) by (simp add: heap_wf_def)
      have room1: "unat (heap_end h1) + 2 ^ ?k + unat ?sz < 2 ^ 64" using D(5) 2(1) by simp
      have "0 < unat (grow_request l) * 4096" using D(3,6) by simp
      then have "\<exists>n \<in> set (head h1). unat (grow_request l) * 4096 \<le> unat (snd n)"
        using interval_in_node [OF ok] 2(2) by blast
      then have "\<exists>n \<in> set (head h1). unat ?sz + 2 ^ ?k \<le> unat (snd n)" using D(6) order_trans by blast
      then obtain fl where fit: "find_and_remove ?sz (2 ^ ?k) (head h1) = Some (a, fl)" and h': "h' = h1\<lparr>head := fl\<rparr>"
        using find_fit_complete [of _ _ "[]", unfolded append_Nil, OF ok D(1) room1] r
        by (auto simp: find_and_remove_def split: option.splits)
      have "managed h1 - managed h = ?new" using wf 2(1) by (auto simp: managed_def heap_wf_def word_le_nat_alt)
      then show ?thesis
        using take_fit_result [OF gr(1) _ _ fit D(1) room1 D(3), of h] 2 by (simp add: h' word_le_nat_alt)
    qed
  qed
qed

lemma heap_dealloc_ok:
  assumes wf: "heap_wf h" and b: "block l a \<subseteq> managed h - fl_bytes (head h)"
  shows "heap_wf (heap_dealloc a (fst l) h)" "heap_end (heap_dealloc a (fst l) h) = heap_end h"
    "fl_bytes (head (heap_dealloc a (fst l) h)) = fl_bytes (head h) \<union> block l a"
proof -
  let ?sz = "max (fst l) NODE_SIZE" and ?lo = "unat HEAP_VIRTUAL_BASE"
  have w: "fl_ok ?lo (unat (heap_end h)) (head h)" using wf by (simp add: heap_wf_def)
  have sz: "16 \<le> unat ?sz" by (simp add: NODE_SIZE_def unat_max)
  have "unat a \<in> block l a" "unat a + unat ?sz - 1 \<in> block l a" using sz by (auto simp: block_def region_def)
  then have "unat a \<in> managed h" "unat a + unat ?sz - 1 \<in> managed h" using b by blast+
  then have "?lo \<le> unat a" "unat a + unat ?sz \<le> unat (heap_end h)" using sz by (auto simp: managed_def)
  moreover have "region (a, ?sz) \<inter> fl_bytes (head h) = {}" using b by (auto simp: block_def)
  ultimately have add: "fl_ok ?lo (unat (heap_end h)) (add_free_region a ?sz (head h))"
    "fl_bytes (add_free_region a ?sz (head h)) = fl_bytes (head h) \<union> block l a"
    using add_free_region_ok [OF w] sz by (simp_all add: block_def)
  have "pt_wf (heap_dealloc a (fst l) h) r = pt_wf h r" for r by (rule pt_fields) (simp_all add: heap_dealloc_def)
  then show "heap_wf (heap_dealloc a (fst l) h)" using wf add(1) by (simp add: heap_wf_def heap_dealloc_def)
  show "heap_end (heap_dealloc a (fst l) h) = heap_end h"
    "fl_bytes (head (heap_dealloc a (fst l) h)) = fl_bytes (head h) \<union> block l a"
    using add(2) by (simp_all add: heap_dealloc_def)
qed

subsection \<open>The contract of a block allocator\<close>

text \<open>
  What the kernel's collections rely on: blocks come out of free or newly managed bytes, and freeing a block makes
  exactly its bytes free again. Blocks in use are then disjoint, whatever the order of the operations.
\<close>

definition live_ok :: "nat set \<Rightarrow> nat set \<Rightarrow> nat set list \<Rightarrow> bool" where
  "live_ok all free bs \<longleftrightarrow> sorted_wrt (\<lambda>b c. b \<inter> c = {}) bs \<and> (\<forall>b \<in> set bs. b \<subseteq> all - free)"

locale block_allocator =
  fixes inv :: "'s \<Rightarrow> bool" and all_bytes :: "'s \<Rightarrow> nat set" and free_bytes :: "'s \<Rightarrow> nat set"
    and blk :: "'l \<Rightarrow> u64 \<Rightarrow> nat set" and adm :: "'l \<Rightarrow> 's \<Rightarrow> bool"
    and alloc :: "'l \<Rightarrow> 's \<Rightarrow> (u64 \<times> 's) option" and dealloc :: "u64 \<Rightarrow> 'l \<Rightarrow> 's \<Rightarrow> 's"
  assumes alloc_inv: "inv s \<Longrightarrow> adm l s \<Longrightarrow> alloc l s = Some (a, s') \<Longrightarrow> inv s' \<and> all_bytes s \<subseteq> all_bytes s'"
    and alloc_fail: "inv s \<Longrightarrow> adm l s \<Longrightarrow> alloc l s = Some (0, s') \<Longrightarrow> free_bytes s' \<subseteq> free_bytes s"
    and alloc_block: "inv s \<Longrightarrow> adm l s \<Longrightarrow> alloc l s = Some (a, s') \<Longrightarrow> a \<noteq> 0 \<Longrightarrow>
      blk l a \<subseteq> free_bytes s \<union> (all_bytes s' - all_bytes s) \<and>
      free_bytes s' \<subseteq> (free_bytes s \<union> (all_bytes s' - all_bytes s)) - blk l a"
    and dealloc_block: "inv s \<Longrightarrow> blk l a \<subseteq> all_bytes s - free_bytes s \<Longrightarrow>
      inv (dealloc a l s) \<and> all_bytes (dealloc a l s) = all_bytes s \<and> free_bytes (dealloc a l s) = free_bytes s \<union> blk l a"
    and free_managed: "inv s \<Longrightarrow> free_bytes s \<subseteq> all_bytes s"
begin

lemma alloc_live:
  assumes "inv s" "adm l s" "alloc l s = Some (a, s')" "live_ok (all_bytes s) (free_bytes s) bs"
  shows "live_ok (all_bytes s') (free_bytes s') (if a = 0 then bs else blk l a # bs)"
proof (cases "a = 0")
  case True
  then show ?thesis
    using assms alloc_inv [OF assms(1-3)] alloc_fail [OF assms(1,2)] by (auto simp: live_ok_def)
next
  case False
  note b = alloc_block [OF assms(1-3) False]
  have inv': "all_bytes s \<subseteq> all_bytes s'" using alloc_inv [OF assms(1-3)] by simp
  have old: "blk l a \<inter> c = {}" "c \<subseteq> all_bytes s' - free_bytes s'" if "c \<in> set bs" for c
  proof -
    have "c \<subseteq> all_bytes s - free_bytes s" using that assms(4) by (simp add: live_ok_def)
    then show "blk l a \<inter> c = {}" "c \<subseteq> all_bytes s' - free_bytes s'" using b inv' by blast+
  qed
  moreover have "blk l a \<subseteq> all_bytes s' - free_bytes s'" using b free_managed [OF assms(1)] inv' by blast
  ultimately show ?thesis using False assms(4) by (simp add: live_ok_def)
qed

lemma dealloc_live:
  assumes "inv s" "live_ok (all_bytes s) (free_bytes s) (xs @ blk l a # ys)"
  shows "live_ok (all_bytes (dealloc a l s)) (free_bytes (dealloc a l s)) (xs @ ys)"
proof -
  have "blk l a \<subseteq> all_bytes s - free_bytes s" using assms(2) by (simp add: live_ok_def)
  note d = dealloc_block [OF assms(1) this]
  have "c \<inter> blk l a = {}" if "c \<in> set (xs @ ys)" for c
    using that assms(2) by (auto simp: live_ok_def sorted_wrt_append)
  then show ?thesis using assms(2) d by (auto simp: live_ok_def sorted_wrt_append)
qed

end

lemma fl_bytes_managed: "heap_wf h \<Longrightarrow> fl_bytes (head h) \<subseteq> managed h"
  by (force simp: heap_wf_def fl_ok_def node_ok_def fl_bytes_def region_def managed_def)

interpretation heap: block_allocator "heap_wf :: 'a LockedHeap_scheme \<Rightarrow> bool" managed "\<lambda>h. fl_bytes (head h)" block admissible
    "\<lambda>l. heap_alloc (fst l) (2 ^ snd l)" "\<lambda>a l. heap_dealloc a (fst l)"
proof
  fix h h' :: "'a LockedHeap_scheme" and l a
  assume "heap_wf h" "admissible l h" "heap_alloc (fst l) (2 ^ snd l) h = Some (a, h')"
  then show "heap_wf h' \<and> managed h \<subseteq> managed h'"
    using heap_alloc_ok by (fastforce simp: alloc_result_def managed_def word_le_nat_alt)
next
  fix h h' :: "'a LockedHeap_scheme" and l
  assume "heap_wf h" "admissible l h" "heap_alloc (fst l) (2 ^ snd l) h = Some (0, h')"
  then show "fl_bytes (head h') \<subseteq> fl_bytes (head h)"
    using heap_alloc_ok by (fastforce simp: alloc_result_def)
next
  fix h h' :: "'a LockedHeap_scheme" and l a
  assume "heap_wf h" "admissible l h" "heap_alloc (fst l) (2 ^ snd l) h = Some (a, h')" "a \<noteq> 0"
  then show "block l a \<subseteq> fl_bytes (head h) \<union> (managed h' - managed h) \<and>
      fl_bytes (head h') \<subseteq> (fl_bytes (head h) \<union> (managed h' - managed h)) - block l a"
    using heap_alloc_ok [of h l a h'] by (simp add: alloc_result_def Let_def)
next
  fix h :: "'a LockedHeap_scheme" and l a
  assume h: "heap_wf h" "block l a \<subseteq> managed h - fl_bytes (head h)"
  show "heap_wf (heap_dealloc a (fst l) h) \<and> managed (heap_dealloc a (fst l) h) = managed h \<and>
      fl_bytes (head (heap_dealloc a (fst l) h)) = fl_bytes (head h) \<union> block l a"
    using heap_dealloc_ok [OF h] by (simp add: managed_def)
qed (rule fl_bytes_managed)

subsection \<open>Runs\<close>

type_synonym live = "(u64 \<times> layout) list"

inductive heap_step :: "('a LockedHeap_scheme \<times> live) \<Rightarrow> ('a LockedHeap_scheme \<times> live) \<Rightarrow> bool" where
  step_alloc: "admissible l h \<Longrightarrow> heap_alloc (fst l) (2 ^ snd l) h = Some (a, h') \<Longrightarrow>
    heap_step (h, live) (h', if a = 0 then live else (a, l) # live)"
| step_dealloc: "heap_step (h, xs @ (a, l) # ys) (heap_dealloc a (fst l) h, xs @ ys)"

inductive_cases heap_stepE: "heap_step (h, live) (h', live')"

definition heap_ok :: "'a LockedHeap_scheme \<times> live \<Rightarrow> bool" where
  "heap_ok s = (let (h, live) = s
     in heap_wf h \<and> live_ok (managed h) (fl_bytes (head h)) (map (\<lambda>(a, l). block l a) live) \<and>
        (\<forall>(a, l) \<in> set live. 2 ^ snd l dvd unat a))"

lemma heap_step_ok:
  assumes "heap_step s s'" "heap_ok s"
  shows "heap_ok s'"
  using assms
proof (cases rule: heap_step.cases)
  case (step_alloc l h a h' live)
  have wf: "heap_wf h" and live: "live_ok (managed h) (fl_bytes (head h)) (map (\<lambda>(a, l). block l a) live)"
    using assms(2) by (simp_all add: step_alloc heap_ok_def)
  note al = heap.alloc_live [OF wf step_alloc(3,4) live] heap_alloc_ok [OF wf step_alloc(3,4)]
  show ?thesis
    using assms(2) al by (auto simp: step_alloc(1,2) heap_ok_def alloc_result_def Let_def)
next
  case (step_dealloc h xs a l ys)
  have wf: "heap_wf h" and live: "live_ok (managed h) (fl_bytes (head h)) (map (\<lambda>(a, l). block l a) (xs @ (a, l) # ys))"
    using assms(2) by (simp_all add: step_dealloc heap_ok_def)
  then have "block l a \<subseteq> managed h - fl_bytes (head h)" by (simp add: live_ok_def)
  note d = heap_dealloc_ok [OF wf this] heap.dealloc_live [OF wf live [unfolded map_append list.map split]]
  show ?thesis using assms(2) d by (auto simp: step_dealloc heap_ok_def)
qed

text \<open>
  C19. Blocks of the kernel heap never overlap. From any well-formed heap with no blocks in use, after any
  sequence of allocations and of releases of blocks in use, the blocks in use are aligned as requested,
  pairwise disjoint, inside the mapped heap window and disjoint from every free block, and the
  free list is again in address order with all adjacent blocks merged.
\<close>

theorem heap_blocks_disjoint:
  fixes h h' :: "'a LockedHeap_scheme"
  assumes "heap_wf h" "heap_step\<^sup>*\<^sup>* (h, []) (h', live)"
  shows "heap_wf h' \<and> sorted_wrt (\<lambda>(a, l) (b, m). block l a \<inter> block m b = {}) live \<and>
    (\<forall>(a, l) \<in> set live. 2 ^ snd l dvd unat a \<and> block l a \<subseteq> managed h' - fl_bytes (head h'))"
proof -
  have "heap_ok s'" if "heap_step\<^sup>*\<^sup>* s s'" "heap_ok s" for s s' :: "'a LockedHeap_scheme \<times> live"
    using that by (induction rule: rtranclp_induct) (auto intro: heap_step_ok)
  moreover have "heap_ok (h, [])" using assms(1) by (simp add: heap_ok_def live_ok_def)
  ultimately have "heap_ok (h', live)" using assms(2) by blast
  then show ?thesis
    by (auto simp: heap_ok_def live_ok_def sorted_wrt_map case_prod_beta')
qed

definition demo_heap :: LockedHeap where
  "demo_heap = vmm.extend demo_vmm \<lparr>head = [(HEAP_VIRTUAL_BASE, 0x2000)], heap_end = HEAP_VIRTUAL_BASE + 0x2000\<rparr>"

lemma demo_heap_fields:
  "PHYS demo_heap = PHYS demo_vmm" "USED_BITMAP demo_heap = USED_BITMAP demo_vmm" "RESERVED_BITMAP demo_heap = RESERVED_BITMAP demo_vmm"
  "TOTAL_SPAN_PAGES demo_heap = TOTAL_SPAN_PAGES demo_vmm" "STATS demo_heap = STATS demo_vmm"
  "KERNEL_PML4_PHYS demo_heap = 0x1000" "head demo_heap = [(HEAP_VIRTUAL_BASE, 0x2000)]" "heap_end demo_heap = HEAP_VIRTUAL_BASE + 0x2000"
  by (simp_all add: demo_heap_def demo_vmm_def vmm.defs)

lemma demo_heap_wf: "heap_wf demo_heap"
proof -
  have "pt_wf demo_heap 0x1000 = pt_wf demo_vmm 0x1000" by (rule pt_fields) (simp_all add: demo_heap_fields)
  then have "pt_wf demo_heap 0x1000" using demo_pt_wf(1) [of 1] by simp
  then show ?thesis by (simp add: heap_wf_def demo_heap_fields HEAP_VIRTUAL_BASE_def fl_ok_def node_ok_def)
qed

lemma demo_alloc:
  "heap_alloc 24 (2 ^ 6) demo_heap = Some (HEAP_VIRTUAL_BASE, demo_heap\<lparr>head := [(HEAP_VIRTUAL_BASE + 24, 0x1fe8)]\<rparr>)"
  by (simp add: heap_alloc_def find_and_remove_def demo_heap_fields align_up_def Let_def HEAP_VIRTUAL_BASE_def
      NODE_SIZE_def add_free_region_def max_def)

theorem heap_blocks_disjoint_witness:
  "block (24, 6) HEAP_VIRTUAL_BASE \<subseteq> managed demo_heap - {unat HEAP_VIRTUAL_BASE + 24 ..< unat HEAP_VIRTUAL_BASE + 0x2000}"
proof -
  let ?h = "demo_heap\<lparr>head := [(HEAP_VIRTUAL_BASE + 24, 0x1fe8)]\<rparr>"
  have "heap_step (demo_heap, []) (?h, [(HEAP_VIRTUAL_BASE, (24, 6))])"
    using heap_step.step_alloc [of "(24, 6)" demo_heap HEAP_VIRTUAL_BASE ?h "[]"] demo_alloc
    by (simp add: admissible_def demo_heap_fields HEAP_VIRTUAL_BASE_def)
  with heap_blocks_disjoint [OF demo_heap_wf, of ?h "[(HEAP_VIRTUAL_BASE, (24, 6))]"] show ?thesis
    by (simp add: r_into_rtranclp managed_def region_def HEAP_VIRTUAL_BASE_def)
qed

text \<open>
  Allocation is as good as the page allocator: a request of admissible size either gets an aligned block of
  free or newly mapped bytes, at most thirty bytes of padding being lost, or it fails,
  and then no physical page is left and the free list is unchanged.
\<close>

lemma heap_alloc_exact:
  assumes "heap_wf h" "admissible l h" "heap_alloc (fst l) (2 ^ snd l) h = Some (a, h')"
  shows "heap_wf h' \<and> heap_end h \<le> heap_end h' \<and>
     (if a = 0 then free_set h' = {} \<and> fl_bytes (head h') = fl_bytes (head h)
      else (let avail = fl_bytes (head h) \<union> (managed h' - managed h)
            in 2 ^ snd l dvd unat a \<and> block l a \<subseteq> avail \<and> fl_bytes (head h') \<subseteq> avail - block l a \<and>
               card (avail - block l a - fl_bytes (head h')) \<le> 30))"
  using heap_alloc_ok [OF assms] unfolding alloc_result_def .



end
