(* ===== verification/Supervision.thy ===== *)
theory Supervision
  imports Audit_Log
begin

text \<open>
  Driver supervision: the restart decision (\<^verbatim>\<open>kernel_common/src/supervision.rs\<close>), the device manager with its
  life cycle of devices (\<^verbatim>\<open>kernel_rs/src/device_manager.rs\<close>), the supervisor that turns the death of a driver thread
  into a restart (\<^verbatim>\<open>kernel_rs/src/supervisor.rs\<close>), the start-up pass of \<^verbatim>\<open>service_manager.rs\<close> and the table
  matcher of \<^verbatim>\<open>kernel_common/src/driver_registry.rs\<close>. A respawn function is known by its address only; calling it
  is recorded in the state. All of it runs under the kernel lock, so an operation is one step.
\<close>

subsection \<open>Identity of a device and the restart decision\<close>

definition pack_bdf :: "u8 \<Rightarrow> u8 \<Rightarrow> u8 \<Rightarrow> u32" where
  "pack_bdf bus dev fn = push_bit 16 (ucast bus) OR push_bit 8 (ucast dev) OR ucast fn"

definition unpack_bdf :: "u32 \<Rightarrow> u8 \<times> u8 \<times> u8" where
  "unpack_bdf packed =
     (ucast (drop_bit 16 packed AND 0xFF), ucast (drop_bit 8 packed AND 0xFF), ucast (packed AND 0xFF))"

datatype RestartDecision = Restart (attempt: u32) | Quarantine

definition decide_restart :: "u32 \<Rightarrow> u32 \<Rightarrow> RestartDecision" where
  "decide_restart prior_restart_count max_restarts =
     (if prior_restart_count \<ge> max_restarts then Quarantine else Restart (prior_restart_count + 1))"

subsection \<open>The device manager\<close>

definition MAX_RESTARTS :: u32 where "MAX_RESTARTS = 3"

datatype DeviceState = Discovered | Bound | Running | Crashed | Restarting | Failed

datatype DriverKind = HostBridge | IsaBridge | AhciController | VgaController | SmBusController | UnknownKind | Compositor

record PciDevice =
  pci_bus :: u8
  pci_device :: u8
  pci_function :: u8
  vendor_id :: u16
  device_id :: u16
  pci_class :: u8
  pci_subclass :: u8
  pci_prog_if :: u8
  header_type :: u8

definition classify :: "PciDevice \<Rightarrow> DriverKind" where
  "classify d =
     (if pci_class d = 0x06 \<and> pci_subclass d = 0x00 then HostBridge
      else if pci_class d = 0x06 \<and> pci_subclass d = 0x01 then IsaBridge
      else if pci_class d = 0x01 \<and> pci_subclass d = 0x06 \<and> pci_prog_if d = 0x01 then AhciController
      else if pci_class d = 0x03 \<and> pci_subclass d = 0x00 then VgaController
      else if pci_class d = 0x0C \<and> pci_subclass d = 0x05 then SmBusController
      else UnknownKind)"

record ManagedDevice =
  md_pci :: PciDevice
  driver_kind :: DriverKind
  dev_state :: DeviceState
  restart_count :: u32

record SupervisedDriver =
  sd_bus :: u8
  sd_device :: u8
  sd_function :: u8
  sd_respawn :: u64
  owner_thread :: u64

record sup_state = audit_state +
  devices :: "ManagedDevice list"
  registry :: "SupervisedDriver list"
  respawn_calls :: "(u8 \<times> u8 \<times> u8 \<times> u64) list"

definition dev_at :: "u8 \<Rightarrow> u8 \<Rightarrow> u8 \<Rightarrow> ManagedDevice \<Rightarrow> bool" where
  "dev_at bus dev fn d \<longleftrightarrow> pci_bus (md_pci d) = bus \<and> pci_device (md_pci d) = dev \<and> pci_function (md_pci d) = fn"

definition discover :: "PciDevice list \<Rightarrow> 'a sup_state_scheme \<Rightarrow> 'a sup_state_scheme" where
  "discover found s = s\<lparr>devices := devices s @
     map (\<lambda>d. \<lparr>md_pci = d, driver_kind = classify d, dev_state = Discovered, restart_count = 0\<rparr>) found\<rparr>"

definition bind_all :: "'a sup_state_scheme \<Rightarrow> 'a sup_state_scheme" where
  "bind_all s = s\<lparr>devices := map (\<lambda>d. if driver_kind d = UnknownKind then d else d\<lparr>dev_state := Bound\<rparr>) (devices s)\<rparr>"

definition mark_running :: "u8 \<Rightarrow> u8 \<Rightarrow> u8 \<Rightarrow> 'a sup_state_scheme \<Rightarrow> 'a sup_state_scheme" where
  "mark_running bus dev fn s = s\<lparr>devices := update_first (dev_at bus dev fn)
     (\<lambda>d. if dev_state d = Bound \<or> dev_state d = Restarting then d\<lparr>dev_state := Running\<rparr> else d) (devices s)\<rparr>"

definition report_crash ::
    "u8 \<Rightarrow> u8 \<Rightarrow> u8 \<Rightarrow> u8 option \<Rightarrow> 'a sup_state_scheme \<Rightarrow> bool \<times> 'a sup_state_scheme" where
  "report_crash bus dev fn fault_vector s =
     (case List.find (dev_at bus dev fn) (devices s) of
        None \<Rightarrow> (False, s)
      | Some d \<Rightarrow>
          (let bdf = pack_bdf bus dev fn;
               s = s\<lparr>devices := update_first (dev_at bus dev fn) (\<lambda>d. d\<lparr>dev_state := Crashed\<rparr>) (devices s)\<rparr>;
               s = audit_record (ProcessCrashed bdf (case fault_vector of None \<Rightarrow> 0xFF | Some v \<Rightarrow> v)) s
           in case decide_restart (restart_count d) MAX_RESTARTS of
                Quarantine \<Rightarrow>
                  (False, audit_record (ProcessQuarantined bdf)
                     (s\<lparr>devices := update_first (dev_at bus dev fn) (\<lambda>d. d\<lparr>dev_state := Failed\<rparr>) (devices s)\<rparr>))
              | Restart n \<Rightarrow>
                  (True, audit_record (ProcessRestarted bdf n)
                     (s\<lparr>devices := update_first (dev_at bus dev fn)
                        (\<lambda>d. d\<lparr>restart_count := n, dev_state := Restarting\<rparr>) (devices s)\<rparr>))))"

definition register_synthetic :: "u8 \<Rightarrow> u8 \<Rightarrow> u8 \<Rightarrow> DriverKind \<Rightarrow> 'a sup_state_scheme \<Rightarrow> 'a sup_state_scheme" where
  "register_synthetic bus dev fn kind s =
     (if List.find (dev_at bus dev fn) (devices s) \<noteq> None then s
      else s\<lparr>devices := devices s @ [\<lparr>md_pci = \<lparr>pci_bus = bus, pci_device = dev, pci_function = fn, vendor_id = 0,
               device_id = 0, pci_class = 0, pci_subclass = 0, pci_prog_if = 0, header_type = 0\<rparr>,
             driver_kind = kind, dev_state = Running, restart_count = 0\<rparr>]\<rparr>)"

definition bound_devices :: "'a sup_state_scheme \<Rightarrow> ManagedDevice list" where
  "bound_devices s = filter (\<lambda>d. dev_state d = Bound) (devices s)"

text \<open>The start-up pass of the service manager, after the token of \<^verbatim>\<open>init\<close> has arrived.\<close>

definition service_manager_start :: "'a sup_state_scheme \<Rightarrow> 'a sup_state_scheme" where
  "service_manager_start s =
     fold (\<lambda>d. mark_running (pci_bus (md_pci d)) (pci_device (md_pci d)) (pci_function (md_pci d))) (bound_devices s) s"

subsection \<open>The supervisor\<close>

definition drv_at :: "u8 \<Rightarrow> u8 \<Rightarrow> u8 \<Rightarrow> SupervisedDriver \<Rightarrow> bool" where
  "drv_at bus dev fn d \<longleftrightarrow> sd_bus d = bus \<and> sd_device d = dev \<and> sd_function d = fn"

definition sup_register :: "u8 \<Rightarrow> u8 \<Rightarrow> u8 \<Rightarrow> u64 \<Rightarrow> 'a sup_state_scheme \<Rightarrow> 'a sup_state_scheme" where
  "sup_register bus dev fn respawn s =
     (if list_ex (drv_at bus dev fn) (registry s) then s
      else s\<lparr>registry := registry s @
             [\<lparr>sd_bus = bus, sd_device = dev, sd_function = fn, sd_respawn = respawn, owner_thread = 0\<rparr>]\<rparr>)"

definition mark_thread_owner :: "u8 \<Rightarrow> u8 \<Rightarrow> u8 \<Rightarrow> 'a sup_state_scheme \<Rightarrow> 'a sup_state_scheme" where
  "mark_thread_owner bus dev fn s =
     s\<lparr>registry := update_first (drv_at bus dev fn) (\<lambda>d. d\<lparr>owner_thread := current_tid s\<rparr>) (registry s)\<rparr>"

definition on_process_killed :: "u8 \<Rightarrow> 'a sup_state_scheme \<Rightarrow> 'a sup_state_scheme" where
  "on_process_killed fault_vector s =
     (case List.find (\<lambda>d. owner_thread d = current_tid s) (registry s) of
        None \<Rightarrow> s
      | Some d \<Rightarrow>
          (let (restart_scheduled, s) = report_crash (sd_bus d) (sd_device d) (sd_function d) (Some fault_vector) s
           in if restart_scheduled
              then mark_running (sd_bus d) (sd_device d) (sd_function d)
                     (s\<lparr>respawn_calls := respawn_calls s @ [(sd_bus d, sd_device d, sd_function d, sd_respawn d)]\<rparr>)
              else s))"

subsection \<open>Matching drivers to devices\<close>

record PciId =
  id_bus :: u8
  id_device_slot :: u8
  id_function :: u8
  id_vendor :: u16
  id_device :: u16
  id_class :: u8
  id_subclass :: u8
  id_prog_if :: u8

datatype MatchRule = VendorDevice u16 u16 | Class u8 u8 u8

fun rule_matches :: "MatchRule \<Rightarrow> PciId \<Rightarrow> bool" where
  "rule_matches (VendorDevice v d) i \<longleftrightarrow> id_vendor i = v \<and> id_device i = d"
| "rule_matches (Class c s p) i \<longleftrightarrow> id_class i = c \<and> id_subclass i = s \<and> id_prog_if i = p"

record 't DriverEntry =
  de_name :: string
  de_rule :: MatchRule
  de_handler :: 't

text \<open>The loop over the devices, with the output slice and the number of slots filled so far.\<close>

fun match_loop :: "PciId list \<Rightarrow> 't DriverEntry list \<Rightarrow> (PciId \<times> 't) list \<Rightarrow> nat \<Rightarrow> nat \<times> (PciId \<times> 't) list" where
  "match_loop [] table out n = (n, out)"
| "match_loop (d # ds) table out n =
     (if n \<ge> length out then (n, out)
      else case List.find (\<lambda>e. rule_matches (de_rule e) d) table of
             None \<Rightarrow> match_loop ds table out n
           | Some e \<Rightarrow> match_loop ds table (out[n := (d, de_handler e)]) (n + 1))"

definition match_all :: "PciId list \<Rightarrow> 't DriverEntry list \<Rightarrow> (PciId \<times> 't) list \<Rightarrow> nat \<times> (PciId \<times> 't) list" where
  "match_all ds table out = match_loop ds table out 0"

subsection \<open>Lemmas\<close>

lemma pack_bdf_fields: "unpack_bdf (pack_bdf bus dev fn) = (bus, dev, fn)"
proof -
  have m: "(0xFF :: u32) = mask 8" by (simp add: mask_eq_exp_minus_1)
  have "ucast (drop_bit 16 (pack_bdf bus dev fn) AND 0xFF) = bus"
    unfolding pack_bdf_def m by (rule bit_word_eqI) (auto simp: bit_simps dest: bit_imp_le_length)
  moreover have "ucast (drop_bit 8 (pack_bdf bus dev fn) AND 0xFF) = dev"
    unfolding pack_bdf_def m by (rule bit_word_eqI) (auto simp: bit_simps dest: bit_imp_le_length)
  moreover have "ucast (pack_bdf bus dev fn AND 0xFF) = fn"
    unfolding pack_bdf_def m by (rule bit_word_eqI) (auto simp: bit_simps dest: bit_imp_le_length)
  ultimately show ?thesis by (simp add: unpack_bdf_def)
qed

definition matches :: "PciId list \<Rightarrow> 't DriverEntry list \<Rightarrow> (PciId \<times> 't) list" where
  "matches ds table = List.map_filter
     (\<lambda>d. map_option (\<lambda>e. (d, de_handler e)) (List.find (\<lambda>e. rule_matches (de_rule e) d) table)) ds"

lemma match_loop_matches:
  assumes "n \<le> length out"
  shows "match_loop ds table out n =
    (n + min (length out - n) (length (matches ds table)),
     take n out @ take (length out - n) (matches ds table) @ drop (n + length (matches ds table)) out)"
  using assms
proof (induction ds arbitrary: n out)
  case Nil
  then show ?case by (simp add: matches_def map_filter_def)
next
  case (Cons d ds)
  show ?case
  proof (cases "n \<ge> length out")
    case True
    with Cons.prems show ?thesis by simp
  next
    case False
    show ?thesis
    proof (cases "List.find (\<lambda>e. rule_matches (de_rule e) d) table")
      case None
      with Cons False show ?thesis by (simp add: matches_def map_filter_simps)
    next
      case (Some e)
      then have m: "matches (d # ds) table = (d, de_handler e) # matches ds table"
        by (simp add: matches_def map_filter_simps)
      have "take (Suc n) (out[n := (d, de_handler e)]) = take n out @ [(d, de_handler e)]"
        using False by (simp add: take_Suc_conv_app_nth)
      moreover obtain l where "length out = Suc (n + l)" using False less_imp_Suc_add [of n "length out"] by auto
      ultimately show ?thesis
        using Cons.IH [of "Suc n" "out[n := (d, de_handler e)]"] False Some by (simp add: m)
    qed
  qed
qed

lemma find_update_first:
  assumes "\<And>x. P (f x) \<longleftrightarrow> P x"
  shows "List.find P (update_first P f xs) = map_option f (List.find P xs)"
  by (induction xs) (auto simp: assms)

lemma find_update_first_other:
  assumes "\<And>x. P x \<Longrightarrow> \<not> Q x" "\<And>x. P x \<Longrightarrow> \<not> Q (f x)"
  shows "List.find Q (update_first P f xs) = List.find Q xs"
  by (induction xs) (auto simp: assms dest: assms)

subsection \<open>The restart budget\<close>

text \<open>Everything that can happen to the supervised devices after the boot-time binding pass.\<close>

datatype sup_event =
    Found "PciDevice list"
  | Synthetic u8 u8 u8 DriverKind
  | StartServices
  | Register u8 u8 u8 u64
  | Owner u8 u8 u8 u64
  | Killed u64 u8
  | SimulatedCrash u8 u8 u8

primrec run_event :: "sup_event \<Rightarrow> 'a sup_state_scheme \<Rightarrow> 'a sup_state_scheme" where
  "run_event (Found ds) s = discover ds s"
| "run_event (Synthetic b d f k) s = register_synthetic b d f k s"
| "run_event StartServices s = service_manager_start s"
| "run_event (Register b d f r) s = sup_register b d f r s"
| "run_event (Owner b d f tid) s = mark_thread_owner b d f (s\<lparr>current_tid := tid\<rparr>)"
| "run_event (Killed tid v) s = on_process_killed v (s\<lparr>current_tid := tid\<rparr>)"
| "run_event (SimulatedCrash b d f) s = snd (report_crash b d f None s)"

definition respawns :: "u8 \<Rightarrow> u8 \<Rightarrow> u8 \<Rightarrow> 'a sup_state_scheme \<Rightarrow> nat" where
  "respawns b d f s = length (filter (\<lambda>(b', d', f', _). (b', d', f') = (b, d, f)) (respawn_calls s))"

definition the_device :: "u8 \<Rightarrow> u8 \<Rightarrow> u8 \<Rightarrow> 'a sup_state_scheme \<Rightarrow> ManagedDevice option" where
  "the_device b d f s = List.find (dev_at b d f) (devices s)"

definition within_budget :: "nat \<Rightarrow> ManagedDevice option \<Rightarrow> bool" where
  "within_budget n xo = (case xo of
       None \<Rightarrow> n = 0
     | Some x \<Rightarrow> n \<le> unat (restart_count x) \<and> unat (restart_count x) \<le> 3 \<and> (dev_state x = Failed \<longrightarrow> restart_count x = 3))"

lemma dev_at_update [simp]:
  "dev_at b d f (x\<lparr>dev_state := st\<rparr>) = dev_at b d f x" "dev_at b d f (x\<lparr>restart_count := n\<rparr>) = dev_at b d f x"
  by (simp_all add: dev_at_def)

lemma sup_frame [simp]:
  "devices (audit_record e s) = devices s" "registry (audit_record e s) = registry s" "respawn_calls (audit_record e s) = respawn_calls s"
  "devices (s\<lparr>current_tid := t\<rparr>) = devices s" "respawn_calls (s\<lparr>current_tid := t\<rparr>) = respawn_calls s"
  by (simp_all add: audit_record_def Let_def)

lemma the_device_update:
  assumes "\<And>x. dev_at b d f (g x) = dev_at b d f x" "\<And>x. dev_at b' d' f' (g x) = dev_at b' d' f' x"
    and "devices s' = update_first (dev_at b d f) g (devices s)"
  shows "the_device b' d' f' s' =
    (if (b', d', f') = (b, d, f) then map_option g (the_device b d f s) else the_device b' d' f' s)"
proof (cases "(b', d', f') = (b, d, f)")
  case True
  then show ?thesis using find_update_first [of "dev_at b d f" g] assms by (simp add: the_device_def)
next
  case False
  then have "dev_at b d f x \<Longrightarrow> \<not> dev_at b' d' f' x" for x by (auto simp: dev_at_def)
  then show ?thesis
    using False find_update_first_other [of "dev_at b d f" "dev_at b' d' f'" g] assms by (auto simp: the_device_def)
qed

lemma update_first_twice:
  assumes "\<And>x. P (h x) = P x"
  shows "update_first P g (update_first P h xs) = update_first P (\<lambda>x. g (h x)) xs"
  by (induction xs) (auto simp: assms)

definition after_crash :: "ManagedDevice \<Rightarrow> ManagedDevice" where
  "after_crash x = (if restart_count x < MAX_RESTARTS
     then x\<lparr>restart_count := restart_count x + 1, dev_state := Restarting\<rparr> else x\<lparr>dev_state := Failed\<rparr>)"

lemma report_crash_effect:
  assumes "the_device b d f s = Some x"
  shows "fst (report_crash b d f v s) \<longleftrightarrow> restart_count x < MAX_RESTARTS"
    "the_device b' d' f' (snd (report_crash b d f v s)) =
       (if (b', d', f') = (b, d, f) then Some (after_crash x) else the_device b' d' f' s)"
    "respawn_calls (snd (report_crash b d f v s)) = respawn_calls s"
proof -
  let ?P = "dev_at b d f" and ?n = "restart_count x"
  have find: "List.find ?P (devices s) = Some x" using assms by (simp add: the_device_def)
  show "fst (report_crash b d f v s) \<longleftrightarrow> ?n < MAX_RESTARTS" "respawn_calls (snd (report_crash b d f v s)) = respawn_calls s"
    by (auto simp: report_crash_def find Let_def decide_restart_def)
  define g where "g = (\<lambda>y :: ManagedDevice. if ?n < MAX_RESTARTS then y\<lparr>restart_count := ?n + 1, dev_state := Restarting\<rparr> else y\<lparr>dev_state := Failed\<rparr>)"
  have "update_first ?P (\<lambda>y. y\<lparr>dev_state := Failed\<rparr>) (update_first ?P (\<lambda>y. y\<lparr>dev_state := Crashed\<rparr>) xs) =
      update_first ?P (\<lambda>y. y\<lparr>dev_state := Failed\<rparr>) xs"
    "update_first ?P (\<lambda>y. y\<lparr>restart_count := m, dev_state := Restarting\<rparr>) (update_first ?P (\<lambda>y. y\<lparr>dev_state := Crashed\<rparr>) xs) =
      update_first ?P (\<lambda>y. y\<lparr>restart_count := m, dev_state := Restarting\<rparr>) xs" for xs m
    by (simp_all add: update_first_twice)
  then have "devices (snd (report_crash b d f v s)) = update_first ?P g (devices s)"
    by (cases "?n < MAX_RESTARTS") (auto simp: report_crash_def find Let_def decide_restart_def g_def dest: leD)
  then have "the_device b' d' f' (snd (report_crash b d f v s)) =
      (if (b', d', f') = (b, d, f) then map_option g (the_device b d f s) else the_device b' d' f' s)"
    by (intro the_device_update) (simp_all add: g_def)
  then show "the_device b' d' f' (snd (report_crash b d f v s)) =
      (if (b', d', f') = (b, d, f) then Some (after_crash x) else the_device b' d' f' s)"
    by (simp add: assms g_def after_crash_def)
qed

lemma report_crash_none: "the_device b d f s = None \<Longrightarrow> report_crash b d f v s = (False, s)"
  by (simp add: report_crash_def the_device_def)

lemma after_crash_count:
  assumes "unat (restart_count x) \<le> 3"
  shows "unat (restart_count (after_crash x)) \<le> 3" "dev_state (after_crash x) = Failed \<longrightarrow> restart_count (after_crash x) = 3"
    "unat (restart_count (after_crash x)) = unat (restart_count x) + (if restart_count x < MAX_RESTARTS then 1 else 0)"
proof -
  have "restart_count x = 3" if "\<not> restart_count x < 3" using assms that by (simp add: word_less_nat_alt word_unat_eq_iff)
  moreover have "unat (restart_count x + 1) = unat (restart_count x) + 1" if "restart_count x < 3"
    using that by (simp add: word_less_nat_alt unat_word_ariths)
  ultimately show "unat (restart_count (after_crash x)) \<le> 3" "dev_state (after_crash x) = Failed \<longrightarrow> restart_count (after_crash x) = 3"
    "unat (restart_count (after_crash x)) = unat (restart_count x) + (if restart_count x < MAX_RESTARTS then 1 else 0)"
    by (auto simp: after_crash_def MAX_RESTARTS_def word_less_nat_alt)
qed

lemma mark_running_device:
  "the_device b' d' f' (mark_running b d f s) =
    (if (b', d', f') = (b, d, f) then map_option (\<lambda>x. if dev_state x = Bound \<or> dev_state x = Restarting then x\<lparr>dev_state := Running\<rparr> else x) (the_device b d f s)
     else the_device b' d' f' s)"
  by (rule the_device_update) (simp_all add: mark_running_def)

lemma mark_running_frame [simp]: "respawn_calls (mark_running b d f s) = respawn_calls s"
  by (simp add: mark_running_def)

text \<open>
  What one event does to one device: nothing, its first appearance, becoming running, a crash without and
  a crash with a respawn.
\<close>

inductive dev_step :: "nat \<times> ManagedDevice option \<Rightarrow> nat \<times> ManagedDevice option \<Rightarrow> bool" where
  same: "dev_step (n, xo) (n, xo)"
| appear: "restart_count x = 0 \<Longrightarrow> dev_state x \<noteq> Failed \<Longrightarrow> dev_step (n, None) (n, Some x)"
| running: "dev_state x = Bound \<or> dev_state x = Restarting \<Longrightarrow> dev_step (n, Some x) (n, Some (x\<lparr>dev_state := Running\<rparr>))"
| crash: "dev_step (n, Some x) (n, Some (after_crash x))"
| respawn: "restart_count x < MAX_RESTARTS \<Longrightarrow>
    dev_step (n, Some x) (Suc n, Some ((after_crash x)\<lparr>dev_state := Running\<rparr>))"

lemma dev_step_refl: "dev_step p p"
  by (cases p) (simp add: same)

definition view :: "u8 \<Rightarrow> u8 \<Rightarrow> u8 \<Rightarrow> 'a sup_state_scheme \<Rightarrow> nat \<times> ManagedDevice option" where
  "view b d f s = (respawns b d f s, the_device b d f s)"

lemma view_append:
  assumes "devices s' = devices s @ ds" "respawn_calls s' = respawn_calls s"
    and "\<And>x. x \<in> set ds \<Longrightarrow> restart_count x = 0 \<and> dev_state x \<noteq> Failed"
  shows "dev_step (view b d f s) (view b d f s')"
proof -
  have find_append: "List.find P (xs @ ys) = (case List.find P xs of None \<Rightarrow> List.find P ys | Some x \<Rightarrow> Some x)" for P :: "ManagedDevice \<Rightarrow> bool" and xs ys
    by (induction xs) auto
  have r: "respawns b d f s' = respawns b d f s" by (simp add: respawns_def assms(2))
  show ?thesis
  proof (cases "the_device b d f s")
    case None
    then have d: "the_device b d f s' = List.find (dev_at b d f) ds" by (simp add: the_device_def assms(1) find_append)
    show ?thesis
    proof (cases "List.find (dev_at b d f) ds")
      case (Some x)
      then have "x \<in> set ds" by (metis find_Some_iff nth_mem)
      with assms(3) show ?thesis by (simp add: view_def None d Some r appear)
    qed (simp add: view_def None d r same)
  next
    case (Some x)
    then have "the_device b d f s' = Some x" by (simp add: the_device_def assms(1) find_append)
    with Some show ?thesis by (simp add: view_def r same)
  qed
qed

lemma view_same: "devices s' = devices s \<Longrightarrow> respawn_calls s' = respawn_calls s \<Longrightarrow> view b d f s' = view b d f s"
  by (simp add: view_def the_device_def respawns_def)

lemma view_running: "dev_step (view b d f s) (view b d f (mark_running b' d' f' s))"
proof (cases "(b, d, f) = (b', d', f')")
  case True
  show ?thesis
  proof (cases "the_device b d f s")
    case (Some x)
    then show ?thesis
      using True by (cases "dev_state x = Bound \<or> dev_state x = Restarting")
        (simp_all add: view_def mark_running_device respawns_def running same)
  qed (use True in \<open>simp add: view_def mark_running_device respawns_def same\<close>)
qed (auto simp: view_def mark_running_device respawns_def same)

lemma view_crash: "dev_step (view b d f s) (view b d f (snd (report_crash b' d' f' v s)))"
proof (cases "the_device b' d' f' s")
  case None
  then show ?thesis by (simp add: report_crash_none dev_step_refl)
next
  case (Some x)
  note e = report_crash_effect [OF Some, where v = v]
  have "respawns b d f (snd (report_crash b' d' f' v s)) = respawns b d f s" by (simp add: respawns_def e(3))
  with Some show ?thesis by (auto simp: view_def e(2) same crash)
qed

lemma view_killed: "dev_step (view b d f s) (view b d f (on_process_killed v s))"
proof (cases "List.find (\<lambda>d. owner_thread d = current_tid s) (registry s)")
  case None
  then show ?thesis by (simp add: on_process_killed_def dev_step_refl)
next
  case (Some r)
  let ?b = "sd_bus r" and ?d = "sd_device r" and ?f = "sd_function r"
  let ?s = "snd (report_crash ?b ?d ?f (Some v) s)"
  show ?thesis
  proof (cases "fst (report_crash ?b ?d ?f (Some v) s)")
    case False
    then have "on_process_killed v s = ?s" by (simp add: on_process_killed_def Some split_beta Let_def)
    then show ?thesis by (simp add: view_crash)
  next
    case True
    then obtain x where x: "the_device ?b ?d ?f s = Some x"
      using report_crash_none [of ?b ?d ?f s "Some v"] by (cases "the_device ?b ?d ?f s") auto
    note e = report_crash_effect [OF x, where v = "Some v"]
    have lt: "restart_count x < MAX_RESTARTS" using True e(1) by simp
    let ?t = "?s\<lparr>respawn_calls := respawn_calls ?s @ [(?b, ?d, ?f, sd_respawn r)]\<rparr>"
    have killed: "on_process_killed v s = mark_running ?b ?d ?f ?t"
      using True by (simp add: on_process_killed_def Some split_beta Let_def)
    have dev: "the_device b d f ?t = the_device b d f ?s" by (simp add: the_device_def)
    have "dev_state (after_crash x) = Restarting" using lt by (simp add: after_crash_def)
    then show ?thesis
      unfolding killed view_def mark_running_device dev using e(2) [of b d f] e(2) [of ?b ?d ?f] lt e(3) x respawn [OF lt]
      by (auto simp: respawns_def the_device_def same)
  qed
qed

lemma event_view: "dev_step\<^sup>*\<^sup>* (view b d f s) (view b d f (run_event e s))"
proof (cases e)
  case StartServices
  have "dev_step\<^sup>*\<^sup>* (view b d f s) (view b d f (fold (\<lambda>d. mark_running (pci_bus (md_pci d)) (pci_device (md_pci d)) (pci_function (md_pci d))) ds s))" for ds
    by (induction ds arbitrary: s) (auto intro: converse_rtranclp_into_rtranclp view_running)
  then show ?thesis by (simp add: StartServices service_manager_start_def)
next
  case (Synthetic b' d' f' k)
  show ?thesis
  proof (cases "List.find (dev_at b' d' f') (devices s) = None")
    case True
    then show ?thesis
      by (intro r_into_rtranclp view_append) (auto simp: Synthetic register_synthetic_def)
  qed (simp add: Synthetic register_synthetic_def)
next
  case (Killed tid v)
  have "view b d f (s\<lparr>current_tid := tid\<rparr>) = view b d f s" by (rule view_same) simp_all
  with view_killed [of b d f "s\<lparr>current_tid := tid\<rparr>" v] show ?thesis by (simp add: Killed r_into_rtranclp)
qed (auto simp: discover_def intro!: r_into_rtranclp view_append view_crash,
     auto simp: view_same sup_register_def mark_thread_owner_def)

lemma run_view: "dev_step\<^sup>*\<^sup>* (view b d f s) (view b d f (fold run_event es s))"
  by (induction es arbitrary: s) (auto intro: rtranclp_trans event_view)

lemma step_budget: "dev_step p q \<Longrightarrow> within_budget (fst p) (snd p) \<Longrightarrow> within_budget (fst q) (snd q)"
proof (induction rule: dev_step.induct)
  case (crash n x)
  then show ?case using after_crash_count [of x] by (auto simp: within_budget_def split: if_splits)
next
  case (respawn x n)
  then show ?case using after_crash_count [of x] by (auto simp: within_budget_def)
qed (auto simp: within_budget_def)

lemma steps_budget: "dev_step\<^sup>*\<^sup>* p q \<Longrightarrow> within_budget (fst p) (snd p) \<Longrightarrow> within_budget (fst q) (snd q)"
  by (induction rule: rtranclp_induct) (auto intro: step_budget)

lemma step_quarantined:
  assumes "dev_step (n, Some x) q" "dev_state x = Failed" "restart_count x = 3"
  shows "q = (n, Some x)"
proof -
  have "after_crash x = x" using assms(2,3) by (cases x) (simp add: after_crash_def MAX_RESTARTS_def)
  with assms show ?thesis by (cases rule: dev_step.cases) (simp_all add: MAX_RESTARTS_def)
qed

lemma steps_quarantined:
  assumes "dev_step\<^sup>*\<^sup>* (n, Some x) q" "dev_state x = Failed" "restart_count x = 3"
  shows "q = (n, Some x)"
  using assms(1) by (induction rule: rtranclp_induct) (simp_all add: step_quarantined [OF _ assms(2,3)])

lemma fresh_budget:
  assumes "respawn_calls s = []" "\<forall>x \<in> set (devices s). restart_count x = 0 \<and> dev_state x \<noteq> Failed"
  shows "within_budget (respawns b d f s) (the_device b d f s)"
  using assms by (auto simp: within_budget_def respawns_def the_device_def find_Some_iff split: option.splits)

text \<open>
  C20. From the boot-time device table on, whatever sequence of discoveries, registrations, owner changes,
  simulated crashes and deaths of driver threads happens: a device is respawned at most three times in all,
  and once it is quarantined it stays so and no later event respawns its driver again.
\<close>

theorem restart_budget:
  assumes "respawn_calls s = []" "\<forall>x \<in> set (devices s). restart_count x = 0 \<and> dev_state x \<noteq> Failed"
  shows "respawns b d f (fold run_event es s) \<le> 3 \<and>
    (\<forall>x. the_device b d f (fold run_event es s) = Some x \<and> dev_state x = Failed \<longrightarrow>
      (\<forall>es'. let s' = fold run_event (es @ es') s in
        the_device b d f s' = Some x \<and> respawns b d f s' = respawns b d f (fold run_event es s)))"
proof -
  let ?t = "fold run_event es s"
  have "within_budget (fst (view b d f s)) (snd (view b d f s))" by (simp add: view_def fresh_budget [OF assms])
  from steps_budget [OF run_view this] have w: "within_budget (respawns b d f ?t) (the_device b d f ?t)"
    by (simp add: view_def)
  then have "respawns b d f ?t \<le> 3" by (simp add: within_budget_def split: option.splits)
  moreover have "view b d f (fold run_event es' ?t) = (respawns b d f ?t, Some x)"
    if "the_device b d f ?t = Some x" "dev_state x = Failed" for x es'
  proof (rule steps_quarantined)
    show "dev_step\<^sup>*\<^sup>* (respawns b d f ?t, Some x) (view b d f (fold run_event es' ?t))"
      using run_view [of b d f ?t es'] unfolding view_def that(1) .
    show "restart_count x = 3" using w that by (simp add: within_budget_def)
  qed (rule that)
  ultimately show ?thesis unfolding view_def Let_def fold_append o_apply prod.inject by blast
qed

text \<open>
  Every driver death that the restart budget allows is answered by exactly one respawn of the same driver
  and leaves the device running with its counter advanced; the one after the last is answered by quarantine
  and no respawn.
\<close>

lemma driver_death_handled:
  fixes v :: u8
  assumes "List.find (\<lambda>d. owner_thread d = current_tid s) (registry s) = Some r"
    and "the_device (sd_bus r) (sd_device r) (sd_function r) s = Some x"
  defines "s' \<equiv> on_process_killed v s"
  shows "if restart_count x < MAX_RESTARTS
    then respawn_calls s' = respawn_calls s @ [(sd_bus r, sd_device r, sd_function r, sd_respawn r)] \<and>
      the_device (sd_bus r) (sd_device r) (sd_function r) s' = Some (x\<lparr>restart_count := restart_count x + 1, dev_state := Running\<rparr>)
    else respawn_calls s' = respawn_calls s \<and>
      the_device (sd_bus r) (sd_device r) (sd_function r) s' = Some (x\<lparr>dev_state := Failed\<rparr>)"
proof -
  let ?s = "snd (report_crash (sd_bus r) (sd_device r) (sd_function r) (Some v) s)"
  note e = report_crash_effect [OF assms(2), where v = "Some v"]
  have d: "the_device b d f (t\<lparr>respawn_calls := c\<rparr>) = the_device b d f t" for b d f c and t :: "'a sup_state_scheme"
    by (simp add: the_device_def)
  show ?thesis
    unfolding s'_def using e(1) e(2) [of "sd_bus r" "sd_device r" "sd_function r"] e(3)
    by (simp add: on_process_killed_def assms(1) split_beta Let_def mark_running_device d after_crash_def)
qed

text \<open>
  \<^verbatim>\<open>match_all\<close> writes, in device order, the first table entry that matches each device, as many as the
  output slice holds, leaves the rest of the slice alone and returns the number written.
\<close>

lemma match_all_spec:
  "match_all ds table out =
    (min (length out) (length (matches ds table)),
     take (length out) (matches ds table) @ drop (length (matches ds table)) out)"
  by (simp add: match_all_def match_loop_matches)

definition demo_sup :: sup_state where
  "demo_sup = \<lparr>LOG = [], NEXT_SEQ = 0, current_tid = 0,
     devices = [\<lparr>md_pci = \<lparr>pci_bus = 0, pci_device = 31, pci_function = 2, vendor_id = 0x8086, device_id = 0x2922,
       pci_class = 1, pci_subclass = 6, pci_prog_if = 1, header_type = 0\<rparr>, driver_kind = AhciController, dev_state = Bound, restart_count = 0\<rparr>],
     registry = [\<lparr>sd_bus = 0, sd_device = 31, sd_function = 2, sd_respawn = 7, owner_thread = 5\<rparr>],
     respawn_calls = []\<rparr>"

lemma demo_sup_fresh: "respawn_calls demo_sup = []" "\<forall>x \<in> set (devices demo_sup). restart_count x = 0 \<and> dev_state x \<noteq> Failed"
  by (simp_all add: demo_sup_def)

theorem restart_budget_witness:
  "respawns 0 31 2 (fold run_event [StartServices, Killed 5 14, Killed 5 14, Killed 5 14, Killed 5 14] demo_sup) \<le> 3"
  using restart_budget [OF demo_sup_fresh, of 0 31 2 "[StartServices, Killed 5 14, Killed 5 14, Killed 5 14, Killed 5 14]"] by blast

end
