(* ===== verification/Bytes.thy ===== *)
theory Bytes
  imports Prelude
begin

text \<open>
  Byte buffers: the little- and big-endian views of machine integers
  (\<^verbatim>\<open>to_le_bytes\<close>, \<^verbatim>\<open>from_le_bytes\<close>, \<^verbatim>\<open>to_be_bytes\<close>, \<^verbatim>\<open>from_be_bytes\<close>) and
  \<^verbatim>\<open>copy_from_slice\<close> into a part of a buffer, with the round trips between them.
  The wire and disk formats of the system are built from these.
\<close>

named_theorems byte_simps \<open>reading back what was written into a buffer\<close>

definition le_bytes :: "nat \<Rightarrow> 'a::len word \<Rightarrow> u8 list" where
  "le_bytes n w = map (\<lambda>i. ucast (drop_bit (8 * i) w)) [0..<n]"

primrec from_le :: "u8 list \<Rightarrow> 'a::len word" where
  "from_le [] = 0"
| "from_le (b # bs) = ucast b OR push_bit 8 (from_le bs)"

definition be_bytes :: "nat \<Rightarrow> 'a::len word \<Rightarrow> u8 list" where
  "be_bytes n w = rev (le_bytes n w)"

definition from_be :: "u8 list \<Rightarrow> 'a::len word" where
  "from_be bs = from_le (rev bs)"

text \<open>\<open>get_bytes off n b\<close> is \<^verbatim>\<open>b[off..off + n]\<close>; \<open>put_bytes off v b\<close> is
  \<^verbatim>\<open>b[off..off + v.len()].copy_from_slice(v)\<close>. Both are used in range only.\<close>

definition get_bytes :: "nat \<Rightarrow> nat \<Rightarrow> 'b list \<Rightarrow> 'b list" where
  "get_bytes off n b = take n (drop off b)"

definition put_bytes :: "nat \<Rightarrow> 'b list \<Rightarrow> 'b list \<Rightarrow> 'b list" where
  "put_bytes off v b = take off b @ v @ drop (off + length v) b"

subsection \<open>Integers as bytes\<close>

lemma length_le_bytes [simp]: "length (le_bytes n w) = n"
  by (simp add: le_bytes_def)

lemma length_be_bytes [simp]: "length (be_bytes n w) = n"
  by (simp add: be_bytes_def)

lemma nth_le_bytes: "i < n \<Longrightarrow> le_bytes n w ! i = ucast (drop_bit (8 * i) w)"
  by (simp add: le_bytes_def)

lemma bit_from_le:
  "bit (from_le bs :: 'a::len word) k \<longleftrightarrow> k < LENGTH('a) \<and> k div 8 < length bs \<and> bit (bs ! (k div 8)) (k mod 8)"
proof (induction bs arbitrary: k)
  case (Cons b bs)
  show ?case
  proof (cases "k < 8")
    case True
    then show ?thesis by (auto simp: bit_simps)
  next
    case False
    then obtain j where j: "k = j + 8" using le_Suc_ex [of 8 k] by (auto simp: add.commute)
    have "\<not> bit b k" using False by (auto dest: bit_imp_le_length)
    moreover have "(j + 8) div 8 = Suc (j div 8)" by simp
    ultimately show ?thesis by (auto simp: bit_simps Cons.IH j)
  qed
qed simp

lemma from_le_bytes [simp, byte_simps]:
  assumes "8 * n = LENGTH('a::len)"
  shows "from_le (le_bytes n w) = (w :: 'a word)"
proof (rule bit_word_eqI)
  fix k assume k: "k < LENGTH('a)"
  then have "k div 8 < n" using assms by linarith
  then show "bit (from_le (le_bytes n w) :: 'a word) k = bit w k"
    using k by (simp add: bit_from_le nth_le_bytes bit_simps)
qed

lemma le_bytes_from_le [simp, byte_simps]:
  assumes "8 * length bs = LENGTH('a::len)"
  shows "le_bytes (length bs) (from_le bs :: 'a word) = bs"
proof (rule nth_equalityI)
  fix i assume "i < length (le_bytes (length bs) (from_le bs :: 'a word))"
  then have i: "i < length bs" by simp
  show "le_bytes (length bs) (from_le bs :: 'a word) ! i = bs ! i"
  proof (rule bit_word_eqI)
    fix k assume "k < LENGTH(8)"
    then have k: "(8 * i + k) div 8 = i" "(8 * i + k) mod 8 = k" "8 * i + k < LENGTH('a)"
      using i assms by auto
    then show "bit (le_bytes (length bs) (from_le bs :: 'a word) ! i) k = bit (bs ! i) k"
      using i \<open>k < LENGTH(8)\<close> by (simp add: nth_le_bytes bit_simps bit_from_le)
  qed
qed simp

lemma from_be_bytes [simp, byte_simps]: "8 * n = LENGTH('a::len) \<Longrightarrow> from_be (be_bytes n w) = (w :: 'a word)"
  by (simp add: from_be_def be_bytes_def)

lemma le_bytes_inject:
  "8 * n = LENGTH('a::len) \<Longrightarrow> le_bytes n v = le_bytes n w \<longleftrightarrow> v = (w :: 'a word)"
  by (metis from_le_bytes)

subsection \<open>Buffers\<close>

lemma length_get_bytes [simp]: "off + n \<le> length b \<Longrightarrow> length (get_bytes off n b) = n"
  by (simp add: get_bytes_def)

lemma length_put_bytes [simp]: "off + length v \<le> length b \<Longrightarrow> length (put_bytes off v b) = length b"
  by (simp add: put_bytes_def)

lemma get_put_same [byte_simps]: "off \<le> length b \<Longrightarrow> n = length v \<Longrightarrow> get_bytes off n (put_bytes off v b) = v"
  by (simp add: get_bytes_def put_bytes_def)

lemma nth_put_bytes:
  assumes "off + length v \<le> length b"
  shows "put_bytes off v b ! i = (if off \<le> i \<and> i < off + length v then v ! (i - off) else b ! i)"
  using assms by (cases "i < length b") (auto simp: put_bytes_def nth_append)

lemma nth_get_bytes: "i < n \<Longrightarrow> off + n \<le> length b \<Longrightarrow> get_bytes off n b ! i = b ! (off + i)"
  by (simp add: get_bytes_def)

lemma length_fold_update [simp]: "length (fold (\<lambda>i d. d[g i := f i d]) ks d) = length d"
  by (induction ks arbitrary: d) simp_all

lemma fold_update_nth:
  assumes "distinct ks" "\<forall>i \<in> set ks. i < length d"
  shows "fold (\<lambda>i d. d[i := h i (d ! i)]) ks d ! j = (if j \<in> set ks then h j (d ! j) else d ! j)"
  using assms by (induction ks arbitrary: d) (auto simp: nth_list_update)

lemma get_put_other [byte_simps]:
  assumes "off' + length v \<le> length b" "off + n \<le> length b" "off + n \<le> off' \<or> off' + length v \<le> off"
  shows "get_bytes off n (put_bytes off' v b) = get_bytes off n b"
  by (rule nth_equalityI) (use assms in \<open>auto simp: nth_get_bytes nth_put_bytes\<close>)

lemma get_bytes_append [byte_simps]:
  "off + n \<le> length xs \<Longrightarrow> get_bytes off n (xs @ ys) = get_bytes off n xs"
  "length xs \<le> off \<Longrightarrow> get_bytes off n (xs @ ys) = get_bytes (off - length xs) n ys"
  by (simp_all add: get_bytes_def)

lemma get_bytes_all [byte_simps]: "n = length b \<Longrightarrow> get_bytes 0 n b = b"
  by (simp add: get_bytes_def)

end
