(* ===== verification/Crypto.thy ===== *)
theory Crypto
  imports Bytes
begin

text \<open>
  \<^verbatim>\<open>kernel_common/src/crypto.rs\<close>: the streaming SHA-256, HMAC-SHA256, the
  constant-time comparison and ChaCha20. The streaming hash is shown to compute the
  padded-message definition of FIPS 180-4 for every way of cutting the message into
  pieces, HMAC to be the formula of RFC 2104, and the ChaCha20 loop to XOR byte
  \<open>i\<close> with byte \<open>i mod 64\<close> of key block \<open>i div 64\<close>.

  The fields of \<^verbatim>\<open>Sha256\<close> are private, and \<open>sha_wf\<close> holds of every value the
  module's functions build, so no buffer index is ever out of range.
\<close>

subsection \<open>SHA-256\<close>

definition H0 :: "u32 list" where
  "H0 = [0x6a09e667, 0xbb67ae85, 0x3c6ef372, 0xa54ff53a, 0x510e527f, 0x9b05688c, 0x1f83d9ab, 0x5be0cd19]"

text \<open>The table is written in the rows of the source.\<close>

definition K :: "u32 list" where
  "K = concat [
    [0x428a2f98, 0x71374491, 0xb5c0fbcf, 0xe9b5dba5],
    [0x3956c25b, 0x59f111f1, 0x923f82a4, 0xab1c5ed5],
    [0xd807aa98, 0x12835b01, 0x243185be, 0x550c7dc3],
    [0x72be5d74, 0x80deb1fe, 0x9bdc06a7, 0xc19bf174],
    [0xe49b69c1, 0xefbe4786, 0x0fc19dc6, 0x240ca1cc],
    [0x2de92c6f, 0x4a7484aa, 0x5cb0a9dc, 0x76f988da],
    [0x983e5152, 0xa831c66d, 0xb00327c8, 0xbf597fc7],
    [0xc6e00bf3, 0xd5a79147, 0x06ca6351, 0x14292967],
    [0x27b70a85, 0x2e1b2138, 0x4d2c6dfc, 0x53380d13],
    [0x650a7354, 0x766a0abb, 0x81c2c92e, 0x92722c85],
    [0xa2bfe8a1, 0xa81a664b, 0xc24b8b70, 0xc76c51a3],
    [0xd192e819, 0xd6990624, 0xf40e3585, 0x106aa070],
    [0x19a4c116, 0x1e376c08, 0x2748774c, 0x34b0bcb5],
    [0x391c0cb3, 0x4ed8aa4a, 0x5b9cca4f, 0x682e6ff3],
    [0x748f82ee, 0x78a5636f, 0x84c87814, 0x8cc70208],
    [0x90befffa, 0xa4506ceb, 0xbef9a3f7, 0xc67178f2]]"

definition ch :: "u32 \<Rightarrow> u32 \<Rightarrow> u32 \<Rightarrow> u32" where
  "ch x y z = (x AND y) XOR (NOT x AND z)"

definition maj :: "u32 \<Rightarrow> u32 \<Rightarrow> u32 \<Rightarrow> u32" where
  "maj x y z = (x AND y) XOR (x AND z) XOR (y AND z)"

definition big_sigma0 :: "u32 \<Rightarrow> u32" where
  "big_sigma0 x = word_rotr 2 x XOR word_rotr 13 x XOR word_rotr 22 x"

definition big_sigma1 :: "u32 \<Rightarrow> u32" where
  "big_sigma1 x = word_rotr 6 x XOR word_rotr 11 x XOR word_rotr 25 x"

definition small_sigma0 :: "u32 \<Rightarrow> u32" where
  "small_sigma0 x = word_rotr 7 x XOR word_rotr 18 x XOR drop_bit 3 x"

definition small_sigma1 :: "u32 \<Rightarrow> u32" where
  "small_sigma1 x = word_rotr 17 x XOR word_rotr 19 x XOR drop_bit 10 x"

record Sha256 =
  state :: "u32 list"
  buffer :: "u8 list"
  buffer_len :: nat
  total_len :: u64

definition sha_new :: Sha256 where
  "sha_new = \<lparr>state = H0, buffer = replicate 64 0, buffer_len = 0, total_len = 0\<rparr>"

definition sha_schedule :: "u8 list \<Rightarrow> u32 list" where
  "sha_schedule block =
     fold (\<lambda>i w. w[i := w ! (i - 16) + small_sigma0 (w ! (i - 15)) + w ! (i - 7) + small_sigma1 (w ! (i - 2))]) [16..<64]
       (map (\<lambda>i. from_be [block ! (i * 4), block ! (i * 4 + 1), block ! (i * 4 + 2), block ! (i * 4 + 3)]) [0..<16] @
        replicate 48 0)"

type_synonym sha_vars = "u32 \<times> u32 \<times> u32 \<times> u32 \<times> u32 \<times> u32 \<times> u32 \<times> u32"

definition sha_round :: "u32 list \<Rightarrow> nat \<Rightarrow> sha_vars \<Rightarrow> sha_vars" where
  "sha_round w i = (\<lambda>(a, b, c, d, e, f, g, h).
     let t1 = h + big_sigma1 e + ch e f g + K ! i + w ! i;
         t2 = big_sigma0 a + maj a b c
     in (t1 + t2, a, b, c, d + t1, e, f, g))"

definition process_block :: "u8 list \<Rightarrow> u32 list \<Rightarrow> u32 list" where
  "process_block block st =
     (let w = sha_schedule block;
          (a, b, c, d, e, f, g, h) = fold (sha_round w) [0..<64]
            (st ! 0, st ! 1, st ! 2, st ! 3, st ! 4, st ! 5, st ! 6, st ! 7)
      in [st ! 0 + a, st ! 1 + b, st ! 2 + c, st ! 3 + d, st ! 4 + e, st ! 5 + f, st ! 6 + g, st ! 7 + h])"

text \<open>The loop over whole blocks and the copy of what is left over.\<close>

fun sha_loop :: "Sha256 \<Rightarrow> u8 list \<Rightarrow> Sha256" where
  "sha_loop s data =
     (if length data \<ge> 64
      then sha_loop (s\<lparr>state := process_block (take 64 data) (state s)\<rparr>) (drop 64 data)
      else if data \<noteq> [] then s\<lparr>buffer := put_bytes 0 data (buffer s), buffer_len := length data\<rparr>
      else s)"

declare sha_loop.simps [simp del]

definition sha_update :: "u8 list \<Rightarrow> Sha256 \<Rightarrow> Sha256" where
  "sha_update data s =
     (let s = s\<lparr>total_len := total_len s + of_nat (length data)\<rparr>
      in if buffer_len s > 0
         then let needed = 64 - buffer_len s
              in if length data < needed
                 then s\<lparr>buffer := put_bytes (buffer_len s) data (buffer s), buffer_len := buffer_len s + length data\<rparr>
                 else let s = s\<lparr>buffer := put_bytes (buffer_len s) (take needed data) (buffer s)\<rparr>;
                          s = s\<lparr>state := process_block (buffer s) (state s), buffer_len := 0\<rparr>
                      in sha_loop s (drop needed data)
         else sha_loop s data)"

text \<open>Clearing \<^verbatim>\<open>buffer[from..to]\<close>.\<close>

definition zero_range :: "nat \<Rightarrow> nat \<Rightarrow> u8 list \<Rightarrow> u8 list" where
  "zero_range from to b = fold (\<lambda>i b. b[i := 0]) [from..<to] b"

definition sha_finalize :: "Sha256 \<Rightarrow> u8 list" where
  "sha_finalize s =
     (let bit_len = total_len s * 8;
          s = s\<lparr>buffer := (buffer s)[buffer_len s := 0x80], buffer_len := buffer_len s + 1\<rparr>;
          s = (if buffer_len s > 56
               then let b = zero_range (buffer_len s) 64 (buffer s)
                    in s\<lparr>buffer := b, state := process_block b (state s), buffer_len := 0\<rparr>
               else s);
          b = put_bytes 56 (be_bytes 8 bit_len) (zero_range (buffer_len s) 56 (buffer s));
          st = process_block b (state s)
      in concat (map (be_bytes 4) st))"

definition sha_digest :: "u8 list \<Rightarrow> u8 list" where
  "sha_digest data = sha_finalize (sha_update data sha_new)"

subsection \<open>HMAC\<close>

definition constant_time_eq :: "u8 list \<Rightarrow> u8 list \<Rightarrow> bool" where
  "constant_time_eq a b =
     (if length a \<noteq> length b then False
      else fold (\<lambda>(x, y) diff. diff OR (x XOR y)) (zip a b) 0 = 0)"

definition hmac_mac :: "u8 list \<Rightarrow> u8 list \<Rightarrow> u8 list" where
  "hmac_mac key message =
     (let key_block = (if length key > 64 then put_bytes 0 (sha_digest key) (replicate 64 0)
                       else put_bytes 0 key (replicate 64 0));
          o_key_pad = fold (\<lambda>i p. p[i := p ! i XOR key_block ! i]) [0..<64] (replicate 64 0x5c);
          i_key_pad = fold (\<lambda>i p. p[i := p ! i XOR key_block ! i]) [0..<64] (replicate 64 0x36);
          inner_hash = sha_finalize (sha_update message (sha_update i_key_pad sha_new))
      in sha_finalize (sha_update inner_hash (sha_update o_key_pad sha_new)))"

definition hmac_verify :: "u8 list \<Rightarrow> u8 list \<Rightarrow> u8 list \<Rightarrow> bool" where
  "hmac_verify key message tag = constant_time_eq (hmac_mac key message) tag"

subsection \<open>ChaCha20\<close>

definition quarter_round :: "nat \<Rightarrow> nat \<Rightarrow> nat \<Rightarrow> nat \<Rightarrow> u32 list \<Rightarrow> u32 list" where
  "quarter_round a b c d s =
     (let s = s[a := s ! a + s ! b]; s = s[d := word_rotl 16 (s ! d XOR s ! a)];
          s = s[c := s ! c + s ! d]; s = s[b := word_rotl 12 (s ! b XOR s ! c)];
          s = s[a := s ! a + s ! b]; s = s[d := word_rotl 8 (s ! d XOR s ! a)];
          s = s[c := s ! c + s ! d]; s = s[b := word_rotl 7 (s ! b XOR s ! c)]
      in s)"

definition double_round :: "u32 list \<Rightarrow> u32 list" where
  "double_round s =
     (let s = quarter_round 0 4 8 12 s; s = quarter_round 1 5 9 13 s;
          s = quarter_round 2 6 10 14 s; s = quarter_round 3 7 11 15 s;
          s = quarter_round 0 5 10 15 s; s = quarter_round 1 6 11 12 s;
          s = quarter_round 2 7 8 13 s; s = quarter_round 3 4 9 14 s
      in s)"

definition word_at :: "u8 list \<Rightarrow> nat \<Rightarrow> u32" where
  "word_at b i = from_le [b ! i, b ! (i + 1), b ! (i + 2), b ! (i + 3)]"

definition chacha_init :: "u8 list \<Rightarrow> u8 list \<Rightarrow> u32 \<Rightarrow> u32 list" where
  "chacha_init key nonce counter =
     [0x61707865, 0x3320646e, 0x79622d32, 0x6b206574,
      word_at key 0, word_at key 4, word_at key 8, word_at key 12,
      word_at key 16, word_at key 20, word_at key 24, word_at key 28,
      counter, word_at nonce 0, word_at nonce 4, word_at nonce 8]"

definition chacha_block :: "u8 list \<Rightarrow> u8 list \<Rightarrow> u32 \<Rightarrow> u8 list \<Rightarrow> u8 list" where
  "chacha_block key nonce counter out =
     (let initial = chacha_init key nonce counter;
          st = (double_round ^^ 10) initial
      in fold (\<lambda>i out. put_bytes (i * 4) (le_bytes 4 (st ! i + initial ! i)) out) [0..<16] out)"

text \<open>The loop, with the counter, the offset and the key block carried along.\<close>

function keystream_loop :: "u8 list \<Rightarrow> u8 list \<Rightarrow> u32 \<Rightarrow> nat \<Rightarrow> u8 list \<Rightarrow> u8 list \<Rightarrow> u8 list" where
  "keystream_loop key nonce counter offset keyblock data =
     (if offset < length data
      then let keyblock = chacha_block key nonce counter keyblock;
               chunk_len = min (length data - offset) 64;
               data = fold (\<lambda>i data. data[offset + i := data ! (offset + i) XOR keyblock ! i]) [0..<chunk_len] data
           in keystream_loop key nonce (counter + 1) (offset + chunk_len) keyblock data
      else data)"
  by pat_completeness auto

termination
  by (relation "measure (\<lambda>(_, _, _, offset, _, data). length data - offset)") auto

declare keystream_loop.simps [simp del]

definition apply_keystream :: "u8 list \<Rightarrow> u8 list \<Rightarrow> u32 \<Rightarrow> u8 list \<Rightarrow> u8 list" where
  "apply_keystream key nonce start_counter data = keystream_loop key nonce start_counter 0 (replicate 64 0) data"

definition transform_sector :: "u8 list \<Rightarrow> u64 \<Rightarrow> u8 list \<Rightarrow> u8 list" where
  "transform_sector key sector_lba sector_data =
     (let nonce = put_bytes 8 [0x53, 0x45, 0x43, 0x54] (put_bytes 0 (le_bytes 8 sector_lba) (replicate 12 0))
      in apply_keystream key nonce 1 sector_data)"

subsection \<open>The hash against its standard\<close>

text \<open>The message cut into its whole 64-byte blocks.\<close>

fun blocks :: "u8 list \<Rightarrow> u8 list list" where
  "blocks xs = (if length xs < 64 then [] else take 64 xs # blocks (drop 64 xs))"

declare blocks.simps [simp del]

text \<open>FIPS 180-4: padding with a one bit, zeros up to 56 modulo 64 and the length in bits.\<close>

definition sha_pad :: "u8 list \<Rightarrow> u8 list" where
  "sha_pad msg = msg @ [0x80] @ replicate ((119 - length msg mod 64) mod 64) 0 @ be_bytes 8 (of_nat (8 * length msg) :: u64)"

definition sha_spec :: "u8 list \<Rightarrow> u8 list" where
  "sha_spec msg = concat (map (be_bytes 4) (fold process_block (blocks (sha_pad msg)) H0))"

lemma blocks_append:
  assumes "64 dvd length xs"
  shows "blocks (xs @ ys) = blocks xs @ blocks ys"
  using assms
proof (induction xs rule: blocks.induct)
  case (1 xs)
  show ?case
  proof (cases "length xs < 64")
    case True
    with "1.prems" have "xs = []" using dvd_imp_le by fastforce
    then show ?thesis by (simp add: blocks.simps [of "[]"])
  next
    case False
    then have "64 dvd length (drop 64 xs)" using "1.prems" by (simp add: dvd_diff_nat)
    with 1 False show ?thesis by (simp add: blocks.simps [of "xs @ ys"] blocks.simps [of xs])
  qed
qed

lemma blocks_short [simp]: "length xs < 64 \<Longrightarrow> blocks xs = []"
  by (simp add: blocks.simps)

lemma blocks_one [simp]: "length xs = 64 \<Longrightarrow> blocks xs = [xs]"
  by (simp add: blocks.simps [of xs])

text \<open>\<open>sha_rep s msg\<close>: the hasher has absorbed exactly \<open>msg\<close>.\<close>

definition sha_wf :: "Sha256 \<Rightarrow> bool" where
  "sha_wf s \<longleftrightarrow> length (state s) = 8 \<and> length (buffer s) = 64 \<and> buffer_len s < 64"

definition sha_rep :: "Sha256 \<Rightarrow> u8 list \<Rightarrow> bool" where
  "sha_rep s msg \<longleftrightarrow> sha_wf s \<and> total_len s = of_nat (length msg) \<and>
     (\<exists>m. 64 dvd length m \<and> msg = m @ take (buffer_len s) (buffer s) \<and> state s = fold process_block (blocks m) H0)"

lemma length_process_block [simp]: "length (process_block b st) = 8"
  by (simp add: process_block_def Let_def split_beta)

lemma sha_rep_new: "sha_rep sha_new []"
  by (auto simp: sha_rep_def sha_new_def sha_wf_def H0_def intro!: exI [of _ "[]"])

lemma sha_loop_rep:
  assumes "sha_wf s" "buffer_len s = 0" "64 dvd length m" "state s = fold process_block (blocks m) H0"
    and "total_len s = of_nat (length (m @ data))"
  shows "sha_rep (sha_loop s data) (m @ data)"
  using assms
proof (induction s data arbitrary: m rule: sha_loop.induct)
  case (1 s data)
  show ?case
  proof (cases "length data \<ge> 64")
    case True
    let ?s = "s\<lparr>state := process_block (take 64 data) (state s)\<rparr>"
    have "sha_rep (sha_loop ?s (drop 64 data)) ((m @ take 64 data) @ drop 64 data)"
      using "1.prems" True by (intro "1.IH") (auto simp: sha_wf_def blocks_append)
    then show ?thesis using True by (simp add: sha_loop.simps [of s])
  next
    case False
    with "1.prems" show ?thesis
      by (auto simp: sha_loop.simps [of s] sha_rep_def sha_wf_def put_bytes_def intro!: exI [of _ m])
  qed
qed

lemma sha_rep_update:
  assumes "sha_rep s msg"
  shows "sha_rep (sha_update data s) (msg @ data)"
proof -
  obtain m where m: "64 dvd length m" "msg = m @ take (buffer_len s) (buffer s)" "state s = fold process_block (blocks m) H0"
    and wf: "sha_wf s" and t: "total_len s = of_nat (length msg)"
    using assms by (auto simp: sha_rep_def)
  have len: "length (buffer s) = 64" "buffer_len s < 64" using wf by (simp_all add: sha_wf_def)
  show ?thesis
  proof (cases "buffer_len s = 0")
    case True
    let ?s = "s\<lparr>total_len := total_len s + of_nat (length data)\<rparr>"
    have "sha_rep (sha_loop ?s data) (m @ data)"
      using True m wf t by (intro sha_loop_rep) (simp_all add: sha_wf_def)
    then show ?thesis using True m(2) by (simp add: sha_update_def)
  next
    case False
    let ?n = "64 - buffer_len s"
    show ?thesis
    proof (cases "length data < ?n")
      case True
      with False m t len wf show ?thesis
        by (auto simp: sha_update_def sha_rep_def sha_wf_def put_bytes_def Let_def)
    next
      case long: False
      let ?b = "put_bytes (buffer_len s) (take ?n data) (buffer s)"
      have b: "?b = take (buffer_len s) (buffer s) @ take ?n data" "length ?b = 64"
        using long len by (simp_all add: put_bytes_def)
      let ?s = "s\<lparr>total_len := total_len s + of_nat (length data), buffer := ?b, state := process_block ?b (state s), buffer_len := 0\<rparr>"
      have "sha_rep (sha_loop ?s (drop ?n data)) ((m @ ?b) @ drop ?n data)"
        by (rule sha_loop_rep) (use m b t long len wf in \<open>simp_all add: sha_wf_def blocks_append\<close>)
      moreover have "(m @ ?b) @ drop ?n data = msg @ data" by (simp add: m(2) b(1))
      ultimately show ?thesis using False long by (simp add: sha_update_def Let_def)
    qed
  qed
qed

lemma zero_range_eq:
  assumes "length b = 64" "from \<le> to" "to \<le> 64"
  shows "zero_range from to b = take from b @ replicate (to - from) 0 @ drop to b"
proof (rule nth_equalityI)
  show "length (zero_range from to b) = length (take from b @ replicate (to - from) 0 @ drop to b)"
    using assms by (simp add: zero_range_def)
next
  fix j assume "j < length (zero_range from to b)"
  then have j: "j < 64" using assms(1) by (simp add: zero_range_def)
  have "zero_range from to b ! j = (if j \<in> set [from..<to] then 0 else b ! j)"
    unfolding zero_range_def using assms by (intro fold_update_nth [where h = "\<lambda>_ _. 0"]) auto
  then show "zero_range from to b ! j = (take from b @ replicate (to - from) 0 @ drop to b) ! j"
    using assms j by (auto simp: nth_append)
qed

lemma sha_finalize_rep:
  assumes "sha_rep s msg"
  shows "sha_finalize s = sha_spec msg"
proof -
  define n where "n = buffer_len s"
  define r where "r = take n (buffer s)"
  define len8 where "len8 = be_bytes 8 (of_nat (8 * length msg) :: u64)"
  obtain m where m: "64 dvd length m" "msg = m @ r" "state s = fold process_block (blocks m) H0"
    and len: "length (buffer s) = 64" "n < 64" and t: "be_bytes 8 (total_len s * 8) = len8"
    using assms by (auto simp: sha_rep_def sha_wf_def r_def n_def len8_def mult.commute)
  have r: "length r = n" using len by (simp add: r_def)
  have mod: "length msg mod 64 = n" using m(1,2) r len(2) by (auto elim!: dvdE)
  have one: "(buffer s)[n := 0x80] = r @ 0x80 # drop (Suc n) (buffer s)"
    using len by (simp add: r_def upd_conv_take_nth_drop)
  have l8: "length len8 = 8" by (simp add: len8_def)
  have pad: "blocks (sha_pad msg) = blocks m @ blocks (r @ [0x80] @ replicate ((119 - n) mod 64) 0 @ len8)"
    unfolding sha_pad_def mod len8_def [symmetric] by (simp add: m(2) blocks_append m(1))
  show ?thesis
  proof (cases "n < 56")
    case True
    let ?b = "r @ [0x80] @ replicate (55 - n) 0 @ len8"
    have "(119 - n) mod 64 = 55 - n" using True by (simp add: mod_if)
    moreover have "56 - n = Suc (55 - n)" using True by simp
    then have "put_bytes 56 len8 (zero_range (Suc n) 56 ((buffer s)[n := 0x80])) = ?b"
      using True len r l8 by (simp add: zero_range_eq one put_bytes_def)
    ultimately show ?thesis
      using True r l8 len by (simp add: sha_finalize_def sha_spec_def pad Let_def m(3) t flip: n_def)
  next
    case False
    let ?b = "r @ [0x80] @ replicate (63 - n) 0" and ?c = "replicate 56 0 @ len8"
    have "(119 - n) mod 64 = (63 - n) + 56" using False len(2) by simp
    then have "blocks (r @ [0x80] @ replicate ((119 - n) mod 64) 0 @ len8) = blocks (?b @ ?c)"
      by (simp only: replicate_add append_assoc)
    also have "\<dots> = [?b, ?c]" using False len r l8 by (subst blocks_append) simp_all
    finally have p: "blocks (sha_pad msg) = blocks m @ [?b, ?c]" by (simp only: pad)
    have "zero_range (Suc n) 64 ((buffer s)[n := 0x80]) = ?b"
      using False len r by (simp add: zero_range_eq one)
    moreover have "put_bytes 56 len8 (zero_range 0 56 ?b) = ?c"
      using False len r l8 by (simp add: zero_range_eq put_bytes_def)
    ultimately show ?thesis
      using False r l8 len by (simp add: sha_finalize_def sha_spec_def p Let_def m(3) t flip: n_def)
  qed
qed

lemma sha_rep_pieces: "sha_rep (fold sha_update pieces sha_new) (concat pieces)"
proof -
  have "sha_rep s msg \<Longrightarrow> sha_rep (fold sha_update pieces s) (msg @ concat pieces)" for s msg
    by (induction pieces arbitrary: s msg) (auto dest: sha_rep_update simp flip: append_assoc)
  from this [OF sha_rep_new] show ?thesis by simp
qed

lemma sha_digest_spec: "sha_digest data = sha_spec data"
  using sha_finalize_rep [OF sha_rep_update [OF sha_rep_new]] by (simp add: sha_digest_def)

lemma length_sha_spec [simp]: "length (sha_spec msg) = 32"
proof -
  have "length (fold process_block bs st) = 8" if "length st = 8" for bs st
    using that by (induction bs arbitrary: st) simp_all
  then have "length (fold process_block (blocks (sha_pad msg)) H0) = 8" by (simp add: H0_def)
  then show ?thesis by (simp add: sha_spec_def length_concat comp_def sum_list_triv)
qed

text \<open>RFC 2104.\<close>

definition hmac_spec :: "u8 list \<Rightarrow> u8 list \<Rightarrow> u8 list" where
  "hmac_spec key message =
     (let key0 = (if length key > 64 then sha_spec key else key);
          k = key0 @ replicate (64 - length key0) 0
      in sha_spec (map (\<lambda>b. 0x5c XOR b) k @ sha_spec (map (\<lambda>b. 0x36 XOR b) k @ message)))"

lemma pad_loop:
  assumes "length k = 64"
  shows "fold (\<lambda>i p. p[i := p ! i XOR k ! i]) [0..<64] (replicate 64 c) = map (\<lambda>b. c XOR b) k"
proof (rule nth_equalityI)
  fix j assume "j < length (fold (\<lambda>i p. p[i := p ! i XOR k ! i]) [0..<64] (replicate 64 c))"
  then have "j < 64" by simp
  then show "fold (\<lambda>i p. p[i := p ! i XOR k ! i]) [0..<64] (replicate 64 c) ! j = map (\<lambda>b. c XOR b) k ! j"
    using assms fold_update_nth [of "[0..<64]" "replicate 64 c" "\<lambda>i x. x XOR k ! i" j]
    by (simp del: upt_rec_numeral)
qed (simp add: assms)

lemma hmac_mac_spec: "hmac_mac key message = hmac_spec key message"
proof -
  have two: "sha_finalize (sha_update b (sha_update a sha_new)) = sha_spec (a @ b)" for a b
    using sha_finalize_rep [OF sha_rep_update [OF sha_rep_update [OF sha_rep_new]]] by simp
  have k: "put_bytes 0 key0 (replicate 64 0) = key0 @ replicate (64 - length key0) 0" for key0 :: "u8 list"
    by (simp add: put_bytes_def)
  show ?thesis
    unfolding hmac_mac_def hmac_spec_def Let_def two k sha_digest_spec
    by (cases "length key > 64") (simp_all add: pad_loop del: upt_rec_numeral)
qed

lemma constant_time_eq_iff [simp]: "constant_time_eq a b \<longleftrightarrow> a = b"
proof (cases "length a = length b")
  case True
  have "fold (\<lambda>(x, y) diff. diff OR (x XOR y)) (zip a b) d = 0 \<longleftrightarrow> d = 0 \<and> a = b" for d
    using True
  proof (induction a b arbitrary: d rule: list_induct2)
    case (Cons x xs y ys)
    have "d OR (x XOR y) = 0 \<longleftrightarrow> d = 0 \<and> x = y" by (auto simp: bit_eq_iff bit_simps)
    with Cons show ?case by auto
  qed simp
  with True show ?thesis by (simp add: constant_time_eq_def)
qed (auto simp: constant_time_eq_def)

subsection \<open>The cipher\<close>

definition key_block :: "u8 list \<Rightarrow> u8 list \<Rightarrow> u32 \<Rightarrow> u8 list" where
  "key_block key nonce counter =
     (let initial = chacha_init key nonce counter
      in concat (map (le_bytes 4) (map2 (+) ((double_round ^^ 10) initial) initial)))"

lemma length_quarter_round [simp]: "length (quarter_round a b c d s) = length s"
  unfolding quarter_round_def Let_def length_list_update by (rule refl)

lemma length_double_round [simp]: "length (double_round s) = length s"
  by (simp add: double_round_def Let_def)

lemma fold_put_bytes:
  assumes "\<And>i. i < n \<Longrightarrow> length (f i) = k" "n * k \<le> length out"
  shows "fold (\<lambda>i out. put_bytes (i * k) (f i) out) [0..<n] out = concat (map f [0..<n]) @ drop (n * k) out"
  using assms
proof (induction n)
  case (Suc n)
  have "map length (map f [0..<n]) = map (\<lambda>_. k) [0..<n]" using Suc.prems(1) by simp
  then have "length (concat (map f [0..<n])) = n * k" unfolding length_concat by (simp only: sum_list_triv length_upt of_nat_id diff_zero)
  with Suc show ?case by (simp add: put_bytes_def add.commute)
qed simp

lemma chacha_block_eq:
  assumes "length out = 64"
  shows "chacha_block key nonce counter out = key_block key nonce counter"
proof -
  let ?i = "chacha_init key nonce counter" and ?s = "(double_round ^^ 10) (chacha_init key nonce counter)"
  have len: "length ?i = 16" by (simp add: chacha_init_def)
  have "length ((double_round ^^ n) ?i) = 16" for n by (induction n) (simp_all add: len)
  then have "map2 (+) ?s ?i = map (\<lambda>i. ?s ! i + ?i ! i) [0..<16]"
    by (intro nth_equalityI) (simp_all add: len)
  then show ?thesis
    using fold_put_bytes [of 16 "\<lambda>i. le_bytes 4 (?s ! i + ?i ! i)" 4 out] assms
    unfolding chacha_block_def key_block_def Let_def by (simp add: comp_def del: upt_rec_numeral)
qed

lemma length_key_block [simp]: "length (key_block key nonce counter) = 64"
proof -
  let ?i = "chacha_init key nonce counter"
  have "length ((double_round ^^ n) ?i) = 16" for n by (induction n) (simp_all add: chacha_init_def)
  then show ?thesis by (simp add: key_block_def Let_def length_concat comp_def sum_list_triv split_beta chacha_init_def)
qed

text \<open>Byte \<open>i\<close> of the key stream.\<close>

definition stream_byte :: "u8 list \<Rightarrow> u8 list \<Rightarrow> u32 \<Rightarrow> nat \<Rightarrow> u8" where
  "stream_byte key nonce counter i = key_block key nonce (counter + of_nat (i div 64)) ! (i mod 64)"

lemma xor_chunk:
  assumes "offset + n \<le> length d"
  shows "fold (\<lambda>i d. d[offset + i := d ! (offset + i) XOR kb ! i]) [0..<n] d ! j =
    (if offset \<le> j \<and> j < offset + n then d ! j XOR kb ! (j - offset) else d ! j)"
  using assms
proof (induction n arbitrary: j)
  case (Suc n)
  let ?d = "fold (\<lambda>i d. d[offset + i := d ! (offset + i) XOR kb ! i]) [0..<n] d"
  have "?d ! (offset + n) = d ! (offset + n)" using Suc by simp
  with Suc show ?case by (auto simp: nth_list_update less_Suc_eq)
qed auto

lemma keystream_loop_spec:
  assumes "length keyblock = 64" "offset = 64 * j"
  shows "length (keystream_loop key nonce counter offset keyblock data) = length data \<and>
    (\<forall>i < length data. keystream_loop key nonce counter offset keyblock data ! i =
      (if i < offset then data ! i else data ! i XOR stream_byte key nonce counter (i - offset)))"
  using assms
proof (induction key nonce counter offset keyblock data arbitrary: j rule: keystream_loop.induct)
  case (1 key nonce counter offset keyblock data)
  define kb n where "kb = key_block key nonce counter" and "n = min (length data - offset) 64"
  define d where "d = fold (\<lambda>i d. d[offset + i := d ! (offset + i) XOR kb ! i]) [0..<n] data"
  have kb: "chacha_block key nonce counter keyblock = kb" using "1.prems" by (simp add: chacha_block_eq kb_def)
  show ?case
  proof (cases "offset < length data")
    case True
    define res where "res = keystream_loop key nonce (counter + 1) (offset + n) kb d"
    have loop: "keystream_loop key nonce counter offset keyblock data = res"
      using True by (simp add: keystream_loop.simps [of key nonce counter] kb Let_def n_def d_def res_def)
    have d: "length d = length data"
      "d ! i = (if offset \<le> i \<and> i < offset + n then data ! i XOR kb ! (i - offset) else data ! i)" for i
      using True by (simp_all add: xor_chunk d_def n_def)
    have first: "stream_byte key nonce counter (i - offset) = kb ! (i - offset)" if "offset \<le> i" "i < offset + n" for i
      using that by (simp add: stream_byte_def n_def kb_def)
    have "length res = length data \<and>
      (\<forall>i < length data. res ! i = (if i < offset then data ! i else data ! i XOR stream_byte key nonce counter (i - offset)))"
    proof (cases "length data - offset \<le> 64")
      case True
      then have n: "offset + n = length data" using \<open>offset < length data\<close> by (simp add: n_def)
      then have "res = d" by (simp add: res_def keystream_loop.simps d(1))
      then show ?thesis using d first n by simp
    next
      case False
      then have n: "n = 64" by (simp add: n_def)
      have IH: "length res = length d \<and> (\<forall>i < length d. res ! i =
          (if i < offset + n then d ! i else d ! i XOR stream_byte key nonce (counter + 1) (i - (offset + n))))"
        using "1.IH" [OF True refl refl refl, of "Suc j"] "1.prems" n
        unfolding kb n_def [symmetric] d_def [symmetric] res_def [symmetric] by (simp add: kb_def)
      have shift: "stream_byte key nonce (counter + 1) (i - (offset + 64)) = stream_byte key nonce counter (i - offset)"
        if le: "offset + 64 \<le> i" for i
      proof -
        obtain k where "i = offset + 64 + k" using le_Suc_ex [OF le] by blast
        moreover have "(k + 64) div 64 = Suc (k div 64)" by simp
        ultimately show ?thesis by (simp add: stream_byte_def algebra_simps)
      qed
      show ?thesis
      proof (intro conjI allI impI)
        fix i assume i: "i < length data"
        show "res ! i = (if i < offset then data ! i else data ! i XOR stream_byte key nonce counter (i - offset))"
          using IH i d first [of i] shift [of i] n by (cases "i < offset + 64") simp_all
      qed (simp add: IH d(1))
    qed
    then show ?thesis by (simp add: loop)
  next
    case False
    then show ?thesis by (simp add: keystream_loop.simps [of key nonce counter])
  qed
qed

lemma apply_keystream_spec:
  "length (apply_keystream key nonce c data) = length data"
  "i < length data \<Longrightarrow> apply_keystream key nonce c data ! i = data ! i XOR stream_byte key nonce c i"
  using keystream_loop_spec [of "replicate 64 0" 0 0 key nonce c data] by (simp_all add: apply_keystream_def)

lemma apply_keystream_twice [simp]: "apply_keystream key nonce c (apply_keystream key nonce c data) = data"
  by (rule nth_equalityI) (simp_all add: apply_keystream_spec xor.assoc)

definition sector_nonce :: "u64 \<Rightarrow> u8 list" where
  "sector_nonce lba = le_bytes 8 lba @ [0x53, 0x45, 0x43, 0x54]"

lemma transform_sector_stream: "transform_sector key lba data = apply_keystream key (sector_nonce lba) 1 data"
  by (simp add: transform_sector_def sector_nonce_def Let_def put_bytes_def)

lemma transform_sector_twice [simp]: "transform_sector key lba (transform_sector key lba data) = data"
  by (simp add: transform_sector_stream)

lemma length_transform_sector [simp]: "length (transform_sector key lba data) = length data"
  by (simp add: transform_sector_stream apply_keystream_spec)

lemma sector_nonce_inject: "sector_nonce a = sector_nonce b \<longleftrightarrow> a = b"
  by (simp add: sector_nonce_def le_bytes_inject)


end
