(* ===== verification/Secure_Store.thy ===== *)
theory Secure_Store
  imports Crypto Capability
begin

text \<open>
  \<^verbatim>\<open>kernel_rs/src/crypto_store.rs\<close>: sector encryption bound to the sector number, and
  decryption gated by a \<^verbatim>\<open>CryptoKey\<close> capability.
\<close>

definition SECTOR_SIZE :: nat where "SECTOR_SIZE = 512"

definition derive_sector_nonce :: "u64 \<Rightarrow> u8 list" where
  "derive_sector_nonce lba = put_bytes 0 (le_bytes 8 lba) (replicate 12 0)"

definition store_transform_sector :: "u8 list \<Rightarrow> u64 \<Rightarrow> u8 list \<Rightarrow> u8 list \<Rightarrow> u8 list" where
  "store_transform_sector key lba input out = (let out = put_bytes 0 input out in transform_sector key lba out)"

definition create_key_capability ::
    "CapabilityTable \<Rightarrow> u32 \<Rightarrow> Rights \<Rightarrow> 'a cap_state_scheme \<Rightarrow> CapId \<times> CapabilityTable \<times> 'a cap_state_scheme" where
  "create_key_capability table key_id rights s =
     (let (obj_id, s) = create_object (CryptoKey key_id) s in grant table obj_id rights s)"

definition decrypt_sector_gated ::
    "CapabilityTable \<Rightarrow> CapId \<Rightarrow> u8 list \<Rightarrow> u64 \<Rightarrow> u8 list \<Rightarrow> u8 list \<Rightarrow> 'a cap_state_scheme \<Rightarrow>
     (CapError + unit) \<times> u8 list \<times> 'a cap_state_scheme" where
  "decrypt_sector_gated table cap key lba ciphertext plaintext_out s =
     (case resolve table cap Rights_DECRYPT s of
        (Inl e, s) \<Rightarrow> (Inl e, plaintext_out, s)
      | (Inr _, s) \<Rightarrow> (Inr (), store_transform_sector key lba ciphertext plaintext_out, s))"

lemma store_transform_sector_eq:
  "length input = SECTOR_SIZE \<Longrightarrow> length out = SECTOR_SIZE \<Longrightarrow>
   store_transform_sector key lba input out = transform_sector key lba input"
  by (simp add: store_transform_sector_def put_bytes_def)



end
