(* ===== verification/Signed_Update.thy ===== *)
theory Signed_Update
  imports Crypto
begin

text \<open>
  \<^verbatim>\<open>kernel_rs/src/update.rs\<close>: signed update packages and the two-bank update manager.
  The header is the little-endian \<^verbatim>\<open>repr(C)\<close> layout of \<^verbatim>\<open>SignedPackageHeader\<close>: 120 bytes,
  no padding.
\<close>

definition SIGNED_PACKAGE_MAGIC :: "u8 list" where
  "SIGNED_PACKAGE_MAGIC = [0x41, 0x47, 0x59, 0x50, 0x4B, 0x47, 0x32, 0]"

record SignedPackageHeader =
  sp_magic :: "u8 list"
  sp_version :: u32
  sp_flags :: u32
  payload_offset :: u32
  payload_size :: u32
  sha256_digest :: "u8 list"
  hmac_signature :: "u8 list"
  sp_name :: "u8 list"

definition SP_HDR_SIZE :: nat where "SP_HDR_SIZE = 120"

definition read_signed_header :: "u8 list \<Rightarrow> SignedPackageHeader" where
  "read_signed_header b =
     \<lparr>sp_magic = get_bytes 0 8 b, sp_version = from_le (get_bytes 8 4 b), sp_flags = from_le (get_bytes 12 4 b),
      payload_offset = from_le (get_bytes 16 4 b), payload_size = from_le (get_bytes 20 4 b),
      sha256_digest = get_bytes 24 32 b, hmac_signature = get_bytes 56 32 b, sp_name = get_bytes 88 32 b\<rparr>"

definition signed_header_bytes :: "SignedPackageHeader \<Rightarrow> u8 list" where
  "signed_header_bytes h =
     sp_magic h @ le_bytes 4 (sp_version h) @ le_bytes 4 (sp_flags h) @ le_bytes 4 (payload_offset h) @
     le_bytes 4 (payload_size h) @ sha256_digest h @ hmac_signature h @ sp_name h"

datatype UpdateError =
    TooShort
  | BadMagic
  | InvalidOffsets
  | TamperedPayload
  | BadSignature
  | VersionDowngrade (current_version: u32) (new_version: u32)
  | RollbackUnavailable

datatype BankSlot = BankA | BankB

primrec alternate :: "BankSlot \<Rightarrow> BankSlot" where
  "alternate BankA = BankB"
| "alternate BankB = BankA"

record DualBankManager =
  active_bank :: BankSlot
  bank_a_version :: u32
  bank_b_version :: u32
  rollback_available :: bool

definition dual_bank_new :: "u32 \<Rightarrow> DualBankManager" where
  "dual_bank_new initial_version =
     \<lparr>active_bank = BankA, bank_a_version = initial_version, bank_b_version = 0, rollback_available = False\<rparr>"

definition active_version :: "DualBankManager \<Rightarrow> u32" where
  "active_version m = (case active_bank m of BankA \<Rightarrow> bank_a_version m | BankB \<Rightarrow> bank_b_version m)"

text \<open>Staging only reads the manager. The offsets are 32 bits wide, so the saturating 64-bit sum is the sum.\<close>

definition stage_update ::
    "DualBankManager \<Rightarrow> u8 list \<Rightarrow> u8 list \<Rightarrow> UpdateError + BankSlot \<times> u32 \<times> u8 list" where
  "stage_update m package_bytes key =
     (if length package_bytes < SP_HDR_SIZE then Inl TooShort
      else let hdr = read_signed_header package_bytes
      in if sp_magic hdr \<noteq> SIGNED_PACKAGE_MAGIC then Inl BadMagic
      else let start = unat (payload_offset hdr); last = start + unat (payload_size hdr)
      in if start < SP_HDR_SIZE \<or> last > length package_bytes then Inl InvalidOffsets
      else let payload = get_bytes start (last - start) package_bytes; current = active_version m
      in if sp_version hdr \<le> current then Inl (VersionDowngrade current (sp_version hdr))
      else let computed_digest = sha_digest payload
      in if \<not> constant_time_eq computed_digest (sha256_digest hdr) then Inl TamperedPayload
      else let computed_hmac = hmac_mac key (sha256_digest hdr)
      in if \<not> constant_time_eq computed_hmac (hmac_signature hdr) then Inl BadSignature
      else Inr (alternate (active_bank m), sp_version hdr, payload))"

definition commit_update :: "BankSlot \<Rightarrow> u32 \<Rightarrow> DualBankManager \<Rightarrow> DualBankManager" where
  "commit_update target_bank version m =
     (case target_bank of BankA \<Rightarrow> m\<lparr>bank_a_version := version\<rparr> | BankB \<Rightarrow> m\<lparr>bank_b_version := version\<rparr>)
       \<lparr>active_bank := target_bank, rollback_available := True\<rparr>"

definition rollback :: "DualBankManager \<Rightarrow> (UpdateError + BankSlot \<times> u32) \<times> DualBankManager" where
  "rollback m =
     (if \<not> rollback_available m then (Inl RollbackUnavailable, m)
      else let m = m\<lparr>active_bank := alternate (active_bank m), rollback_available := False\<rparr>
           in (Inr (active_bank m, active_version m), m))"

definition create_signed_package :: "u32 \<Rightarrow> u8 list \<Rightarrow> u8 list \<Rightarrow> u8 list \<Rightarrow> u8 list" where
  "create_signed_package version name payload key =
     (let digest = sha_digest payload;
          signature = hmac_mac key digest;
          nlen = min (length name) 32;
          name_bytes = put_bytes 0 (take nlen name) (replicate 32 0);
          hdr = \<lparr>sp_magic = SIGNED_PACKAGE_MAGIC, sp_version = version, sp_flags = 0,
                 payload_offset = of_nat SP_HDR_SIZE, payload_size = of_nat (length payload),
                 sha256_digest = digest, hmac_signature = signature, sp_name = name_bytes\<rparr>
      in signed_header_bytes hdr @ payload)"

subsection \<open>Headers\<close>

definition header_shape :: "SignedPackageHeader \<Rightarrow> bool" where
  "header_shape h \<longleftrightarrow> length (sp_magic h) = 8 \<and> length (sha256_digest h) = 32 \<and>
     length (hmac_signature h) = 32 \<and> length (sp_name h) = 32"

lemma length_signed_header [simp]: "header_shape h \<Longrightarrow> length (signed_header_bytes h) = SP_HDR_SIZE"
  by (simp add: header_shape_def signed_header_bytes_def SP_HDR_SIZE_def)

lemma read_signed_header_bytes:
  assumes "header_shape h"
  shows "read_signed_header (signed_header_bytes h @ rest) = h"
  using assms by (simp add: header_shape_def read_signed_header_def signed_header_bytes_def get_bytes_def)

text \<open>What acceptance means, field by field.\<close>

lemma stage_update_Inr:
  "stage_update m b key = Inr (bank, v, payload) \<longleftrightarrow>
   (let h = read_signed_header b; start = unat (payload_offset h); n = unat (payload_size h)
    in SP_HDR_SIZE \<le> length b \<and> sp_magic h = SIGNED_PACKAGE_MAGIC \<and> SP_HDR_SIZE \<le> start \<and> start + n \<le> length b \<and>
       payload = get_bytes start n b \<and> v = sp_version h \<and> active_version m < v \<and> bank = alternate (active_bank m) \<and>
       sha256_digest h = sha_spec payload \<and> hmac_signature h = hmac_spec key (sha_spec payload))"
  unfolding stage_update_def Let_def sha_digest_spec hmac_mac_spec constant_time_eq_iff guard_Inr sum.inject prod.inject
    de_Morgan_disj not_less not_le not_not add_diff_cancel_left'
  by (rule iffI; elim conjE; intro conjI; (assumption | simp only:))

lemma read_header_version:
  assumes "SP_HDR_SIZE \<le> length b"
  shows "read_signed_header (put_bytes 8 (le_bytes 4 v) b) = (read_signed_header b)\<lparr>sp_version := v\<rparr>"
  using assms by (simp add: read_signed_header_def SP_HDR_SIZE_def byte_simps)

lemma create_signed_package_bytes:
  obtains h where "header_shape h" "create_signed_package v name payload key = signed_header_bytes h @ payload"
    "sp_magic h = SIGNED_PACKAGE_MAGIC" "sp_version h = v" "payload_offset h = 120" "payload_size h = of_nat (length payload)"
    "sha256_digest h = sha_spec payload" "hmac_signature h = hmac_spec key (sha_spec payload)"
proof
  let ?h = "\<lparr>sp_magic = SIGNED_PACKAGE_MAGIC, sp_version = v, sp_flags = 0, payload_offset = 120,
    payload_size = of_nat (length payload), sha256_digest = sha_spec payload, hmac_signature = hmac_spec key (sha_spec payload),
    sp_name = put_bytes 0 (take (min (length name) 32) name) (replicate 32 0)\<rparr>"
  show "header_shape ?h"
    by (simp add: header_shape_def SIGNED_PACKAGE_MAGIC_def hmac_spec_def Let_def)
  show "create_signed_package v name payload key = signed_header_bytes ?h @ payload"
    by (simp add: create_signed_package_def Let_def sha_digest_spec hmac_mac_spec SP_HDR_SIZE_def)
qed simp_all

lemma stage_created_package:
  assumes "active_version m < v" "length payload < 2 ^ 32"
  shows "stage_update m (create_signed_package v name payload key) key = Inr (alternate (active_bank m), v, payload)"
proof -
  obtain h where h: "header_shape h" "create_signed_package v name payload key = signed_header_bytes h @ payload"
    "sp_magic h = SIGNED_PACKAGE_MAGIC" "sp_version h = v" "payload_offset h = 120" "payload_size h = of_nat (length payload)"
    "sha256_digest h = sha_spec payload" "hmac_signature h = hmac_spec key (sha_spec payload)"
    by (rule create_signed_package_bytes)
  have "unat (payload_size h) = length payload" using assms(2) by (simp add: h unat_of_nat take_bit_nat_eq_self)
  then show ?thesis
    unfolding stage_update_Inr Let_def h(2) read_signed_header_bytes [OF h(1)] using assms h
    by (simp add: SP_HDR_SIZE_def get_bytes_def)
qed

lemma commit_and_rollback:
  assumes "bank = alternate (active_bank m)"
  shows "active_bank (commit_update bank v m) = bank" "active_version (commit_update bank v m) = v"
    "fst (rollback (commit_update bank v m)) = Inr (active_bank m, active_version m)"
    "active_bank (snd (rollback (commit_update bank v m))) = active_bank m"
    "active_version (snd (rollback (commit_update bank v m))) = active_version m"
    "fst (rollback (snd (rollback (commit_update bank v m)))) = Inl RollbackUnavailable"
  using assms
  by (cases "active_bank m"; simp add: commit_update_def rollback_def active_version_def Let_def)+

text \<open>
  C23. A package built for a version above the running one and signed with the same key is accepted and yields its
  payload; committing it makes the other bank active with that version, and a rollback then restores exactly the
  bank and the version that were active before, once.
\<close>

theorem signed_update_round_trip:
  assumes "active_version m < v" "length payload < 2 ^ 32"
  shows "\<exists>bank. stage_update m (create_signed_package v name payload key) key = Inr (bank, v, payload) \<and>
    bank \<noteq> active_bank m \<and>
    (let m' = commit_update bank v m; (r, m'') = rollback m'
     in active_bank m' = bank \<and> active_version m' = v \<and> r = Inr (active_bank m, active_version m) \<and>
        active_bank m'' = active_bank m \<and> active_version m'' = active_version m \<and>
        fst (rollback m'') = Inl RollbackUnavailable)"
proof -
  have "alternate (active_bank m) \<noteq> active_bank m" by (cases "active_bank m") simp_all
  with stage_created_package [OF assms] commit_and_rollback [OF refl] show ?thesis
    by (auto simp: Let_def split_beta)
qed

theorem signed_update_round_trip_witness:
  "\<exists>bank. stage_update (dual_bank_new 1) (create_signed_package 2 [0x61] [1, 2, 3] (replicate 32 9)) (replicate 32 9) = Inr (bank, 2, [1, 2, 3])"
  using signed_update_round_trip [of "dual_bank_new 1" 2 "[1, 2, 3]" "[0x61]" "replicate 32 9"]
  by (auto simp: dual_bank_new_def active_version_def)

text \<open>
  C38. An accepted package carries a payload whose digest is signed with the key; but the version is not part of
  what is signed: any accepted package stays accepted, with the same payload, when its version field is
  overwritten by any larger one. The version check therefore does not stop an old signed payload.
\<close>

theorem version_not_authenticated:
  assumes "stage_update m b key = Inr (bank, v, payload)" "active_version m' < v'" "active_bank m' = active_bank m"
  shows "get_bytes 24 32 b = sha_spec payload \<and> get_bytes 56 32 b = hmac_spec key (sha_spec payload) \<and> active_version m < v \<and>
    stage_update m' (put_bytes 8 (le_bytes 4 v') b) key = Inr (bank, v', payload)"
proof -
  let ?h = "read_signed_header b"
  have a: "SP_HDR_SIZE \<le> length b" "sp_magic ?h = SIGNED_PACKAGE_MAGIC" "SP_HDR_SIZE \<le> unat (payload_offset ?h)"
    "unat (payload_offset ?h) + unat (payload_size ?h) \<le> length b" "bank = alternate (active_bank m)" "active_version m < v"
    "payload = get_bytes (unat (payload_offset ?h)) (unat (payload_size ?h)) b"
    "sha256_digest ?h = sha_spec payload" "hmac_signature ?h = hmac_spec key (sha_spec payload)"
    using assms(1) unfolding stage_update_Inr Let_def by blast+
  have l: "length (put_bytes 8 (le_bytes 4 v') b) = length b" using a(1) by (simp add: SP_HDR_SIZE_def)
  have p: "get_bytes (unat (payload_offset ?h)) (unat (payload_size ?h)) (put_bytes 8 (le_bytes 4 v') b) = payload"
    unfolding a(7) using a(1,3,4) by (intro get_put_other) (simp_all add: SP_HDR_SIZE_def)
  have "stage_update m' (put_bytes 8 (le_bytes 4 v') b) key = Inr (bank, v', payload)"
    unfolding stage_update_Inr Let_def read_header_version [OF a(1)] l using a assms(2,3) p by simp
  moreover have "get_bytes 24 32 b = sha_spec payload" "get_bytes 56 32 b = hmac_spec key (sha_spec payload)"
    using a(8,9) by (simp_all add: read_signed_header_def)
  ultimately show ?thesis using a(6) by simp
qed

theorem version_not_authenticated_witness:
  "\<exists>p. stage_update (dual_bank_new 7) (put_bytes 8 (le_bytes 4 (9 :: u32)) p) (replicate 32 9) = Inr (BankB, 9, [1, 2, 3])"
  using version_not_authenticated [of "dual_bank_new 1" "create_signed_package 2 [] [1, 2, 3] (replicate 32 9)" "replicate 32 9"
      BankB 2 "[1, 2, 3]" "dual_bank_new 7" 9]
    stage_created_package [of "dual_bank_new 1" 2 "[1, 2, 3]" "[]" "replicate 32 9"]
  by (auto simp: dual_bank_new_def active_version_def)

end
