(* ===== verification/Policy.thy ===== *)
theory Policy
  imports Capability
begin

text \<open>
  What may be granted at all: the global rule for agents (\<^verbatim>\<open>kernel_rs/src/policy.rs\<close>) and the
  per-application manifest (\<^verbatim>\<open>kernel_rs/src/manifest.rs\<close>), a 16-bit mask over the kinds of
  kernel objects.
\<close>

datatype CapKind =
    KIpcEndpoint | KMmioRegion | KInterruptLine | KPortIoRange | KFileObject | KIntrospectionHandle
  | KAuditQueryHandle | KSocket | KSurface | KUserSession | KCryptoKey | KDnsResolver | KExecHandle

text \<open>The discriminants of the \<^verbatim>\<open>repr(u8)\<close> enumeration.\<close>

primrec kind_code :: "CapKind \<Rightarrow> nat" where
  "kind_code KIpcEndpoint = 0"
| "kind_code KMmioRegion = 1"
| "kind_code KInterruptLine = 2"
| "kind_code KPortIoRange = 3"
| "kind_code KFileObject = 4"
| "kind_code KIntrospectionHandle = 5"
| "kind_code KAuditQueryHandle = 6"
| "kind_code KSocket = 7"
| "kind_code KSurface = 8"
| "kind_code KUserSession = 9"
| "kind_code KCryptoKey = 10"
| "kind_code KDnsResolver = 11"
| "kind_code KExecHandle = 12"

fun kind_of :: "KernelObjectKind \<Rightarrow> CapKind" where
  "kind_of IpcEndpoint = KIpcEndpoint"
| "kind_of (MmioRegion _ _) = KMmioRegion"
| "kind_of (InterruptLine _) = KInterruptLine"
| "kind_of (PortIoRange _ _) = KPortIoRange"
| "kind_of (FileObject _) = KFileObject"
| "kind_of IntrospectionHandle = KIntrospectionHandle"
| "kind_of AuditQueryHandle = KAuditQueryHandle"
| "kind_of (Socket _ _ _ _) = KSocket"
| "kind_of (Surface _ _ _ _) = KSurface"
| "kind_of (UserSession _) = KUserSession"
| "kind_of (CryptoKey _) = KCryptoKey"
| "kind_of (DnsResolver _) = KDnsResolver"
| "kind_of ExecHandle = KExecHandle"

type_synonym Manifest = u16

definition Manifest_NONE :: Manifest where "Manifest_NONE = 0"

definition manifest_allow :: "Manifest \<Rightarrow> CapKind \<Rightarrow> Manifest" where
  "manifest_allow self kind = self OR push_bit (kind_code kind) 1"

definition declares :: "Manifest \<Rightarrow> CapKind \<Rightarrow> bool" where
  "declares self kind \<longleftrightarrow> self AND push_bit (kind_code kind) 1 \<noteq> 0"

definition AGENT_MAX_RIGHTS :: Rights where
  "AGENT_MAX_RIGHTS = Rights_INTROSPECT OR Rights_AUDIT_QUERY OR Rights_SEND OR Rights_RECEIVE"

definition allows :: "Rights \<Rightarrow> bool" where
  "allows rights = rights_contains AGENT_MAX_RIGHTS rights"

lemma kind_code_less: "kind_code k < 13"
  by (cases k) simp_all

lemma kind_code_inject: "kind_code k = kind_code k' \<longleftrightarrow> k = k'"
  by (cases k; cases k'; simp)

lemma declares_bit: "declares m k \<longleftrightarrow> bit m (kind_code k)"
  by (simp add: declares_def bit_iff_and_push_bit_not_eq_0)

lemma declares_NONE [simp]: "\<not> declares Manifest_NONE k"
  by (simp add: declares_bit Manifest_NONE_def)

lemma declares_allow [simp]: "declares (manifest_allow m k) k' \<longleftrightarrow> k' = k \<or> declares m k'"
  using kind_code_less [of k'] by (auto simp: declares_bit manifest_allow_def bit_simps kind_code_inject)

end
