(* ===== verification/Threads.thy ===== *)
theory Threads
  imports Policy Kernel_Lock "HOL-Library.Multiset"
begin

text \<open>
  \<^verbatim>\<open>kernel_rs/src/thread.rs\<close> with the per-core task state of \<^verbatim>\<open>gdt.rs\<close>: threads, the run
  queue, current thread and zombie slot of every core, spawning, the scheduler with work
  stealing, and the context switch down to the saved registers on the kernel stacks.

  Every operation runs under the kernel lock (theory \<open>Kernel_Lock\<close>) and is one step of the
  model; \<open>me\<close> is \<^verbatim>\<open>smp::current_cpu_index()\<close>. A \<^verbatim>\<open>Box<[u8]>\<close> stack is its address and length,
  the address being what the kernel allocator returned (theory \<open>Heap\<close>), an argument of the
  spawn operations; \<open>KMEM\<close> holds the 64-bit words of kernel stacks. Destroyed address spaces
  and dropped threads are recorded in order. The addresses of the two trampolines and of the
  instruction after the call of \<^verbatim>\<open>switch_to\<close> are link-time constants and are fields of the state.
\<close>

subsection \<open>Data\<close>

definition KERNEL_STACK_SIZE :: u64 where "KERNEL_STACK_SIZE = 64 * 1024"
definition IOPB_PORTS :: nat where "IOPB_PORTS = 1024"
definition IOPB_BYTES :: nat where "IOPB_BYTES = IOPB_PORTS div 8 + 1"
definition SWITCH_LOG_LEN :: nat where "SWITCH_LOG_LEN = 24"

record CalleeSaved =
  r15 :: u64
  r14 :: u64
  r13 :: u64
  r12 :: u64
  rbx :: u64
  rbp :: u64

datatype ThreadState = Ready | Running | Exited

record Thread =
  th_id :: u64
  th_state :: ThreadState
  saved_rsp :: u64
  stack_ptr :: u64
  stack_len :: u64
  address_space :: u64
  cap_table :: CapabilityTable
  iopb :: "u8 list"

record Tss =
  rsp0 :: u64
  tss_iopb :: "u8 list"

record CpuRegs =
  reg_rsp :: u64
  reg_rip :: u64
  reg_cr3 :: u64
  reg_callee :: CalleeSaved

record thread_state = cap_state +
  NEXT_TID :: u64
  RUN_QUEUES :: "nat \<Rightarrow> Thread list option"
  CURRENTS :: "nat \<Rightarrow> Thread option"
  ZOMBIES :: "nat \<Rightarrow> Thread option"
  TSSES :: "nat \<Rightarrow> Tss"
  SYSCALL_RSP :: "nat \<Rightarrow> u64"
  CPUS :: "nat \<Rightarrow> CpuRegs"
  KMEM :: "u64 \<Rightarrow> u64"
  SWITCH_LOG :: "(u64 \<times> u64 \<times> u64) list"
  SWITCH_LOG_POS :: nat
  DESTROYED :: "u64 list"
  REAPED :: "Thread list"
  RESCHEDULE_IPIS :: "nat list"
  kernel_pml4 :: u64
  thread_trampoline :: u64
  user_process_trampoline :: u64
  switch_return :: u64

subsection \<open>Port permissions\<close>

definition allow_port_bits :: "u16 \<Rightarrow> u8 list \<Rightarrow> u8 list" where
  "allow_port_bits port bitmap =
     (let p = unat port
      in if p \<ge> IOPB_PORTS then bitmap
         else bitmap[p div 8 := bitmap ! (p div 8) AND NOT (push_bit (p mod 8) 1)])"

definition deny_port_bits :: "u16 \<Rightarrow> u8 list \<Rightarrow> u8 list" where
  "deny_port_bits port bitmap =
     (let p = unat port
      in if p \<ge> IOPB_PORTS then bitmap
         else bitmap[p div 8 := bitmap ! (p div 8) OR push_bit (p mod 8) 1])"

definition is_port_allowed :: "u8 list \<Rightarrow> u16 \<Rightarrow> bool" where
  "is_port_allowed bitmap port =
     (let p = unat port
      in if p \<ge> IOPB_PORTS then False else bitmap ! (p div 8) AND push_bit (p mod 8) 1 = 0)"

definition set_iopb :: "nat \<Rightarrow> u8 list \<Rightarrow> 'a thread_state_scheme \<Rightarrow> 'a thread_state_scheme" where
  "set_iopb me bitmap s = s\<lparr>TSSES := (TSSES s)(me := (TSSES s me)\<lparr>tss_iopb := bitmap\<rparr>)\<rparr>"

definition set_kernel_stack :: "nat \<Rightarrow> u64 \<Rightarrow> 'a thread_state_scheme \<Rightarrow> 'a thread_state_scheme" where
  "set_kernel_stack me tp s = s\<lparr>TSSES := (TSSES s)(me := (TSSES s me)\<lparr>rsp0 := tp\<rparr>)\<rparr>"

definition syscall_set_kernel_stack :: "nat \<Rightarrow> u64 \<Rightarrow> 'a thread_state_scheme \<Rightarrow> 'a thread_state_scheme" where
  "syscall_set_kernel_stack me tp s = s\<lparr>SYSCALL_RSP := (SYSCALL_RSP s)(me := tp)\<rparr>"

subsection \<open>The current thread\<close>

definition current_id :: "nat \<Rightarrow> 'a thread_state_scheme \<Rightarrow> u64" where
  "current_id me s = (case CURRENTS s me of None \<Rightarrow> 0 | Some t \<Rightarrow> th_id t)"

definition stack_top :: "Thread \<Rightarrow> u64" where
  "stack_top t = stack_ptr t + stack_len t"

definition current_kernel_stack_top :: "nat \<Rightarrow> 'a thread_state_scheme \<Rightarrow> u64" where
  "current_kernel_stack_top me s = (case CURRENTS s me of None \<Rightarrow> 0 | Some t \<Rightarrow> stack_top t)"

definition update_current :: "nat \<Rightarrow> (Thread \<Rightarrow> Thread) \<Rightarrow> 'a thread_state_scheme \<Rightarrow> 'a thread_state_scheme" where
  "update_current me f s = s\<lparr>CURRENTS := (CURRENTS s)(me := map_option f (CURRENTS s me))\<rparr>"

definition set_current_address_space :: "nat \<Rightarrow> u64 \<Rightarrow> 'a thread_state_scheme \<Rightarrow> 'a thread_state_scheme" where
  "set_current_address_space me pml4_phys s = update_current me (\<lambda>t. t\<lparr>address_space := pml4_phys\<rparr>) s"

definition allow_port_for_current :: "nat \<Rightarrow> u16 \<Rightarrow> 'a thread_state_scheme \<Rightarrow> 'a thread_state_scheme" where
  "allow_port_for_current me port s =
     (case CURRENTS s me of
        None \<Rightarrow> s
      | Some t \<Rightarrow> (let bitmap = allow_port_bits port (iopb t)
                   in set_iopb me bitmap (update_current me (\<lambda>t. t\<lparr>iopb := bitmap\<rparr>) s)))"

definition deny_port_for_current :: "nat \<Rightarrow> u16 \<Rightarrow> 'a thread_state_scheme \<Rightarrow> 'a thread_state_scheme" where
  "deny_port_for_current me port s =
     (case CURRENTS s me of
        None \<Rightarrow> s
      | Some t \<Rightarrow> (let bitmap = deny_port_bits port (iopb t)
                   in set_iopb me bitmap (update_current me (\<lambda>t. t\<lparr>iopb := bitmap\<rparr>) s)))"

definition current_has_port_access :: "nat \<Rightarrow> u16 \<Rightarrow> 'a thread_state_scheme \<Rightarrow> bool" where
  "current_has_port_access me port s =
     (case CURRENTS s me of None \<Rightarrow> False | Some t \<Rightarrow> is_port_allowed (iopb t) port)"

definition as_current :: "nat \<Rightarrow> 'a thread_state_scheme \<Rightarrow> 'a thread_state_scheme" where
  "as_current me s = s\<lparr>current_tid := current_id me s\<rparr>"

definition grant_current_capability ::
    "nat \<Rightarrow> ObjectId \<Rightarrow> Rights \<Rightarrow> 'a thread_state_scheme \<Rightarrow> CapId \<times> 'a thread_state_scheme" where
  "grant_current_capability me object_id rights s =
     (case CURRENTS s me of
        None \<Rightarrow> (0, s)
      | Some t \<Rightarrow> (let (cap, table, s) = grant (cap_table t) object_id rights (as_current me s)
                   in (cap, update_current me (\<lambda>t. t\<lparr>cap_table := table\<rparr>) s)))"

definition resolve_current_capability ::
    "nat \<Rightarrow> CapId \<Rightarrow> Rights \<Rightarrow> 'a thread_state_scheme \<Rightarrow> (CapError + Capability) \<times> 'a thread_state_scheme" where
  "resolve_current_capability me cap_id required s =
     (case CURRENTS s me of
        None \<Rightarrow> (Inl NoSuchCapability, s)
      | Some t \<Rightarrow> resolve (cap_table t) cap_id required (as_current me s))"

definition current_has_file_capability ::
    "nat \<Rightarrow> u32 \<Rightarrow> Rights \<Rightarrow> 'a thread_state_scheme \<Rightarrow> bool \<times> 'a thread_state_scheme" where
  "current_has_file_capability me inode required s =
     (case CURRENTS s me of
        None \<Rightarrow> (False, s)
      | Some t \<Rightarrow> (let (r, s) = find_file_capability (cap_table t) inode required (as_current me s) in (r \<noteq> None, s)))"

definition current_has_any_file_capability ::
    "nat \<Rightarrow> Rights \<Rightarrow> 'a thread_state_scheme \<Rightarrow> bool \<times> 'a thread_state_scheme" where
  "current_has_any_file_capability me required s =
     (case CURRENTS s me of
        None \<Rightarrow> (False, s)
      | Some t \<Rightarrow> has_any_file_capability (cap_table t) required (as_current me s))"

definition resolve_file_capability ::
    "nat \<Rightarrow> CapId \<Rightarrow> Rights \<Rightarrow> 'a thread_state_scheme \<Rightarrow> u32 option \<times> 'a thread_state_scheme" where
  "resolve_file_capability me cap_id required s =
     (case resolve_current_capability me cap_id required s of
        (Inl _, s) \<Rightarrow> (None, s)
      | (Inr cap, s) \<Rightarrow>
          (case object_kind (cap_object_id cap) s of Some (FileObject inode) \<Rightarrow> (Some inode, s) | _ \<Rightarrow> (None, s)))"

subsection \<open>Spawning\<close>

definition zero_stack :: "u64 \<Rightarrow> (u64 \<Rightarrow> u64) \<Rightarrow> u64 \<Rightarrow> u64" where
  "zero_stack stack mem = (\<lambda>a. if a - stack < KERNEL_STACK_SIZE then 0 else mem a)"

text \<open>Pushing words, \<^verbatim>\<open>sp -= 8; *(sp as *mut u64) = w\<close> for each in turn.\<close>

definition push_words :: "u64 list \<Rightarrow> u64 \<times> (u64 \<Rightarrow> u64) \<Rightarrow> u64 \<times> (u64 \<Rightarrow> u64)" where
  "push_words ws = fold (\<lambda>w (sp, mem). (sp - 8, mem(sp - 8 := w))) ws"

definition write_callee :: "u64 \<Rightarrow> CalleeSaved \<Rightarrow> (u64 \<Rightarrow> u64) \<Rightarrow> u64 \<Rightarrow> u64" where
  "write_callee sp c mem =
     mem(sp := r15 c, sp + 8 := r14 c, sp + 16 := r13 c, sp + 24 := r12 c, sp + 32 := rbx c, sp + 40 := rbp c)"

definition CalleeSaved_default :: CalleeSaved where
  "CalleeSaved_default = \<lparr>r15 = 0, r14 = 0, r13 = 0, r12 = 0, rbx = 0, rbp = 0\<rparr>"

definition push_thread :: "nat \<Rightarrow> Thread \<Rightarrow> 'a thread_state_scheme \<Rightarrow> 'a thread_state_scheme" where
  "push_thread cpu t s =
     s\<lparr>RUN_QUEUES := (RUN_QUEUES s)(cpu := Some ((case RUN_QUEUES s cpu of None \<Rightarrow> [] | Some q \<Rightarrow> q) @ [t]))\<rparr>"

text \<open>
  The three spawn functions build the same thread; they differ in the words below the stack top and in
  the queue. \<open>stack\<close> is the address of the fresh stack.
\<close>

definition make_thread ::
    "nat \<Rightarrow> u64 list \<Rightarrow> u64 \<Rightarrow> u64 \<Rightarrow> 'a thread_state_scheme \<Rightarrow> u64 \<times> 'a thread_state_scheme" where
  "make_thread cpu ws space stack s =
     (let tid = NEXT_TID s;
          s = s\<lparr>NEXT_TID := NEXT_TID s + 1\<rparr>;
          (sp, mem) = push_words ws (stack + KERNEL_STACK_SIZE, zero_stack stack (KMEM s));
          sp = sp - 48;
          s = s\<lparr>KMEM := write_callee sp CalleeSaved_default mem\<rparr>;
          thread = \<lparr>th_id = tid, th_state = Ready, saved_rsp = sp, stack_ptr = stack, stack_len = KERNEL_STACK_SIZE,
                    address_space = space, cap_table = CapabilityTable_new, iopb = replicate IOPB_BYTES 0xFF\<rparr>
      in (tid, push_thread cpu thread s))"

definition spawn_in_locked ::
    "nat \<Rightarrow> u64 \<Rightarrow> u64 \<Rightarrow> u64 \<Rightarrow> 'a thread_state_scheme \<Rightarrow> u64 \<times> 'a thread_state_scheme" where
  "spawn_in_locked me entry space stack s = make_thread me [entry, thread_trampoline s] space stack s"

definition spawn_user ::
    "nat \<Rightarrow> u64 \<Rightarrow> u64 \<Rightarrow> u64 \<Rightarrow> u64 \<Rightarrow> 'a thread_state_scheme \<Rightarrow> u64 \<times> 'a thread_state_scheme" where
  "spawn_user me entry_rip user_rsp space stack s =
     make_thread me [user_rsp, entry_rip, user_process_trampoline s] space stack s"

definition spawn_pinned_to_cpu ::
    "u64 \<Rightarrow> u64 \<Rightarrow> nat \<Rightarrow> u64 \<Rightarrow> 'a thread_state_scheme \<Rightarrow> u64 \<times> 'a thread_state_scheme" where
  "spawn_pinned_to_cpu entry space target_cpu stack s =
     (let (tid, s) = make_thread target_cpu [entry, thread_trampoline s] space stack s
      in (tid, s\<lparr>RESCHEDULE_IPIS := RESCHEDULE_IPIS s @ [target_cpu]\<rparr>))"

definition grant_by_policy :: "ObjectId \<times> Rights \<Rightarrow> CapabilityTable \<times> 'a cap_state_scheme \<Rightarrow> CapabilityTable \<times> 'a cap_state_scheme" where
  "grant_by_policy = (\<lambda>(object_id, rights) (table, s).
     if allows rights then (let (_, table, s) = grant table object_id rights s in (table, s))
     else (table, audit_record (PolicyDenied rights) s))"

definition grant_by_manifest ::
    "Manifest \<Rightarrow> ObjectId \<times> Rights \<Rightarrow> CapabilityTable \<times> 'a cap_state_scheme \<Rightarrow> CapabilityTable \<times> 'a cap_state_scheme" where
  "grant_by_manifest manifest = (\<lambda>(object_id, rights) (table, s).
     case object_kind object_id s of
       None \<Rightarrow> (table, s)
     | Some k \<Rightarrow>
         if declares manifest (kind_of k) then (let (_, table, s) = grant table object_id rights s in (table, s))
         else (table, audit_record (ManifestDenied (of_nat (kind_code (kind_of k)))) s))"

text \<open>The grant loop works in place on the queued thread with the new id.\<close>

definition grant_queued ::
    "nat \<Rightarrow> u64 \<Rightarrow> (CapabilityTable \<times> 'a thread_state_scheme \<Rightarrow> CapabilityTable \<times> 'a thread_state_scheme) \<Rightarrow>
     'a thread_state_scheme \<Rightarrow> 'a thread_state_scheme" where
  "grant_queued me tid loop s =
     (case RUN_QUEUES s me of
        None \<Rightarrow> s
      | Some q \<Rightarrow>
          (case List.find (\<lambda>t. th_id t = tid) q of
             None \<Rightarrow> s
           | Some t \<Rightarrow>
               (let (table, s) = loop (cap_table t, as_current me s)
                in s\<lparr>RUN_QUEUES := (RUN_QUEUES s)(me :=
                       Some (update_first (\<lambda>t. th_id t = tid) (\<lambda>t. t\<lparr>cap_table := table\<rparr>) q))\<rparr>)))"

definition spawn_with_capabilities ::
    "nat \<Rightarrow> u64 \<Rightarrow> u64 \<Rightarrow> (ObjectId \<times> Rights) list \<Rightarrow> u64 \<Rightarrow> 'a thread_state_scheme \<Rightarrow> u64 \<times> 'a thread_state_scheme" where
  "spawn_with_capabilities me entry space grants stack s =
     (let (tid, s) = spawn_in_locked me entry space stack s
      in (tid, grant_queued me tid (fold grant_by_policy grants) s))"

definition spawn_with_manifest ::
    "nat \<Rightarrow> u64 \<Rightarrow> u64 \<Rightarrow> (ObjectId \<times> Rights) list \<Rightarrow> Manifest \<Rightarrow> u64 \<Rightarrow> 'a thread_state_scheme \<Rightarrow> u64 \<times> 'a thread_state_scheme" where
  "spawn_with_manifest me entry space grants manifest stack s =
     (let (tid, s) = spawn_in_locked me entry space stack s
      in (tid, grant_queued me tid (fold (grant_by_manifest manifest) grants) s))"

definition init_as_current_thread :: "nat \<Rightarrow> u64 \<Rightarrow> 'a thread_state_scheme \<Rightarrow> 'a thread_state_scheme" where
  "init_as_current_thread me stack s =
     (let tid = NEXT_TID s
      in s\<lparr>NEXT_TID := NEXT_TID s + 1,
           CURRENTS := (CURRENTS s)(me := Some \<lparr>th_id = tid, th_state = Running, saved_rsp = 0, stack_ptr = stack,
             stack_len = 0, address_space = kernel_pml4 s, cap_table = CapabilityTable_new,
             iopb = replicate IOPB_BYTES 0xFF\<rparr>)\<rparr>)"

subsection \<open>The scheduler\<close>

definition record_switch :: "u64 \<Rightarrow> u64 \<Rightarrow> u64 \<Rightarrow> 'a thread_state_scheme \<Rightarrow> 'a thread_state_scheme" where
  "record_switch old new tp s =
     (let slot = SWITCH_LOG_POS s mod SWITCH_LOG_LEN
      in s\<lparr>SWITCH_LOG_POS := SWITCH_LOG_POS s + 1, SWITCH_LOG := (SWITCH_LOG s)[slot := (old, new, tp)]\<rparr>)"

definition reap :: "nat \<Rightarrow> 'a thread_state_scheme \<Rightarrow> 'a thread_state_scheme" where
  "reap me s =
     (case ZOMBIES s me of
        None \<Rightarrow> s
      | Some z \<Rightarrow>
          (let s = s\<lparr>ZOMBIES := (ZOMBIES s)(me := None)\<rparr>;
               s = (if address_space z \<noteq> 0 \<and> address_space z \<noteq> kernel_pml4 s
                    then s\<lparr>DESTROYED := DESTROYED s @ [address_space z]\<rparr> else s)
           in s\<lparr>REAPED := REAPED s @ [z]\<rparr>))"

text \<open>The fullest other queue, the lowest core among equals; \<^verbatim>\<open>usize::MAX\<close> is \<open>None\<close>.\<close>

definition best_victim :: "nat \<Rightarrow> 'a thread_state_scheme \<Rightarrow> nat option" where
  "best_victim me s = fst (fold (\<lambda>cpu (best_cpu, best_len).
     if cpu = me then (best_cpu, best_len)
     else case RUN_QUEUES s cpu of
            None \<Rightarrow> (best_cpu, best_len)
          | Some q \<Rightarrow> if length q > best_len then (Some cpu, length q) else (best_cpu, best_len))
     [0..<MAX_CPUS] (None, 0))"

definition pick_next :: "nat \<Rightarrow> 'a thread_state_scheme \<Rightarrow> (Thread \<times> 'a thread_state_scheme) option" where
  "pick_next me s =
     (case RUN_QUEUES s me of
        Some (t # q) \<Rightarrow> Some (t, s\<lparr>RUN_QUEUES := (RUN_QUEUES s)(me := Some q)\<rparr>)
      | _ \<Rightarrow>
          (case best_victim me s of
             None \<Rightarrow> None
           | Some cpu \<Rightarrow>
               (case RUN_QUEUES s cpu of
                  None \<Rightarrow> None
                | Some q \<Rightarrow>
                    if q = [] then None
                    else Some (List.last q, s\<lparr>RUN_QUEUES := (RUN_QUEUES s)(cpu := Some (butlast q))\<rparr>))))"

text \<open>The outgoing thread leaves the core: to the zombie slot when it has exited, else to the back of the queue.\<close>

definition requeue :: "nat \<Rightarrow> Thread list \<Rightarrow> Thread \<Rightarrow> 'a thread_state_scheme \<Rightarrow> 'a thread_state_scheme" where
  "requeue me threads current s =
     (let s = s\<lparr>CURRENTS := (CURRENTS s)(me := None)\<rparr>;
          current = (if th_state current = Running then current\<lparr>th_state := Ready\<rparr> else current)
      in if th_state current = Exited
         then s\<lparr>ZOMBIES := (ZOMBIES s)(me := Some current)\<rparr>
         else s\<lparr>RUN_QUEUES := (RUN_QUEUES s)(me := Some (threads @ [current]))\<rparr>)"

definition install_next :: "nat \<Rightarrow> u64 \<Rightarrow> Thread \<Rightarrow> 'a thread_state_scheme \<Rightarrow> 'a thread_state_scheme" where
  "install_next me outgoing_id nxt s =
     (let nxt = nxt\<lparr>th_state := Running\<rparr>;
          s = record_switch outgoing_id (th_id nxt) (stack_top nxt) s;
          s = set_kernel_stack me (stack_top nxt) s;
          s = syscall_set_kernel_stack me (stack_top nxt) s;
          s = set_iopb me (iopb nxt) s
      in s\<lparr>CURRENTS := (CURRENTS s)(me := Some nxt)\<rparr>)"

text \<open>
  The part of \<^verbatim>\<open>schedule\<close> under the lock. The result is \<open>None\<close> where the code bails out, and otherwise
  the arguments of the context switch: the outgoing thread, whose \<^verbatim>\<open>saved_rsp\<close> field \<^verbatim>\<open>old_rsp_slot\<close>
  points to, and the new stack pointer and root table.
\<close>

definition schedule_locked :: "nat \<Rightarrow> 'a thread_state_scheme \<Rightarrow> (u64 \<times> u64 \<times> u64) option \<times> 'a thread_state_scheme" where
  "schedule_locked me s =
     (let s = reap me s
      in case RUN_QUEUES s me of
           None \<Rightarrow> (None, s)
         | Some threads \<Rightarrow>
             (case CURRENTS s me of
                None \<Rightarrow> (None, s)
              | Some current \<Rightarrow>
                  (let s = requeue me threads current s
                   in case pick_next me s of
                        None \<Rightarrow> (None, s)
                      | Some (nxt, s) \<Rightarrow>
                          (Some (th_id current, saved_rsp nxt, address_space nxt), install_next me (th_id current) nxt s))))"

definition set_saved_rsp :: "u64 \<Rightarrow> u64 \<Rightarrow> 'a thread_state_scheme \<Rightarrow> 'a thread_state_scheme" where
  "set_saved_rsp tid v s =
     (let f = (\<lambda>t. if th_id t = tid then t\<lparr>saved_rsp := v\<rparr> else t)
      in s\<lparr>RUN_QUEUES := (\<lambda>c. map_option (map f) (RUN_QUEUES s c)),
           CURRENTS := (\<lambda>c. map_option f (CURRENTS s c)),
           ZOMBIES := (\<lambda>c. map_option f (ZOMBIES s c))\<rparr>)"

definition read_callee :: "u64 \<Rightarrow> (u64 \<Rightarrow> u64) \<Rightarrow> CalleeSaved" where
  "read_callee sp mem =
     \<lparr>r15 = mem sp, r14 = mem (sp + 8), r13 = mem (sp + 16), r12 = mem (sp + 24), rbx = mem (sp + 32), rbp = mem (sp + 40)\<rparr>"

text \<open>
  The context switch: the call pushes the return address, the outgoing registers go to the outgoing
  stack, its stack pointer to the thread, then the incoming stack pointer, root table and registers are
  loaded and the routine returns on the incoming stack.
\<close>

definition switch_to :: "nat \<Rightarrow> u64 \<Rightarrow> u64 \<Rightarrow> u64 \<Rightarrow> 'a thread_state_scheme \<Rightarrow> 'a thread_state_scheme" where
  "switch_to me old_tid new_rsp new_cr3 s =
     (let c = CPUS s me;
          sp = reg_rsp c - 8;
          mem = (KMEM s)(sp := switch_return s);
          sp = sp - 48;
          mem = write_callee sp (reg_callee c) mem;
          s = set_saved_rsp old_tid sp (s\<lparr>KMEM := mem\<rparr>);
          c = \<lparr>reg_rsp = new_rsp + 56, reg_rip = KMEM s (new_rsp + 48), reg_cr3 = new_cr3,
               reg_callee = read_callee new_rsp (KMEM s)\<rparr>
      in s\<lparr>CPUS := (CPUS s)(me := c)\<rparr>)"

definition schedule :: "nat \<Rightarrow> 'a thread_state_scheme \<Rightarrow> 'a thread_state_scheme" where
  "schedule me s =
     (case schedule_locked me s of
        (None, s) \<Rightarrow> s
      | (Some (old_tid, new_rsp, new_cr3), s) \<Rightarrow> switch_to me old_tid new_rsp new_cr3 s)"

definition exit_current :: "nat \<Rightarrow> 'a thread_state_scheme \<Rightarrow> 'a thread_state_scheme" where
  "exit_current me s = update_current me (\<lambda>t. t\<lparr>th_state := Exited\<rparr>) s"

definition kill_current_and_reschedule :: "nat \<Rightarrow> 'a thread_state_scheme \<Rightarrow> 'a thread_state_scheme" where
  "kill_current_and_reschedule me s = schedule me (update_current me (\<lambda>t. t\<lparr>th_state := Exited\<rparr>) s)"

definition snapshot :: "'a thread_state_scheme \<Rightarrow> (u64 \<times> ThreadState \<times> bool) list" where
  "snapshot s = concat (map (\<lambda>cpu.
     (case CURRENTS s cpu of None \<Rightarrow> [] | Some t \<Rightarrow> [(th_id t, Running, address_space t \<noteq> kernel_pml4 s)]) @
     (case RUN_QUEUES s cpu of None \<Rightarrow> [] | Some q \<Rightarrow> map (\<lambda>t. (th_id t, th_state t, address_space t \<noteq> kernel_pml4 s)) q))
     [0..<MAX_CPUS])"

end
