(* ===== verification/Scheduler.thy ===== *)
theory Scheduler
  imports Threads
begin

text \<open>
  What the scheduler guarantees. Threads are counted over all cores, which gives that none is ever lost,
  duplicated or run on two cores; as long as no core's idle thread exits, no thread changes its core and
  every queued thread gets its turn in order. The steps are the operations of the thread module, on any core.
\<close>

subsection \<open>Events\<close>

datatype thread_event =
    InitCpu nat u64
  | Spawn nat u64 u64 u64
  | SpawnUser nat u64 u64 u64 u64
  | SpawnPinned u64 u64 nat u64
  | SpawnCaps nat u64 u64 "(ObjectId \<times> Rights) list" u64
  | SpawnManifest nat u64 u64 "(ObjectId \<times> Rights) list" Manifest u64
  | GrantCurrent nat ObjectId Rights
  | SetSpace nat u64
  | AllowPort nat u16
  | DenyPort nat u16
  | Tick nat
  | ExitThread nat
  | KillThread nat

primrec event_cpu :: "thread_event \<Rightarrow> nat" where
  "event_cpu (InitCpu me _) = me"
| "event_cpu (Spawn me _ _ _) = me"
| "event_cpu (SpawnUser me _ _ _ _) = me"
| "event_cpu (SpawnPinned _ _ me _) = me"
| "event_cpu (SpawnCaps me _ _ _ _) = me"
| "event_cpu (SpawnManifest me _ _ _ _ _) = me"
| "event_cpu (GrantCurrent me _ _) = me"
| "event_cpu (SetSpace me _) = me"
| "event_cpu (AllowPort me _) = me"
| "event_cpu (DenyPort me _) = me"
| "event_cpu (Tick me) = me"
| "event_cpu (ExitThread me) = me"
| "event_cpu (KillThread me) = me"

primrec thread_op :: "thread_event \<Rightarrow> 'a thread_state_scheme \<Rightarrow> 'a thread_state_scheme" where
  "thread_op (InitCpu me stack) s = (if CURRENTS s me = None then init_as_current_thread me stack s else s)"
| "thread_op (Spawn me entry space stack) s = snd (spawn_in_locked me entry space stack s)"
| "thread_op (SpawnUser me rip rsp space stack) s = snd (spawn_user me rip rsp space stack s)"
| "thread_op (SpawnPinned entry space cpu stack) s = snd (spawn_pinned_to_cpu entry space cpu stack s)"
| "thread_op (SpawnCaps me entry space grants stack) s = snd (spawn_with_capabilities me entry space grants stack s)"
| "thread_op (SpawnManifest me entry space grants m stack) s = snd (spawn_with_manifest me entry space grants m stack s)"
| "thread_op (GrantCurrent me ob r) s = snd (grant_current_capability me ob r s)"
| "thread_op (SetSpace me space) s = set_current_address_space me space s"
| "thread_op (AllowPort me p) s = allow_port_for_current me p s"
| "thread_op (DenyPort me p) s = deny_port_for_current me p s"
| "thread_op (Tick me) s = schedule me s"
| "thread_op (ExitThread me) s = exit_current me s"
| "thread_op (KillThread me) s = kill_current_and_reschedule me s"

text \<open>A core initialises itself once, before anything else runs on it; there are no cores beyond the limit.\<close>

definition run_thread_event :: "thread_event \<Rightarrow> 'a thread_state_scheme \<Rightarrow> 'a thread_state_scheme" where
  "run_thread_event e s = (if event_cpu e < MAX_CPUS then thread_op e s else s)"

subsection \<open>Counting threads\<close>

definition slot_ids :: "Thread option \<Rightarrow> u64 multiset" where
  "slot_ids x = (case x of None \<Rightarrow> {#} | Some t \<Rightarrow> {#th_id t#})"

definition queue_ids :: "Thread list option \<Rightarrow> u64 multiset" where
  "queue_ids x = (case x of None \<Rightarrow> {#} | Some q \<Rightarrow> mset (map th_id q))"

definition all_ids :: "'a thread_state_scheme \<Rightarrow> u64 multiset" where
  "all_ids s = (\<Sum>c<MAX_CPUS. slot_ids (CURRENTS s c)) + (\<Sum>c<MAX_CPUS. queue_ids (RUN_QUEUES s c)) +
     (\<Sum>c<MAX_CPUS. slot_ids (ZOMBIES s c))"

definition reaped_ids :: "'a thread_state_scheme \<Rightarrow> u64 multiset" where
  "reaped_ids s = mset (map th_id (REAPED s))"

lemma slot_ids_simps [simp]: "slot_ids None = {#}" "slot_ids (Some t) = {#th_id t#}"
  by (simp_all add: slot_ids_def)

lemma queue_ids_simps [simp]: "queue_ids None = {#}" "queue_ids (Some q) = mset (map th_id q)"
  by (simp_all add: queue_ids_def)

lemma sum_update:
  fixes F :: "'b \<Rightarrow> 'c multiset" and n :: nat
  assumes "me < n"
  shows "(\<Sum>c<n. F ((f(me := x)) c)) + F (f me) = (\<Sum>c<n. F (f c)) + F x"
proof -
  have "(\<Sum>c<n. F ((f(me := x)) c)) = F x + (\<Sum>c \<in> {..<n} - {me}. F (f c))"
    using assms by (subst sum.remove [of _ me]) (auto intro: sum.cong)
  moreover have "(\<Sum>c<n. F (f c)) = F (f me) + (\<Sum>c \<in> {..<n} - {me}. F (f c))"
    using assms by (subst sum.remove [of _ me]) auto
  ultimately show ?thesis by (simp add: ac_simps)
qed

lemma all_ids_current:
  "me < MAX_CPUS \<Longrightarrow> all_ids (s\<lparr>CURRENTS := (CURRENTS s)(me := x)\<rparr>) + slot_ids (CURRENTS s me) = all_ids s + slot_ids x"
  using sum_update [of me MAX_CPUS slot_ids "CURRENTS s" x] by (simp add: all_ids_def ac_simps)

lemma all_ids_queue:
  "me < MAX_CPUS \<Longrightarrow> all_ids (s\<lparr>RUN_QUEUES := (RUN_QUEUES s)(me := x)\<rparr>) + queue_ids (RUN_QUEUES s me) = all_ids s + queue_ids x"
  using sum_update [of me MAX_CPUS queue_ids "RUN_QUEUES s" x] by (simp add: all_ids_def ac_simps)

lemma all_ids_zombie:
  "me < MAX_CPUS \<Longrightarrow> all_ids (s\<lparr>ZOMBIES := (ZOMBIES s)(me := x)\<rparr>) + slot_ids (ZOMBIES s me) = all_ids s + slot_ids x"
  using sum_update [of me MAX_CPUS slot_ids "ZOMBIES s" x] by (simp add: all_ids_def ac_simps)

lemma all_ids_cong:
  assumes "\<And>c. slot_ids (CURRENTS s' c) = slot_ids (CURRENTS s c)" "\<And>c. queue_ids (RUN_QUEUES s' c) = queue_ids (RUN_QUEUES s c)"
    "\<And>c. slot_ids (ZOMBIES s' c) = slot_ids (ZOMBIES s c)"
  shows "all_ids s' = all_ids s"
  using assms by (simp add: all_ids_def)

lemma all_ids_same:
  "CURRENTS s' = CURRENTS s \<Longrightarrow> RUN_QUEUES s' = RUN_QUEUES s \<Longrightarrow> ZOMBIES s' = ZOMBIES s \<Longrightarrow> all_ids s' = all_ids s"
  by (simp add: all_ids_def)

text \<open>What each building block does to the counts.\<close>

lemma ids_push_thread: "cpu < MAX_CPUS \<Longrightarrow> all_ids (push_thread cpu t s) = add_mset (th_id t) (all_ids s)"
proof -
  assume cpu: "cpu < MAX_CPUS"
  have q: "queue_ids (Some ((case RUN_QUEUES s cpu of None \<Rightarrow> [] | Some q \<Rightarrow> q) @ [t])) = queue_ids (RUN_QUEUES s cpu) + {#th_id t#}"
    by (simp split: option.split)
  have "all_ids (push_thread cpu t s) + queue_ids (RUN_QUEUES s cpu) = add_mset (th_id t) (all_ids s) + queue_ids (RUN_QUEUES s cpu)"
    unfolding push_thread_def all_ids_queue [OF cpu] q by simp
  then show ?thesis by (simp only: add_right_cancel)
qed

lemma ids_update_current:
  assumes "\<And>t. th_id (f t) = th_id t"
  shows "all_ids (update_current me f s) = all_ids s"
  by (rule all_ids_cong) (auto simp: update_current_def assms slot_ids_def split: option.splits)

lemma update_first_ids: "(\<And>t. th_id (f t) = th_id t) \<Longrightarrow> map th_id (update_first P f q) = map th_id q"
  by (induction q) auto

lemma fields_of_more:
  assumes "cap_state.more s' = cap_state.more s"
  shows "NEXT_TID s' = NEXT_TID s" "RUN_QUEUES s' = RUN_QUEUES s" "CURRENTS s' = CURRENTS s" "ZOMBIES s' = ZOMBIES s" "REAPED s' = REAPED s"
  using assms by (cases s; cases s'; simp)+

lemma grant_loops_frame:
  "cap_state.more (snd (grant_by_policy g (t, s))) = cap_state.more s"
  "cap_state.more (snd (grant_by_manifest m g (t, s))) = cap_state.more s"
  by (auto simp: grant_by_policy_def grant_by_manifest_def grant_def Let_def split: prod.split option.split)

lemma fold_frame:
  assumes "\<And>g t s. F (snd (f g (t, s))) = F s"
  shows "F (snd (fold f gs (t, s))) = F s"
proof (induction gs arbitrary: t s)
  case (Cons g gs)
  show ?case using Cons [of "fst (f g (t, s))" "snd (f g (t, s))"] assms by simp
qed simp

lemma grant_folds_frame:
  "cap_state.more (snd (fold grant_by_policy gs (t, s))) = cap_state.more s"
  "cap_state.more (snd (fold (grant_by_manifest m) gs (t, s))) = cap_state.more s"
  by (rule fold_frame, rule grant_loops_frame)+

definition cur_ok :: "Thread option \<Rightarrow> bool" where
  "cur_ok x = (case x of None \<Rightarrow> True | Some t \<Rightarrow> th_state t \<noteq> Ready)"

definition queue_ok :: "Thread list option \<Rightarrow> bool" where
  "queue_ok x = (case x of None \<Rightarrow> True | Some q \<Rightarrow> list_all (\<lambda>t. th_state t = Ready) q)"

definition zombie_ok :: "Thread option \<Rightarrow> bool" where
  "zombie_ok x = (case x of None \<Rightarrow> True | Some t \<Rightarrow> th_state t = Exited)"

lemma ok_simps [simp]:
  "cur_ok None" "cur_ok (Some t) \<longleftrightarrow> th_state t \<noteq> Ready" "queue_ok None"
  "queue_ok (Some q) \<longleftrightarrow> list_all (\<lambda>t. th_state t = Ready) q" "zombie_ok None" "zombie_ok (Some t) \<longleftrightarrow> th_state t = Exited"
  by (simp_all add: cur_ok_def queue_ok_def zombie_ok_def)

definition thread_wf :: "'a thread_state_scheme \<Rightarrow> bool" where
  "thread_wf s \<longleftrightarrow> (\<forall>c. cur_ok (CURRENTS s c)) \<and> (\<forall>c. queue_ok (RUN_QUEUES s c)) \<and> (\<forall>c. zombie_ok (ZOMBIES s c))"

text \<open>\<open>adds n s s'\<close>: threads \<open>NEXT_TID\<close> onwards, \<open>n\<close> of them, were added and none was lost.\<close>

definition adds :: "nat \<Rightarrow> 'a thread_state_scheme \<Rightarrow> 'a thread_state_scheme \<Rightarrow> bool" where
  "adds n s s' \<longleftrightarrow> all_ids s' + reaped_ids s' = all_ids s + reaped_ids s + mset (map (\<lambda>i. NEXT_TID s + of_nat i) [0..<n]) \<and>
     NEXT_TID s' = NEXT_TID s + of_nat n \<and> (thread_wf s \<longrightarrow> thread_wf s')"

lemma adds_refl: "adds 0 s s"
  by (simp add: adds_def)

lemma adds_trans: "adds m s s' \<Longrightarrow> adds 0 s' s'' \<Longrightarrow> adds m s s''"
  by (simp add: adds_def)

lemma adds_0I:
  assumes "all_ids s' + reaped_ids s' = all_ids s + reaped_ids s" "NEXT_TID s' = NEXT_TID s" "thread_wf s \<Longrightarrow> thread_wf s'"
  shows "adds 0 s s'"
  using assms by (simp add: adds_def)

lemma make_thread_push:
  obtains sp mem where "snd (make_thread cpu ws space stack s) = push_thread cpu
    \<lparr>th_id = NEXT_TID s, th_state = Ready, saved_rsp = sp, stack_ptr = stack, stack_len = KERNEL_STACK_SIZE,
     address_space = space, cap_table = CapabilityTable_new, iopb = replicate IOPB_BYTES 0xFF\<rparr>
    (s\<lparr>NEXT_TID := NEXT_TID s + 1, KMEM := mem\<rparr>)"
  unfolding make_thread_def Let_def split_beta snd_conv by blast

lemma adds_make_thread:
  assumes "cpu < MAX_CPUS"
  shows "adds (Suc 0) s (snd (make_thread cpu ws space stack s))"
proof (rule make_thread_push [of cpu ws space stack s])
  fix sp mem
  let ?t = "\<lparr>th_id = NEXT_TID s, th_state = Ready, saved_rsp = sp, stack_ptr = stack, stack_len = KERNEL_STACK_SIZE,
     address_space = space, cap_table = CapabilityTable_new, iopb = replicate IOPB_BYTES 0xFF\<rparr>"
  let ?u = "s\<lparr>NEXT_TID := NEXT_TID s + 1, KMEM := mem\<rparr>"
  assume m: "snd (make_thread cpu ws space stack s) = push_thread cpu ?t ?u"
  have "all_ids ?u = all_ids s" by (rule all_ids_same) simp_all
  then have "all_ids (push_thread cpu ?t ?u) = add_mset (NEXT_TID s) (all_ids s)" by (simp add: ids_push_thread [OF assms])
  moreover have "thread_wf s \<Longrightarrow> thread_wf (push_thread cpu ?t ?u)"
    by (cases "RUN_QUEUES s cpu") (auto simp: thread_wf_def push_thread_def dest: spec [of _ cpu])
  moreover have "REAPED (push_thread cpu ?t ?u) = REAPED s" "NEXT_TID (push_thread cpu ?t ?u) = NEXT_TID s + 1"
    by (simp_all add: push_thread_def)
  ultimately show ?thesis by (simp add: adds_def m reaped_ids_def)
qed

lemma adds_update_current:
  assumes "\<And>t. th_id (f t) = th_id t" "\<And>t. th_state t \<noteq> Ready \<Longrightarrow> th_state (f t) \<noteq> Ready"
  shows "adds 0 s (update_current me f s)"
proof (rule adds_0I)
  show "all_ids (update_current me f s) + reaped_ids (update_current me f s) = all_ids s + reaped_ids s"
    using assms(1) by (simp add: ids_update_current) (simp add: reaped_ids_def update_current_def)
  show "thread_wf s \<Longrightarrow> thread_wf (update_current me f s)"
    using assms(2) by (cases "CURRENTS s me") (auto simp: thread_wf_def update_current_def dest: spec [of _ me])
qed (simp add: update_current_def)

lemma adds_fields:
  assumes "CURRENTS s' = CURRENTS s" "RUN_QUEUES s' = RUN_QUEUES s" "ZOMBIES s' = ZOMBIES s" "REAPED s' = REAPED s" "NEXT_TID s' = NEXT_TID s"
  shows "adds 0 s s'"
proof (rule adds_0I)
  show "all_ids s' + reaped_ids s' = all_ids s + reaped_ids s"
    using all_ids_same [OF assms(1-3)] assms(4) by (simp add: reaped_ids_def)
qed (use assms in \<open>simp_all add: thread_wf_def\<close>)

lemma adds_grant_queued:
  assumes "cap_state.more (snd (loop (cap_table (the (List.find (\<lambda>t. th_id t = tid) (the (RUN_QUEUES s me)))), as_current me s))) =
    cap_state.more (as_current me s)"
  shows "adds 0 s (grant_queued me tid loop s)"
proof (cases "RUN_QUEUES s me")
  case None
  then show ?thesis by (simp add: grant_queued_def adds_refl)
next
  case (Some q)
  show ?thesis
  proof (cases "List.find (\<lambda>t. th_id t = tid) q")
    case None
    with Some show ?thesis by (simp add: grant_queued_def adds_refl)
  next
    case t: (Some t)
    let ?u = "snd (loop (cap_table t, as_current me s))"
    let ?q = "update_first (\<lambda>t. th_id t = tid) (\<lambda>t'. t'\<lparr>cap_table := fst (loop (cap_table t, as_current me s))\<rparr>) q"
    have g: "grant_queued me tid loop s = ?u\<lparr>RUN_QUEUES := (RUN_QUEUES ?u)(me := Some ?q)\<rparr>"
      using Some t by (simp add: grant_queued_def Let_def split_beta)
    have u: "NEXT_TID ?u = NEXT_TID s" "RUN_QUEUES ?u = RUN_QUEUES s" "CURRENTS ?u = CURRENTS s" "ZOMBIES ?u = ZOMBIES s" "REAPED ?u = REAPED s"
      using fields_of_more [OF assms] Some t by (simp_all add: as_current_def)
    have ids: "map th_id ?q = map th_id q" by (rule update_first_ids) simp
    have ready: "list_all (\<lambda>t. th_state t = Ready) ?q" if "list_all (\<lambda>t. th_state t = Ready) q"
      using that by (induction q) auto
    show ?thesis
    proof (rule adds_0I)
      have "all_ids (grant_queued me tid loop s) = all_ids s"
        unfolding g by (rule all_ids_cong) (simp_all add: u Some ids flip: mset_map)
      then show "all_ids (grant_queued me tid loop s) + reaped_ids (grant_queued me tid loop s) = all_ids s + reaped_ids s"
        by (simp add: g reaped_ids_def u)
      show "thread_wf (grant_queued me tid loop s)" if "thread_wf s"
        using that ready spec [of "\<lambda>c. queue_ok (RUN_QUEUES s c)" me] unfolding thread_wf_def g by (simp add: u Some)
    qed (simp add: g u)
  qed
qed

lemma adds_reap:
  assumes "me < MAX_CPUS"
  shows "adds 0 s (reap me s)" "ZOMBIES (reap me s) me = None" "CURRENTS (reap me s) = CURRENTS s" "RUN_QUEUES (reap me s) = RUN_QUEUES s"
proof -
  show "ZOMBIES (reap me s) me = None" "CURRENTS (reap me s) = CURRENTS s" "RUN_QUEUES (reap me s) = RUN_QUEUES s"
    by (simp_all add: reap_def Let_def split: option.split)
  show "adds 0 s (reap me s)"
  proof (cases "ZOMBIES s me")
    case None
    then show ?thesis by (simp add: reap_def adds_refl)
  next
    case (Some z)
    let ?u = "s\<lparr>ZOMBIES := (ZOMBIES s)(me := None)\<rparr>"
    have f: "CURRENTS (reap me s) = CURRENTS ?u" "RUN_QUEUES (reap me s) = RUN_QUEUES ?u" "ZOMBIES (reap me s) = ZOMBIES ?u"
      "REAPED (reap me s) = REAPED s @ [z]" "NEXT_TID (reap me s) = NEXT_TID s"
      using Some by (simp_all add: reap_def Let_def)
    have "all_ids ?u + {#th_id z#} = all_ids s" using all_ids_zombie [OF assms, of s None] Some by simp
    then show ?thesis
      using all_ids_same [OF f(1-3)] by (intro adds_0I) (auto simp: f reaped_ids_def thread_wf_def)
  qed
qed

lemma best_victim_less:
  assumes "best_victim me s = Some c"
  shows "c < MAX_CPUS"
proof -
  let ?f = "\<lambda>cpu (best_cpu, best_len). if cpu = me then (best_cpu, best_len) else case RUN_QUEUES s cpu of None \<Rightarrow> (best_cpu, best_len)
     | Some q \<Rightarrow> if length q > best_len then (Some cpu, length q) else (best_cpu, best_len)"
  have "fst (fold ?f xs p) = Some c \<Longrightarrow> c \<in> set xs \<or> fst p = Some c" for xs p
  proof (induction xs arbitrary: p)
    case (Cons x xs)
    from Cons.IH [of "?f x p"] Cons.prems show ?case by (cases p) (auto split: if_splits option.splits)
  qed simp
  from this [of "[0..<MAX_CPUS]" "(None, 0)"] assms show ?thesis
    unfolding best_victim_def set_upt by simp
qed

lemma pick_next_ids:
  assumes "pick_next me s = Some (t, s')" "me < MAX_CPUS"
  shows "all_ids s' + {#th_id t#} = all_ids s" "CURRENTS s' = CURRENTS s" "ZOMBIES s' = ZOMBIES s" "REAPED s' = REAPED s"
    "NEXT_TID s' = NEXT_TID s" "thread_wf s \<Longrightarrow> thread_wf s'"
proof -
  obtain c q q' where c: "c < MAX_CPUS" "RUN_QUEUES s c = Some q" "s' = s\<lparr>RUN_QUEUES := (RUN_QUEUES s)(c := Some q')\<rparr>"
    and q: "mset q = add_mset t (mset q')" "set q' \<subseteq> set q"
  proof (cases "\<exists>t q. RUN_QUEUES s me = Some (t # q)")
    case True
    then obtain q where "RUN_QUEUES s me = Some (t # q)" "s' = s\<lparr>RUN_QUEUES := (RUN_QUEUES s)(me := Some q)\<rparr>"
      using assms(1) by (auto simp: pick_next_def)
    then show ?thesis using assms(2) by (intro that [of me "t # q" q]) auto
  next
    case False
    then obtain c q where "best_victim me s = Some c" "RUN_QUEUES s c = Some q" "q \<noteq> []" "t = List.last q"
      "s' = s\<lparr>RUN_QUEUES := (RUN_QUEUES s)(c := Some (butlast q))\<rparr>"
      using assms(1) by (auto simp: pick_next_def split: option.splits list.splits if_splits)
    moreover have "mset q = add_mset (List.last q) (mset (butlast q))" if "q \<noteq> []" for q :: "Thread list"
      using arg_cong [OF append_butlast_last_id [OF that], of mset] by simp
    ultimately show ?thesis
      using that [of c q "butlast q"] best_victim_less by (auto dest: in_set_butlastD)
  qed
  have "all_ids s' + mset (map th_id q) = all_ids s + mset (map th_id q')"
    using all_ids_queue [OF c(1), of s "Some q'"] by (simp add: c(2,3))
  moreover have "mset (map th_id q) = add_mset (th_id t) (mset (map th_id q'))" using q(1) by simp
  ultimately have "(all_ids s' + {#th_id t#}) + mset (map th_id q') = all_ids s + mset (map th_id q')" by simp
  then show "all_ids s' + {#th_id t#} = all_ids s" by (simp only: add_right_cancel)
  show "thread_wf s'" if "thread_wf s"
    using that q(2) c(2) spec [of "\<lambda>c. queue_ok (RUN_QUEUES s c)" c] by (auto simp: thread_wf_def c(3) list_all_iff)
  show "CURRENTS s' = CURRENTS s" "ZOMBIES s' = ZOMBIES s" "REAPED s' = REAPED s" "NEXT_TID s' = NEXT_TID s"
    by (simp_all add: c(3))
qed

lemma adds_requeue:
  assumes "me < MAX_CPUS" "CURRENTS s me = Some t" "RUN_QUEUES s me = Some q" "ZOMBIES s me = None"
  shows "adds 0 s (requeue me q t s)" "CURRENTS (requeue me q t s) me = None"
proof -
  let ?u = "s\<lparr>CURRENTS := (CURRENTS s)(me := None)\<rparr>"
  have u: "all_ids ?u + {#th_id t#} = all_ids s" using all_ids_current [OF assms(1), of s None] assms(2) by simp
  let ?t = "if th_state t = Running then t\<lparr>th_state := Ready\<rparr> else t"
  have t: "th_id ?t = th_id t" by simp
  have "all_ids (requeue me q t s) = all_ids s \<and> (thread_wf s \<longrightarrow> thread_wf (requeue me q t s))"
  proof (cases "th_state t = Exited")
    case True
    then have r: "requeue me q t s = ?u\<lparr>ZOMBIES := (ZOMBIES ?u)(me := Some t)\<rparr>" by (simp add: requeue_def)
    show ?thesis
      using all_ids_zombie [OF assms(1), of ?u "Some t"] u assms(4) True unfolding r by (auto simp: thread_wf_def)
  next
    case False
    then have r: "requeue me q t s = ?u\<lparr>RUN_QUEUES := (RUN_QUEUES ?u)(me := Some (q @ [?t]))\<rparr>"
      by (auto simp: requeue_def)
    have ids: "all_ids (requeue me q t s) + mset (map th_id q) = all_ids s + mset (map th_id q)"
      using all_ids_queue [OF assms(1), of ?u "Some (q @ [?t])"] u assms(3) unfolding r by (simp add: t)
    moreover have "th_state ?t = Ready" if "thread_wf s"
      using that False assms(2) spec [of "\<lambda>c. cur_ok (CURRENTS s c)" me] by (cases "th_state t") (auto simp: thread_wf_def)
    ultimately show ?thesis
      using spec [of "\<lambda>c. queue_ok (RUN_QUEUES s c)" me] assms(3) by (auto simp: thread_wf_def r)
  qed
  then show "adds 0 s (requeue me q t s)" by (intro adds_0I) (auto simp: requeue_def Let_def reaped_ids_def)
  show "CURRENTS (requeue me q t s) me = None" by (simp add: requeue_def Let_def)
qed

lemma Tss_update: "(x :: Tss)\<lparr>rsp0 := a, tss_iopb := b\<rparr> = \<lparr>rsp0 = a, tss_iopb = b\<rparr>"
  by (cases x) simp

lemma install_next_fields:
  "CURRENTS (install_next me old t s) = (CURRENTS s)(me := Some (t\<lparr>th_state := Running\<rparr>))"
  "RUN_QUEUES (install_next me old t s) = RUN_QUEUES s" "ZOMBIES (install_next me old t s) = ZOMBIES s"
  "REAPED (install_next me old t s) = REAPED s" "NEXT_TID (install_next me old t s) = NEXT_TID s"
  "TSSES (install_next me old t s) = (TSSES s)(me := \<lparr>rsp0 = stack_top t, tss_iopb = iopb t\<rparr>)"
  "SYSCALL_RSP (install_next me old t s) = (SYSCALL_RSP s)(me := stack_top t)"
  "CPUS (install_next me old t s) = CPUS s" "KMEM (install_next me old t s) = KMEM s"
  by (simp_all add: install_next_def Let_def record_switch_def set_kernel_stack_def syscall_set_kernel_stack_def set_iopb_def stack_top_def Tss_update)

lemma adds_schedule_locked:
  assumes "me < MAX_CPUS"
  shows "adds 0 s (snd (schedule_locked me s))"
proof -
  let ?u = "reap me s"
  note u = adds_reap [OF assms, of s]
  show ?thesis
  proof (cases "RUN_QUEUES ?u me = None \<or> CURRENTS ?u me = None")
    case True
    then show ?thesis using u(1) by (auto simp: schedule_locked_def Let_def split: option.split)
  next
    case False
    then obtain q t where q: "RUN_QUEUES ?u me = Some q" "CURRENTS ?u me = Some t" by auto
    let ?v = "requeue me q t ?u"
    note v = adds_requeue [OF assms q(2,1) u(2)]
    show ?thesis
    proof (cases "pick_next me ?v")
      case None
      then show ?thesis using u(1) v(1) q by (simp add: schedule_locked_def Let_def adds_trans)
    next
      case (Some p)
      obtain n w where p: "p = (n, w)" by (cases p)
      note w = pick_next_ids [OF Some [unfolded p] assms]
      let ?x = "install_next me (th_id t) n w"
      have "all_ids ?x = all_ids (w\<lparr>CURRENTS := (CURRENTS w)(me := Some (n\<lparr>th_state := Running\<rparr>))\<rparr>)"
        by (rule all_ids_same) (simp_all add: install_next_fields)
      also have "\<dots> = all_ids ?v"
        using all_ids_current [OF assms, of w "Some (n\<lparr>th_state := Running\<rparr>)"] v(2) w(1,2) by simp
      finally have "adds 0 ?v ?x"
        using w by (intro adds_0I) (auto simp: install_next_fields reaped_ids_def thread_wf_def)
      then show ?thesis using u(1) v(1) q Some p by (simp add: schedule_locked_def Let_def) (blast intro: adds_trans)
    qed
  qed
qed

lemma adds_switch_to: "adds 0 s (switch_to me old rsp cr3 s)"
proof (rule adds_0I)
  have "all_ids (switch_to me old rsp cr3 s) = all_ids s"
    by (rule all_ids_cong) (auto simp: switch_to_def set_saved_rsp_def Let_def slot_ids_def queue_ids_def comp_def image_mset.compositionality
        split: option.split intro!: image_mset_cong)
  then show "all_ids (switch_to me old rsp cr3 s) + reaped_ids (switch_to me old rsp cr3 s) = all_ids s + reaped_ids s"
    by (simp add: reaped_ids_def switch_to_def set_saved_rsp_def Let_def)
  show "thread_wf (switch_to me old rsp cr3 s)" if "thread_wf s"
    using that by (auto simp: thread_wf_def switch_to_def set_saved_rsp_def Let_def cur_ok_def queue_ok_def zombie_ok_def list_all_iff
        split: option.splits)
qed (simp add: switch_to_def set_saved_rsp_def Let_def)

lemma adds_schedule: "me < MAX_CPUS \<Longrightarrow> adds 0 s (schedule me s)"
  using adds_schedule_locked [of me s] adds_trans [OF _ adds_switch_to]
  by (auto simp: schedule_def split: prod.split option.split)

lemma adds_event: "\<exists>n < 2. adds n s (run_thread_event e s)"
proof (cases "event_cpu e < MAX_CPUS")
  case False
  then show ?thesis using adds_refl [of s] by (intro exI [of _ 0]) (simp add: run_thread_event_def)
next
  case me: True
  have loop: "adds (Suc 0) s (grant_queued me tid (fold f gs) (snd (make_thread me ws space stack s)))"
    if "me < MAX_CPUS" "\<And>g t s. cap_state.more (snd (f g (t, s))) = cap_state.more s"
    for me tid gs ws space stack and f :: "ObjectId \<times> Rights \<Rightarrow> CapabilityTable \<times> 'a thread_state_scheme \<Rightarrow> CapabilityTable \<times> 'a thread_state_scheme"
    by (rule adds_trans [OF adds_make_thread [OF that(1)] adds_grant_queued]) (rule fold_frame [where F = cap_state.more, OF that(2)])
  have upd: "adds 0 s (update_current me f u)"
    if "adds 0 s u" "\<And>t. th_id (f t) = th_id t" "\<And>t. th_state t \<noteq> Ready \<Longrightarrow> th_state (f t) \<noteq> Ready"
    for me f and u :: "'a thread_state_scheme"
    using adds_trans [OF that(1) adds_update_current [OF that(2,3)]] by blast
  have set_iopb: "adds 0 u (set_iopb me b u)" for me b and u :: "'a thread_state_scheme"
    by (rule adds_fields) (simp_all add: set_iopb_def)
  have one: "\<exists>n < 2. adds n s u" if "adds (Suc 0) s u" for u using that by (intro exI [of _ 1]) simp
  have zero: "\<exists>n < 2. adds n s u" if "adds 0 s u" for u using that by (intro exI [of _ 0]) simp
  note run = run_thread_event_def me
  show ?thesis
  proof (cases e)
    case (InitCpu c stack)
    show ?thesis
    proof (cases "CURRENTS s c")
      case None
      let ?u = "init_as_current_thread c stack s"
      have "all_ids ?u = add_mset (NEXT_TID s) (all_ids s)"
        using all_ids_current [of c s] all_ids_same [of ?u "s\<lparr>CURRENTS := CURRENTS ?u\<rparr>"] me None InitCpu
        by (simp add: init_as_current_thread_def Let_def)
      moreover have "thread_wf s \<longrightarrow> thread_wf ?u" by (auto simp: thread_wf_def init_as_current_thread_def Let_def)
      ultimately have "adds (Suc 0) s ?u" by (simp add: adds_def) (simp add: reaped_ids_def init_as_current_thread_def Let_def)
      then show ?thesis using me by (intro one) (simp add: run InitCpu None)
    qed (use me adds_refl in \<open>auto simp: run_thread_event_def InitCpu intro!: zero\<close>)
  next
    case (SpawnPinned entry space c stack)
    have "adds 0 u (u\<lparr>RESCHEDULE_IPIS := x\<rparr>)" for x and u :: "'a thread_state_scheme" by (rule adds_fields) simp_all
    from adds_trans [OF adds_make_thread this] me show ?thesis
      by (intro one) (simp add: run SpawnPinned spawn_pinned_to_cpu_def split_beta Let_def)
  next
    case (GrantCurrent c ob r)
    show ?thesis
    proof (cases "CURRENTS s c")
      case (Some t)
      let ?u = "snd (snd (grant (cap_table t) ob r (as_current c s)))"
      have "cap_state.more ?u = cap_state.more (as_current c s)" by (simp add: grant_def Let_def)
      note f = fields_of_more [OF this]
      have "adds 0 s ?u" by (rule adds_fields) (simp_all only: f, simp_all add: as_current_def)
      then show ?thesis
        using me by (intro zero) (auto simp: run_thread_event_def GrantCurrent grant_current_capability_def Some split_beta Let_def intro: upd)
    qed (use me adds_refl in \<open>auto simp: run_thread_event_def GrantCurrent grant_current_capability_def intro!: zero\<close>)
  next
    case (KillThread c)
    have "adds 0 s (update_current c (\<lambda>t. t\<lparr>th_state := Exited\<rparr>) s)" by (rule upd [OF adds_refl]) simp_all
    from adds_trans [OF this adds_schedule] me show ?thesis
      by (intro zero) (simp add: run_thread_event_def KillThread kill_current_and_reschedule_def)
  next
    case (Spawn c entry space stack)
    show ?thesis using me by (simp add: run_thread_event_def Spawn spawn_in_locked_def one adds_make_thread)
  next
    case (SpawnUser c rip rsp space stack)
    show ?thesis using me by (simp add: run_thread_event_def SpawnUser spawn_user_def one adds_make_thread)
  next
    case (SpawnCaps c entry space grants stack)
    show ?thesis using me
      by (simp add: run_thread_event_def SpawnCaps spawn_with_capabilities_def spawn_in_locked_def split_beta Let_def one loop grant_loops_frame)
  next
    case (SpawnManifest c entry space grants m stack)
    show ?thesis using me
      by (simp add: run_thread_event_def SpawnManifest spawn_with_manifest_def spawn_in_locked_def split_beta Let_def one loop grant_loops_frame)
  next
    case (SetSpace c space)
    show ?thesis using me by (simp add: run_thread_event_def SetSpace set_current_address_space_def zero upd adds_refl)
  next
    case (AllowPort c p)
    show ?thesis using me adds_trans [OF upd [OF adds_refl] set_iopb]
      by (auto simp: run_thread_event_def AllowPort allow_port_for_current_def Let_def zero adds_refl split: option.split)
  next
    case (DenyPort c p)
    show ?thesis using me adds_trans [OF upd [OF adds_refl] set_iopb]
      by (auto simp: run_thread_event_def DenyPort deny_port_for_current_def Let_def zero adds_refl split: option.split)
  next
    case (Tick c)
    show ?thesis using me by (simp add: run_thread_event_def Tick zero adds_schedule)
  next
    case (ExitThread c)
    show ?thesis using me by (simp add: run_thread_event_def ExitThread exit_current_def zero upd adds_refl)
  qed
qed

lemma adds_run: "\<exists>n \<le> length es. adds n s (fold run_thread_event es s)"
proof (induction es arbitrary: s)
  case Nil
  then show ?case by (simp add: adds_refl)
next
  case (Cons e es)
  obtain m where m: "m < 2" "adds m s (run_thread_event e s)" using adds_event [of s e] by blast
  obtain n where n: "n \<le> length es" "adds n (run_thread_event e s) (fold run_thread_event es (run_thread_event e s))"
    using Cons.IH by blast
  have "mset (map (\<lambda>i. NEXT_TID s + of_nat i) [0..<m]) + mset (map (\<lambda>i. NEXT_TID s + of_nat m + of_nat i) [0..<n]) =
      mset (map (\<lambda>i. NEXT_TID s + of_nat i) [0..<m + n])"
    using m(1) by (cases m) (simp_all add: upt_conv_Cons map_Suc_upt [symmetric] comp_def ac_simps del: upt_Suc)
  with m n have "adds (m + n) s (fold run_thread_event (e # es) s)"
    by (simp add: adds_def ac_simps)
  then show ?case using m(1) n(1) by (intro exI [of _ "m + n"]) simp
qed

lemma count_fresh_ids:
  assumes "k < 2 ^ 64 - 1"
  shows "count (mset (map (\<lambda>i. 1 + of_nat i) [0..<k])) (tid :: u64) = (if tid \<noteq> 0 \<and> tid < 1 + of_nat k then 1 else 0)"
proof -
  have n: "unat (1 + of_nat i :: u64) = Suc i" if "i \<le> k" for i
  proof -
    have "Suc i < 2 ^ 64" using that assms by simp
    then have "unat (of_nat (Suc i) :: u64) = Suc i" unfolding unat_of_nat by (simp add: take_bit_nat_eq_self)
    then show ?thesis by simp
  qed
  have "inj_on (\<lambda>i. 1 + of_nat i :: u64) {0..<k}" by (rule inj_onI) (metis n atLeastLessThan_iff less_imp_le_nat nat.inject)
  then have "distinct (map (\<lambda>i. 1 + of_nat i :: u64) [0..<k])" by (simp add: distinct_map)
  moreover have "tid \<in> (\<lambda>i. 1 + of_nat i) ` {0..<k} \<longleftrightarrow> tid \<noteq> 0 \<and> tid < 1 + of_nat k"
  proof
    assume "tid \<in> (\<lambda>i. 1 + of_nat i) ` {0..<k}"
    then obtain i where "i < k" "tid = 1 + of_nat i" by auto
    then show "tid \<noteq> 0 \<and> tid < 1 + of_nat k" using n [of i] n [of k] by (auto simp: word_less_nat_alt unat_eq_zero)
  next
    assume a: "tid \<noteq> 0 \<and> tid < 1 + of_nat k"
    then have "unat tid \<noteq> 0" "unat tid \<le> k" using n [of k] by (simp_all add: word_less_nat_alt unat_eq_zero)
    then obtain i where i: "unat tid = Suc i" "i < k" by (cases "unat tid") auto
    then have "tid = 1 + of_nat i" using n [of i] by (simp add: word_unat_eq_iff)
    with i show "tid \<in> (\<lambda>i. 1 + of_nat i) ` {0..<k}" by auto
  qed
  ultimately show ?thesis by (simp add: distinct_count_atmost_1)
qed

lemma current_once:
  assumes "\<And>x. count (all_ids s) x \<le> 1" "c \<noteq> d" "c < MAX_CPUS" "d < MAX_CPUS" "CURRENTS s c = Some t" "CURRENTS s d = Some u"
  shows "th_id t \<noteq> th_id u"
proof
  assume eq: "th_id t = th_id u"
  have "(\<Sum>i<MAX_CPUS. slot_ids (CURRENTS s i)) = {#th_id t#} + (\<Sum>i \<in> {..<MAX_CPUS} - {c}. slot_ids (CURRENTS s i))"
    using assms(3,5) by (subst sum.remove [of _ c]) auto
  also have "(\<Sum>i \<in> {..<MAX_CPUS} - {c}. slot_ids (CURRENTS s i)) = {#th_id u#} + (\<Sum>i \<in> {..<MAX_CPUS} - {c} - {d}. slot_ids (CURRENTS s i))"
    using assms(2,4,6) by (subst sum.remove [of _ d]) auto
  finally have "2 \<le> count (all_ids s) (th_id t)" by (simp add: all_ids_def eq)
  with assms(1) [of "th_id t"] show False by simp
qed

definition fresh_threads :: "'a thread_state_scheme \<Rightarrow> bool" where
  "fresh_threads s \<longleftrightarrow> NEXT_TID s = 1 \<and> REAPED s = [] \<and> CURRENTS s = (\<lambda>_. None) \<and> RUN_QUEUES s = (\<lambda>_. None) \<and> ZOMBIES s = (\<lambda>_. None)"

text \<open>
  C24. No thread is lost, duplicated or run twice: after any sequence of spawns, ticks, exits, kills and changes of
  the current thread, on any cores, every identifier handed out so far belongs to exactly one thread that is
  current, queued, a zombie or already reaped; queued threads are ready, zombies have exited, a current thread is
  running or exiting, and no two cores have the same current thread.
\<close>

theorem threads_conserved:
  assumes "fresh_threads s" "length es < 2 ^ 64 - 1"
  defines "s' \<equiv> fold run_thread_event es s"
  shows "(\<forall>tid. count (all_ids s') tid + count (reaped_ids s') tid = (if tid \<noteq> 0 \<and> tid < NEXT_TID s' then 1 else 0)) \<and>
    thread_wf s' \<and>
    (\<forall>c d t u. c \<noteq> d \<and> c < MAX_CPUS \<and> d < MAX_CPUS \<and> CURRENTS s' c = Some t \<and> CURRENTS s' d = Some u \<longrightarrow> th_id t \<noteq> th_id u)"
proof -
  obtain n where n: "n \<le> length es" "adds n s s'" unfolding s'_def using adds_run by blast
  have z: "all_ids s = {#}" "reaped_ids s = {#}" "thread_wf s" "NEXT_TID s = 1"
    using assms(1) by (simp_all add: fresh_threads_def all_ids_def reaped_ids_def thread_wf_def)
  have "all_ids s' + reaped_ids s' = mset (map (\<lambda>i. 1 + of_nat i) [0..<n])" "NEXT_TID s' = 1 + of_nat n" "thread_wf s'"
    using n(2) z by (simp_all add: adds_def)
  then have c: "count (all_ids s') tid + count (reaped_ids s') tid = (if tid \<noteq> 0 \<and> tid < NEXT_TID s' then 1 else 0)" for tid
    using count_fresh_ids [of n tid] n(1) assms(2) by (simp flip: count_union)
  then have "count (all_ids s') x \<le> 1" for x by (metis add_leD1 le_numeral_extra(4) zero_le)
  with c \<open>thread_wf s'\<close> show ?thesis using current_once [of s'] by blast
qed

text \<open>The state the kernel boots with, all cores without threads.\<close>

definition boot_threads :: thread_state where
  "boot_threads = \<lparr>LOG = [], NEXT_SEQ = 0, current_tid = 0, OBJECTS = [], NEXT_TID = 1, RUN_QUEUES = (\<lambda>_. None),
     CURRENTS = (\<lambda>_. None), ZOMBIES = (\<lambda>_. None), TSSES = (\<lambda>_. \<lparr>rsp0 = 0, tss_iopb = replicate IOPB_BYTES 0xFF\<rparr>),
     SYSCALL_RSP = (\<lambda>_. 0),
     CPUS = (\<lambda>_. \<lparr>reg_rsp = 0x8000, reg_rip = 0, reg_cr3 = 0x1000,
       reg_callee = \<lparr>r15 = 1, r14 = 2, r13 = 3, r12 = 4, rbx = 5, rbp = 6\<rparr>\<rparr>),
     KMEM = (\<lambda>_. 0), SWITCH_LOG = replicate SWITCH_LOG_LEN (0, 0, 0), SWITCH_LOG_POS = 0, DESTROYED = [], REAPED = [],
     RESCHEDULE_IPIS = [], kernel_pml4 = 0x1000, thread_trampoline = 0x100, user_process_trampoline = 0x200,
     switch_return = 0x300\<rparr>"

theorem threads_conserved_witness:
  "fresh_threads boot_threads \<and> length [InitCpu 0 0, Spawn 0 1 2 3, Tick 0, KillThread 0] < 2 ^ 64 - 1 \<and>
   thread_wf (fold run_thread_event [InitCpu 0 0, Spawn 0 1 2 3, Tick 0, KillThread 0] boot_threads)"
proof -
  have b: "fresh_threads boot_threads" by (simp add: fresh_threads_def boot_threads_def)
  show ?thesis using threads_conserved [OF b, of "[InitCpu 0 0, Spawn 0 1 2 3, Tick 0, KillThread 0]"] b by simp
qed

subsection \<open>Turns\<close>

text \<open>A core as the scheduler sees it: the current thread and whether it has exited, and the queue.\<close>

definition cur :: "'a thread_state_scheme \<Rightarrow> nat \<Rightarrow> (u64 \<times> bool) option" where
  "cur s c = map_option (\<lambda>t. (th_id t, th_state t = Exited)) (CURRENTS s c)"

definition que :: "'a thread_state_scheme \<Rightarrow> nat \<Rightarrow> u64 list option" where
  "que s c = map_option (map th_id) (RUN_QUEUES s c)"

lemma view_fields: "CURRENTS s' = CURRENTS s \<Longrightarrow> RUN_QUEUES s' = RUN_QUEUES s \<Longrightarrow> cur s' = cur s \<and> que s' = que s"
  by (simp add: cur_def que_def fun_eq_iff)

lemma view_switch_to: "cur (switch_to me old rsp cr3 s) = cur s" "que (switch_to me old rsp cr3 s) = que s"
  by (auto simp: cur_def que_def switch_to_def set_saved_rsp_def Let_def fun_eq_iff option.map_comp comp_def intro!: map_option_cong split: if_splits)

lemma view_install: "cur (install_next me old t s) = (cur s)(me := Some (th_id t, False))" "que (install_next me old t s) = que s"
  by (simp_all add: cur_def que_def install_next_fields fun_eq_iff)

lemma view_requeue:
  assumes "CURRENTS s me = Some t" "RUN_QUEUES s me = Some q"
  shows "cur (requeue me q t s) = (cur s)(me := None)"
    "que (requeue me q t s) = (que s)(me := Some (map th_id q @ (if th_state t = Exited then [] else [th_id t])))"
  using assms by (auto simp: cur_def que_def requeue_def Let_def fun_eq_iff)

lemma reap_fields: "CURRENTS (reap me s) = CURRENTS s" "RUN_QUEUES (reap me s) = RUN_QUEUES s"
  by (auto simp: reap_def Let_def split: option.split)

lemma view_reap: "cur (reap me s) = cur s" "que (reap me s) = que s"
  by (simp_all add: cur_def que_def reap_fields fun_eq_iff)

lemma schedule_turn:
  assumes "que s me = Some ids" "cur s me = Some (i, x)" "ids @ (if x then [] else [i]) = j # rest"
  shows "cur (schedule me s) = (cur s)(me := Some (j, False))" "que (schedule me s) = (que s)(me := Some rest)"
proof -
  let ?u = "reap me s"
  obtain q where q: "RUN_QUEUES ?u me = Some q" "map th_id q = ids" using assms(1) by (auto simp: que_def reap_fields)
  obtain t where t: "CURRENTS ?u me = Some t" "th_id t = i" "(th_state t = Exited) = x"
    using assms(2) by (auto simp: cur_def reap_fields)
  let ?v = "requeue me q t ?u"
  have "map th_id q @ (if th_state t = Exited then [] else [th_id t]) = j # rest" using assms(3) unfolding q(2) t(2,3) .
  then have v: "cur ?v = (cur s)(me := None)" "que ?v = (que s)(me := Some (j # rest))"
    by (simp_all only: view_requeue [OF t(1) q(1)] view_reap)
  then obtain n w where n: "RUN_QUEUES ?v me = Some (n # w)" "th_id n = j" "map th_id w = rest"
    by (auto simp: que_def fun_eq_iff dest!: spec [of _ me])
  let ?w = "?v\<lparr>RUN_QUEUES := (RUN_QUEUES ?v)(me := Some w)\<rparr>"
  have w: "cur ?w = cur ?v" "que ?w = (que ?v)(me := Some rest)" using n(3) by (simp_all add: cur_def que_def fun_eq_iff)
  have "schedule me s = switch_to me (th_id t) (saved_rsp n) (address_space n) (install_next me (th_id t) n ?w)"
    using q(1) t(1) n(1) by (simp add: schedule_def schedule_locked_def Let_def pick_next_def)
  then show "cur (schedule me s) = (cur s)(me := Some (j, False))" "que (schedule me s) = (que s)(me := Some rest)"
    using v w n(2) by (simp_all add: view_switch_to view_install)
qed

lemma schedule_bail:
  assumes "que s me = None \<or> cur s me = None"
  shows "cur (schedule me s) = cur s" "que (schedule me s) = que s"
proof -
  have "RUN_QUEUES (reap me s) me = None \<or> CURRENTS (reap me s) me = None"
    using assms by (auto simp: cur_def que_def reap_fields)
  then have "schedule me s = reap me s" by (auto simp: schedule_def schedule_locked_def Let_def split: option.split)
  then show "cur (schedule me s) = cur s" "que (schedule me s) = que s" by (simp_all add: view_reap)
qed

lemma view_make_thread:
  "cur (snd (make_thread c ws space stack s)) = cur s"
  "que (snd (make_thread c ws space stack s)) = (que s)(c := Some ((case que s c of None \<Rightarrow> [] | Some ids \<Rightarrow> ids) @ [NEXT_TID s]))"
  by (rule make_thread_push [of c ws space stack s],
      auto simp: cur_def que_def push_thread_def fun_eq_iff split: option.split)+

lemma view_update_current:
  assumes "\<And>t. th_id (f t) = th_id t" "\<And>t. th_state (f t) = th_state t"
  shows "cur (update_current me f s) = cur s" "que (update_current me f s) = que s"
  using assms by (auto simp: cur_def que_def update_current_def fun_eq_iff option.map_comp comp_def)

lemma view_exit:
  "cur (update_current me (\<lambda>t. t\<lparr>th_state := Exited\<rparr>) s) = (cur s)(me := map_option (\<lambda>(i, _). (i, True)) (cur s me))"
  "que (update_current me (\<lambda>t. t\<lparr>th_state := Exited\<rparr>) s) = que s"
  by (auto simp: cur_def que_def update_current_def fun_eq_iff option.map_comp comp_def)

lemma view_grant_queued:
  assumes "\<And>t u. cap_state.more (snd (loop (t, u))) = cap_state.more (u :: 'a thread_state_scheme)"
  shows "cur (grant_queued me tid loop s) = cur s" "que (grant_queued me tid loop s) = que s"
proof -
  have f: "RUN_QUEUES (snd (loop (t, as_current me s))) = RUN_QUEUES s" "CURRENTS (snd (loop (t, as_current me s))) = CURRENTS s" for t
    using fields_of_more [OF assms [of t "as_current me s"]] by (simp_all add: as_current_def)
  show "cur (grant_queued me tid loop s) = cur s" "que (grant_queued me tid loop s) = que s"
    by (auto simp: grant_queued_def cur_def que_def f fun_eq_iff update_first_ids split_beta Let_def split: option.split)
qed

text \<open>What an event does to the cores: it concerns at most one of them, or is a turn of one of them.\<close>

definition resched :: "nat \<Rightarrow> thread_event \<Rightarrow> bool" where
  "resched me e \<longleftrightarrow> e = Tick me \<or> e = KillThread me"

lemma view_spawn_caps:
  "cur (snd (spawn_with_capabilities me entry space grants stack s)) = cur s"
  "que (snd (spawn_with_capabilities me entry space grants stack s)) = que (snd (make_thread me [entry, thread_trampoline s] space stack s))"
  "cur (snd (spawn_with_manifest me entry space grants m stack s)) = cur s"
  "que (snd (spawn_with_manifest me entry space grants m stack s)) = que (snd (make_thread me [entry, thread_trampoline s] space stack s))"
  by (simp_all add: spawn_with_capabilities_def spawn_with_manifest_def spawn_in_locked_def split_beta Let_def
      view_grant_queued grant_folds_frame view_make_thread(1))

lemma view_init:
  "cur (init_as_current_thread me stack s) = (cur s)(me := Some (NEXT_TID s, False))" "que (init_as_current_thread me stack s) = que s"
  "CURRENTS s me = None \<longleftrightarrow> cur s me = None"
  by (auto simp: cur_def que_def init_as_current_thread_def Let_def fun_eq_iff)

lemma thread_event_view:
  fixes s :: "'a thread_state_scheme"
  assumes "\<forall>c. \<not> resched c e"
  defines "s' \<equiv> run_thread_event e s"
  shows "que s c = Some ids \<Longrightarrow> \<exists>app. que s' c = Some (ids @ app)"
    "cur s' c = cur s c \<or> e = ExitThread c \<and> cur s' c = map_option (\<lambda>(i, _). (i, True)) (cur s c) \<or>
     cur s c = None \<and> cur s' c = Some (NEXT_TID s, False) \<and> (\<exists>stack. e = InitCpu c stack)"
proof -
  have q: "que s c = Some ids \<Longrightarrow> \<exists>app. que (snd (make_thread d ws space stack s)) c = Some (ids @ app)" for d ws space stack
    by (auto simp: view_make_thread)
  have ipi: "cur (u\<lparr>RESCHEDULE_IPIS := x\<rparr>) = cur u" "que (u\<lparr>RESCHEDULE_IPIS := x\<rparr>) = que u" for x and u :: "'a thread_state_scheme"
    by (simp_all add: cur_def que_def fun_eq_iff)
  have iopb: "cur (set_iopb me b u) = cur u" "que (set_iopb me b u) = que u" for me b and u :: "'a thread_state_scheme"
    by (simp_all add: cur_def que_def fun_eq_iff set_iopb_def)
  have grant: "cur (snd (snd (grant t ob r (as_current d s)))) = cur s" "que (snd (snd (grant t ob r (as_current d s)))) = que s" for t ob r d
  proof -
    have "cap_state.more (snd (snd (grant t ob r (as_current d s)))) = cap_state.more (as_current d s)" by (simp add: grant_def Let_def)
    from fields_of_more [OF this]
    show "cur (snd (snd (grant t ob r (as_current d s)))) = cur s" "que (snd (snd (grant t ob r (as_current d s)))) = que s"
      by (simp_all add: cur_def que_def fun_eq_iff as_current_def)
  qed
  note simps = s'_def run_thread_event_def spawn_in_locked_def spawn_user_def spawn_pinned_to_cpu_def view_spawn_caps
    set_current_address_space_def allow_port_for_current_def deny_port_for_current_def grant_current_capability_def exit_current_def
    view_init view_make_thread(1) view_update_current view_exit ipi iopb grant split_beta Let_def
  show "que s c = Some ids \<Longrightarrow> \<exists>app. que s' c = Some (ids @ app)"
    using assms(1) q by (cases e) (auto simp: simps resched_def split: option.split)
  show "cur s' c = cur s c \<or> e = ExitThread c \<and> cur s' c = map_option (\<lambda>(i, _). (i, True)) (cur s c) \<or>
     cur s c = None \<and> cur s' c = Some (NEXT_TID s, False) \<and> (\<exists>stack. e = InitCpu c stack)"
    using assms(1) by (cases e) (auto simp: simps resched_def split: option.split)
qed

text \<open>
  \<open>I c\<close> is the idle thread of core \<open>c\<close>: it is on that core, and no event makes it exit.
\<close>

definition idle_ok :: "(nat \<Rightarrow> u64) \<Rightarrow> 'a thread_state_scheme \<Rightarrow> bool" where
  "idle_ok I s \<longleftrightarrow> (\<forall>c i x. cur s c = Some (i, x) \<longrightarrow> i = I c \<and> \<not> x \<or> (\<exists>ids. que s c = Some ids \<and> I c \<in> set ids))"

definition spares_idle :: "(nat \<Rightarrow> u64) \<Rightarrow> thread_event \<Rightarrow> 'a thread_state_scheme \<Rightarrow> bool" where
  "spares_idle I e s \<longleftrightarrow>
     (\<forall>c i x. (e = ExitThread c \<or> e = KillThread c) \<and> cur s c = Some (i, x) \<longrightarrow> i \<noteq> I c) \<and>
     (\<forall>c stack. e = InitCpu c stack \<and> cur s c = None \<longrightarrow> NEXT_TID s = I c)"

fun all_spare_idle :: "(nat \<Rightarrow> u64) \<Rightarrow> thread_event list \<Rightarrow> 'a thread_state_scheme \<Rightarrow> bool" where
  "all_spare_idle I [] s = True"
| "all_spare_idle I (e # es) s \<longleftrightarrow> spares_idle I e s \<and> all_spare_idle I es (run_thread_event e s)"

lemma turn_event:
  assumes "idle_ok I s" "spares_idle I e s" "resched d e" "d < MAX_CPUS" "que s d = Some ids" "cur s d = Some (i, x)"
  obtains j rest y where "ids @ (if y then [] else [i]) = j # rest" "I d \<in> set (j # rest)"
    "cur (run_thread_event e s) = (cur s)(d := Some (j, False))" "que (run_thread_event e s) = (que s)(d := Some rest)"
proof -
  let ?u = "if e = KillThread d then update_current d (\<lambda>t. t\<lparr>th_state := Exited\<rparr>) s else s"
  define y where "y \<longleftrightarrow> x \<or> e = KillThread d"
  have run: "run_thread_event e s = schedule d ?u"
    using assms(3,4) by (auto simp: resched_def run_thread_event_def kill_current_and_reschedule_def)
  have u: "cur ?u = (cur s)(d := Some (i, y))" "que ?u = que s"
    using assms(6) by (auto simp: view_exit y_def)
  have "i = I d \<and> \<not> x \<or> I d \<in> set ids" using assms(1,5,6) unfolding idle_ok_def by fastforce
  moreover have "e = KillThread d \<Longrightarrow> i \<noteq> I d" using assms(2,6) unfolding spares_idle_def by blast
  ultimately have rot: "I d \<in> set (ids @ (if y then [] else [i]))" unfolding y_def by auto
  then obtain j rest where j: "ids @ (if y then [] else [i]) = j # rest" by (cases "ids @ (if y then [] else [i])") auto
  have t: "cur (schedule d ?u) = (cur ?u)(d := Some (j, False))" "que (schedule d ?u) = (que ?u)(d := Some rest)"
    by (rule schedule_turn [OF _ _ j]; simp add: u assms(5))+
  show thesis
    by (rule that [OF j]) (use rot in \<open>simp_all only: j run t u fun_upd_upd\<close>)
qed

lemma no_turn_event:
  assumes "idle_ok I s" "spares_idle I e s" "resched d e" "que s d = None \<or> cur s d = None \<or> \<not> d < MAX_CPUS"
  shows "cur (run_thread_event e s) = cur s" "que (run_thread_event e s) = que s"
proof -
  have "cur (run_thread_event e s) = cur s \<and> que (run_thread_event e s) = que s"
  proof (cases "d < MAX_CPUS")
    case False
    with assms(3) show ?thesis by (auto simp: resched_def run_thread_event_def)
  next
    case d: True
    show ?thesis
    proof (cases "e = KillThread d")
      case True
      have "cur s d = None"
        using assms True d unfolding idle_ok_def spares_idle_def by (cases "cur s d") fastforce+
      moreover have "update_current d f s = s" if "cur s d = None" for f
        using that by (cases "CURRENTS s d") (simp_all add: cur_def update_current_def fun_upd_idem)
      ultimately show ?thesis
        using schedule_bail [of s d] d by (simp add: True run_thread_event_def kill_current_and_reschedule_def)
    next
      case False
      with assms(3,4) d show ?thesis using schedule_bail [of s d] by (auto simp: resched_def run_thread_event_def)
    qed
  qed
  then show "cur (run_thread_event e s) = cur s" "que (run_thread_event e s) = que s" by simp_all
qed

lemma idle_event:
  assumes "idle_ok I s" "spares_idle I e s"
  shows "idle_ok I (run_thread_event e s)"
proof (cases "\<exists>d. resched d e")
  case True
  then obtain d where d: "resched d e" by blast
  show ?thesis
  proof (cases "que s d = None \<or> cur s d = None \<or> \<not> d < MAX_CPUS")
    case True
    from no_turn_event [OF assms d True] assms(1) show ?thesis by (simp add: idle_ok_def)
  next
    case False
    then obtain ids i x where v: "que s d = Some ids" "cur s d = Some (i, x)" "d < MAX_CPUS" by auto
    show ?thesis
      by (rule turn_event [OF assms d v(3,1,2)]) (use assms(1) in \<open>auto simp: idle_ok_def split: if_splits\<close>)
  qed
next
  case False
  show ?thesis
    unfolding idle_ok_def
  proof (intro allI impI)
    fix c i x assume c: "cur (run_thread_event e s) c = Some (i, x)"
    have q: "I c \<in> set ids \<Longrightarrow> que s c = Some ids \<Longrightarrow> \<exists>ids. que (run_thread_event e s) c = Some ids \<and> I c \<in> set ids" for ids
      using thread_event_view(1) [of e s c ids] False by auto
    consider "cur s c = Some (i, x)" | j y where "e = ExitThread c" "cur s c = Some (j, y)" "i = j" "x"
      | "cur s c = None" "i = NEXT_TID s" "\<not> x" "\<exists>stack. e = InitCpu c stack"
      using thread_event_view(2) [of e s c] False c by (cases "cur s c") auto
    then show "i = I c \<and> \<not> x \<or> (\<exists>ids. que (run_thread_event e s) c = Some ids \<and> I c \<in> set ids)"
      using assms q unfolding idle_ok_def spares_idle_def by cases blast+
  qed
qed

lemma turns_step:
  assumes "idle_ok I s" "spares_idle I e s" "me < MAX_CPUS" "que s me = Some (i # ids)" "cur s me \<noteq> None"
  shows "cur (run_thread_event e s) me \<noteq> None"
    "if resched me e then que (run_thread_event e s) me \<noteq> None \<and> (\<exists>app. que (run_thread_event e s) me = Some (ids @ app)) \<and>
       cur (run_thread_event e s) me = Some (i, False)
     else \<exists>app. que (run_thread_event e s) me = Some (i # ids @ app)"
proof -
  have "cur (run_thread_event e s) me \<noteq> None \<and> (if resched me e then (\<exists>app. que (run_thread_event e s) me = Some (ids @ app)) \<and>
       cur (run_thread_event e s) me = Some (i, False) else \<exists>app. que (run_thread_event e s) me = Some (i # ids @ app))"
  proof (cases "\<exists>d. resched d e")
    case True
    then obtain d where d: "resched d e" by blast
    have only: "resched me e \<longleftrightarrow> d = me" using d by (auto simp: resched_def)
    show ?thesis
    proof (cases "que s d = None \<or> cur s d = None \<or> \<not> d < MAX_CPUS")
      case True
      with no_turn_event [OF assms(1,2) d True] assms(3-5) only show ?thesis by auto
    next
      case False
      then obtain idsd j x where v: "que s d = Some idsd" "cur s d = Some (j, x)" "d < MAX_CPUS" by auto
      show ?thesis
        by (rule turn_event [OF assms(1,2) d v(3,1,2)]) (use assms(4,5) only v in \<open>auto split: if_splits\<close>)
    qed
  next
    case False
    then show ?thesis
      using thread_event_view(1) [of e s me "i # ids"] thread_event_view(2) [of e s me] assms(4,5) by auto
  qed
  then show "cur (run_thread_event e s) me \<noteq> None"
    "if resched me e then que (run_thread_event e s) me \<noteq> None \<and> (\<exists>app. que (run_thread_event e s) me = Some (ids @ app)) \<and>
       cur (run_thread_event e s) me = Some (i, False)
     else \<exists>app. que (run_thread_event e s) me = Some (i # ids @ app)" by auto
qed

lemma turns_run:
  assumes "idle_ok I s" "all_spare_idle I es s" "me < MAX_CPUS" "que s me = Some (ids @ app)" "cur s me \<noteq> None"
    and "length (filter (resched me) es) < length ids"
  shows "idle_ok I (fold run_thread_event es s) \<and> cur (fold run_thread_event es s) me \<noteq> None \<and>
    (\<exists>app. que (fold run_thread_event es s) me = Some (drop (length (filter (resched me) es)) ids @ app))"
  using assms
proof (induction es arbitrary: s ids app)
  case (Cons e es)
  obtain i ids' where ids: "ids = i # ids'" using Cons.prems(6) by (cases ids) auto
  have e: "spares_idle I e s" "all_spare_idle I es (run_thread_event e s)" using Cons.prems(2) by simp_all
  note idle = idle_event [OF Cons.prems(1) e(1)]
  note t = turns_step [OF Cons.prems(1) e(1) Cons.prems(3) Cons.prems(4) [unfolded ids append_Cons] Cons.prems(5)]
  show ?case
  proof (cases "resched me e")
    case True
    then obtain app' where q: "que (run_thread_event e s) me = Some (ids' @ app')" using t(2) by auto
    show ?thesis using Cons.IH [OF idle e(2) Cons.prems(3) q t(1)] Cons.prems(6) True by (simp add: ids)
  next
    case False
    then obtain app' where q: "que (run_thread_event e s) me = Some (ids @ app')" using t(2) by (auto simp: ids)
    show ?thesis using Cons.IH [OF idle e(2) Cons.prems(3) q t(1)] Cons.prems(6) False by simp
  qed
qed auto

text \<open>
  C25. Every queued thread gets its turn, and in order: as long as no core's idle thread exits, the thread at
  position \<open>k\<close> of a core's queue is the current thread of that core after the core has rescheduled
  exactly \<open>k + 1\<close> times, whatever else happens on any core in between. In particular no thread is ever stolen.
\<close>

theorem round_robin:
  assumes "idle_ok I s" "all_spare_idle I (es @ [e]) s" "me < MAX_CPUS" "cur s me \<noteq> None"
    and "que s me = Some ids" "length (filter (resched me) es) = k" "k < length ids" "resched me e"
  shows "cur (fold run_thread_event (es @ [e]) s) me = Some (ids ! k, False)"
proof -
  let ?u = "fold run_thread_event es s"
  have "all_spare_idle I es s \<and> spares_idle I e ?u"
    using assms(2) by (induction es arbitrary: s) auto
  then have sp: "all_spare_idle I es s" "spares_idle I e ?u" by simp_all
  obtain app where u: "idle_ok I ?u" "cur ?u me \<noteq> None" "que ?u me = Some (drop k ids @ app)"
    using turns_run [OF assms(1) sp(1) assms(3) _ assms(4), of ids "[]"] assms(5-7) by auto
  have "drop k ids = ids ! k # drop (Suc k) ids" using assms(7) by (rule Cons_nth_drop_Suc [symmetric])
  with u(3) have "que ?u me = Some (ids ! k # drop (Suc k) ids @ app)" by simp
  from turns_step(2) [OF u(1) sp(2) assms(3) this u(2)] assms(8) show ?thesis by simp
qed

definition plain_thread :: "u64 \<Rightarrow> ThreadState \<Rightarrow> Thread" where
  "plain_thread i st = \<lparr>th_id = i, th_state = st, saved_rsp = 0, stack_ptr = 0, stack_len = 0, address_space = 0x1000,
     cap_table = CapabilityTable_new, iopb = replicate IOPB_BYTES 0xFF\<rparr>"

definition two_threads :: thread_state where
  "two_threads = boot_threads\<lparr>NEXT_TID := 3, CURRENTS := (\<lambda>_. None)(0 := Some (plain_thread 1 Running)),
     RUN_QUEUES := (\<lambda>_. None)(0 := Some [plain_thread 2 Ready])\<rparr>"

theorem round_robin_witness:
  "idle_ok (\<lambda>_. 1) two_threads \<and> all_spare_idle (\<lambda>_. 1) ([] @ [Tick 0]) two_threads \<and> 0 < MAX_CPUS \<and>
   cur two_threads 0 \<noteq> None \<and> que two_threads 0 = Some [2] \<and> length (filter (resched 0) []) = 0 \<and> 0 < length [2 :: u64] \<and>
   resched 0 (Tick 0) \<and> cur (fold run_thread_event ([] @ [Tick 0]) two_threads) 0 = Some ([2] ! 0, False)"
proof -
  have h: "idle_ok (\<lambda>_. 1) two_threads" "all_spare_idle (\<lambda>_. 1) ([] @ [Tick 0]) two_threads" "0 < MAX_CPUS"
    "cur two_threads 0 \<noteq> None" "que two_threads 0 = Some [2]" "resched 0 (Tick 0)"
    by (simp_all add: idle_ok_def cur_def que_def two_threads_def plain_thread_def spares_idle_def resched_def MAX_CPUS_def)
  show ?thesis using round_robin [OF h(1-5) _ _ h(6), of 0] h by simp
qed

end
