(* ===== verification/Dispatch.thy ===== *)
theory Dispatch
  imports Scheduler
begin

text \<open>
  What a thread gets: the capabilities it is spawned with, the processor state at its first and at every later
  dispatch, and what another core can do to it while it is being switched out.
\<close>

subsection \<open>Grants at spawn time\<close>

definition fresh_cap :: "'a cap_state_scheme \<Rightarrow> ObjectId \<times> Rights \<Rightarrow> Capability option" where
  "fresh_cap s = (\<lambda>(object_id, rights). Some \<lparr>cap_object_id = object_id, cap_rights = rights,
     cap_generation = (case slice_get (OBJECTS s) (unat object_id) of None \<Rightarrow> 0 | Some ob \<Rightarrow> ko_generation ob)\<rparr>)"

definition declared :: "Manifest \<Rightarrow> 'a cap_state_scheme \<Rightarrow> ObjectId \<times> Rights \<Rightarrow> bool" where
  "declared m s = (\<lambda>(object_id, _). case object_kind object_id s of None \<Rightarrow> False | Some k \<Rightarrow> declares m (kind_of k))"

lemma grant_by_policy_effect:
  "fst (grant_by_policy g (t, s)) = t\<lparr>slots := slots t @ (if allows (snd g) then [fresh_cap s g] else [])\<rparr>"
  "OBJECTS (snd (grant_by_policy g (t, s))) = OBJECTS s"
  by (auto simp: grant_by_policy_def grant_def fresh_cap_def Let_def split: prod.split)

lemma grant_by_manifest_effect:
  "fst (grant_by_manifest m g (t, s)) = t\<lparr>slots := slots t @ (if declared m s g then [fresh_cap s g] else [])\<rparr>"
  "OBJECTS (snd (grant_by_manifest m g (t, s))) = OBJECTS s"
  by (auto simp: grant_by_manifest_def grant_def fresh_cap_def declared_def Let_def split: prod.split option.split)

lemma grant_fold:
  assumes "\<And>g t s. fst (f g (t, s)) = t\<lparr>slots := slots t @ (if P s g then [fresh_cap s g] else [])\<rparr>"
    and "\<And>g t s. OBJECTS (snd (f g (t, s))) = OBJECTS s" and "\<And>s s' g. OBJECTS s' = OBJECTS s \<Longrightarrow> P s' g = P s g"
  shows "slots (fst (fold f gs (t, s))) = slots t @ map (fresh_cap s) (filter (P s) gs)"
proof (induction gs arbitrary: t s)
  case (Cons g gs)
  let ?t = "fst (f g (t, s))" and ?s = "snd (f g (t, s))"
  have same: "fresh_cap ?s = fresh_cap s" "P ?s = P s"
    using assms(3) [of ?s s] assms(2) [of g t s] by (auto simp: fresh_cap_def fun_eq_iff)
  have "slots (fst (fold f (g # gs) (t, s))) = slots (fst (fold f gs (?t, ?s)))" by simp
  also have "\<dots> = slots ?t @ map (fresh_cap s) (filter (P s) gs)" unfolding Cons.IH same ..
  finally show ?case unfolding assms(1) by simp
qed simp

lemma grant_queued_new:
  assumes "th_id t = tid" "RUN_QUEUES s me = Some (q @ [t])" "tid \<notin> th_id ` set q"
    and "\<And>t u. cap_state.more (snd (loop (t, u))) = cap_state.more (u :: 'a thread_state_scheme)"
  shows "RUN_QUEUES (grant_queued me tid loop s) me = Some (q @ [t\<lparr>cap_table := fst (loop (cap_table t, as_current me s))\<rparr>])"
proof -
  have "List.find (\<lambda>t. th_id t = tid) (q @ [t]) = Some t" using assms(1,3) by (induction q) auto
  moreover have "update_first (\<lambda>t. th_id t = tid) f (q @ [t]) = q @ [f t]" for f using assms(1,3) by (induction q) auto
  ultimately show ?thesis by (simp add: grant_queued_def assms(2) split_beta Let_def)
qed

lemma make_thread_new:
  obtains t where "th_id t = NEXT_TID s" "cap_table t = CapabilityTable_new"
    "RUN_QUEUES (snd (make_thread c ws space stack s)) c = Some ((case RUN_QUEUES s c of None \<Rightarrow> [] | Some q \<Rightarrow> q) @ [t])"
    "OBJECTS (snd (make_thread c ws space stack s)) = OBJECTS s" "fst (make_thread c ws space stack s) = NEXT_TID s"
proof (rule make_thread_push [of c ws space stack s])
  fix sp mem
  assume m: "snd (make_thread c ws space stack s) = push_thread c
    \<lparr>th_id = NEXT_TID s, th_state = Ready, saved_rsp = sp, stack_ptr = stack, stack_len = KERNEL_STACK_SIZE,
     address_space = space, cap_table = CapabilityTable_new, iopb = replicate IOPB_BYTES 0xFF\<rparr>
    (s\<lparr>NEXT_TID := NEXT_TID s + 1, KMEM := mem\<rparr>)"
  show thesis
    by (rule that [of "\<lparr>th_id = NEXT_TID s, th_state = Ready, saved_rsp = sp, stack_ptr = stack, stack_len = KERNEL_STACK_SIZE,
     address_space = space, cap_table = CapabilityTable_new, iopb = replicate IOPB_BYTES 0xFF\<rparr>"])
      (simp_all add: m push_thread_def, simp add: make_thread_def Let_def split_beta)
qed

lemma spawn_grants:
  assumes "q = (case RUN_QUEUES s me of None \<Rightarrow> [] | Some q \<Rightarrow> q)" "NEXT_TID s \<notin> th_id ` set q"
    and "\<And>g t (s :: 'a thread_state_scheme). fst (f g (t, s)) = t\<lparr>slots := slots t @ (if P s g then [fresh_cap s g] else [])\<rparr>"
    and "\<And>g t s. OBJECTS (snd (f g (t, s))) = OBJECTS s" and "\<And>s s' g. OBJECTS s' = OBJECTS s \<Longrightarrow> P s' g = P s g"
    and "\<And>g t s. cap_state.more (snd (f g (t, s))) = cap_state.more s"
  shows "\<exists>t. RUN_QUEUES (grant_queued me (NEXT_TID s) (fold f gs) (snd (make_thread me ws space stack s))) me = Some (q @ [t]) \<and>
    th_id t = NEXT_TID s \<and> slots (cap_table t) = map (fresh_cap s) (filter (P s) gs)"
proof (rule make_thread_new [of s me ws space stack])
  let ?u = "snd (make_thread me ws space stack s)"
  fix t assume t: "th_id t = NEXT_TID s" "cap_table t = CapabilityTable_new"
    "RUN_QUEUES ?u me = Some ((case RUN_QUEUES s me of None \<Rightarrow> [] | Some q \<Rightarrow> q) @ [t])" "OBJECTS ?u = OBJECTS s"
  let ?v = "as_current me ?u"
  have same: "fresh_cap ?v = fresh_cap s" "P ?v = P s"
    using t(4) assms(5) [of ?v s] by (auto simp: fresh_cap_def fun_eq_iff as_current_def)
  have "slots (fst (fold f gs (cap_table t, ?v))) = map (fresh_cap s) (filter (P s) gs)"
    using grant_fold [of f P, OF assms(3,4,5)] t(2) by (simp add: same CapabilityTable_new_def)
  moreover have "cap_state.more (snd (fold f gs (t, u))) = cap_state.more u" for t u by (rule fold_frame) (rule assms(6))
  from grant_queued_new [OF t(1) t(3) [folded assms(1)] assms(2) this]
  have "RUN_QUEUES (grant_queued me (NEXT_TID s) (fold f gs) ?u) me = Some (q @ [t\<lparr>cap_table := fst (fold f gs (cap_table t, ?v))\<rparr>])" .
  ultimately show ?thesis using t(1) by auto
qed

text \<open>
  C26. A thread spawned with grants gets a capability for exactly those the rule admits, in order, with the requested
  rights and the current generation: for an agent those whose rights the agent policy covers, for an application
  those that name a live object of a kind its manifest declares.
\<close>

theorem spawn_grants_confined:
  assumes "q = (case RUN_QUEUES s me of None \<Rightarrow> [] | Some q \<Rightarrow> q)" "NEXT_TID s \<notin> th_id ` set q"
  shows "(\<exists>t. RUN_QUEUES (snd (spawn_with_capabilities me entry space grants stack s)) me = Some (q @ [t]) \<and> th_id t = NEXT_TID s \<and>
      slots (cap_table t) = map (fresh_cap s) (filter (\<lambda>(_, rights). rights_contains AGENT_MAX_RIGHTS rights) grants)) \<and>
    (\<exists>t. RUN_QUEUES (snd (spawn_with_manifest me entry space grants m stack s)) me = Some (q @ [t]) \<and> th_id t = NEXT_TID s \<and>
      slots (cap_table t) = map (fresh_cap s) (filter (declared m s) grants))"
proof -
  have tid: "fst (make_thread me ws space stack s) = NEXT_TID s" for ws by (simp add: make_thread_def Let_def split_beta)
  have f: "filter (\<lambda>(_, rights). rights_contains AGENT_MAX_RIGHTS rights) grants = filter (\<lambda>g. allows (snd g)) grants"
    by (rule filter_cong) (auto simp: allows_def)
  show ?thesis
    using spawn_grants [OF assms, of grant_by_policy "\<lambda>_ g. allows (snd g)" grants "[entry, thread_trampoline s]" space stack]
      spawn_grants [OF assms, of "grant_by_manifest m" "declared m" grants "[entry, thread_trampoline s]" space stack]
    unfolding f
    by (simp add: grant_by_policy_effect grant_by_manifest_effect grant_loops_frame spawn_with_capabilities_def
        spawn_with_manifest_def spawn_in_locked_def split_beta Let_def tid declared_def object_kind_def)
qed

theorem spawn_grants_confined_witness:
  "[plain_thread 2 Ready] = (case RUN_QUEUES two_threads 0 of None \<Rightarrow> [] | Some q \<Rightarrow> q) \<and>
   NEXT_TID two_threads \<notin> th_id ` set [plain_thread 2 Ready] \<and>
   (\<exists>t. RUN_QUEUES (snd (spawn_with_capabilities 0 1 2 [] 3 two_threads)) 0 = Some ([plain_thread 2 Ready] @ [t]) \<and>
      slots (cap_table t) = [])"
proof -
  have h: "[plain_thread 2 Ready] = (case RUN_QUEUES two_threads 0 of None \<Rightarrow> [] | Some q \<Rightarrow> q)"
    "NEXT_TID two_threads \<notin> th_id ` set [plain_thread 2 Ready]"
    by (simp_all add: two_threads_def plain_thread_def)
  show ?thesis using spawn_grants_confined [OF h, of 1 2 "[]" 3 Manifest_NONE] h by (simp (no_asm_use)) blast
qed

subsection \<open>Context switches\<close>

definition frame :: "u64 \<Rightarrow> u64 list" where
  "frame sp = map (\<lambda>i. sp + 8 * of_nat i) [0..<7]"

lemma frame_eq: "frame sp = [sp, sp + 8, sp + 16, sp + 24, sp + 32, sp + 40, sp + 48]"
  by (simp add: frame_def upt_rec)

lemma frame_ret: "sp + 48 \<in> set (frame sp)"
  by (simp add: frame_eq)

lemma read_write_callee: "read_callee sp (write_callee sp c mem) = c"
  by (cases c) (simp add: read_callee_def write_callee_def)

lemma write_callee_other: "a \<notin> set (frame sp) \<Longrightarrow> write_callee sp c mem a = mem a"
  by (auto simp: write_callee_def frame_eq)

lemma read_callee_cong: "\<forall>a \<in> set (frame sp). mem a = mem' a \<Longrightarrow> read_callee sp mem = read_callee sp mem'"
  by (simp add: read_callee_def frame_eq)

lemma switch_to_mem:
  fixes s :: "'a thread_state_scheme" and me :: nat
  defines "sp \<equiv> reg_rsp (CPUS s me) - 56"
  shows "KMEM (switch_to me old rsp cr3 s) = write_callee sp (reg_callee (CPUS s me)) ((KMEM s)(sp + 48 := switch_return s))"
    "CPUS (switch_to me old rsp cr3 s) me =
      \<lparr>reg_rsp = rsp + 56, reg_rip = KMEM (switch_to me old rsp cr3 s) (rsp + 48), reg_cr3 = cr3,
       reg_callee = read_callee rsp (KMEM (switch_to me old rsp cr3 s))\<rparr>"
  by (simp_all add: switch_to_def Let_def set_saved_rsp_def sp_def algebra_simps)

lemma set_saved_rsp_saves:
  "\<forall>c q t. RUN_QUEUES (set_saved_rsp tid v s) c = Some q \<and> t \<in> set q \<and> th_id t = tid \<longrightarrow> saved_rsp t = v"
proof (intro allI impI, elim conjE)
  let ?f = "\<lambda>t. if th_id t = tid then t\<lparr>saved_rsp := v\<rparr> else t"
  fix c q t assume q: "RUN_QUEUES (set_saved_rsp tid v s) c = Some q" "t \<in> set q" and t: "th_id t = tid"
  then have "map_option (map ?f) (RUN_QUEUES s c) = Some q" unfolding set_saved_rsp_def Let_def by simp
  then obtain ts where "map ?f ts = q" unfolding map_option_eq_Some by blast
  then have "t \<in> ?f ` set ts" using q(2) set_map [of ?f ts] by argo
  then obtain u where "t = ?f u" by (rule imageE)
  with t show "saved_rsp t = v" by (cases "th_id u = tid") simp_all
qed

lemma switch_to_saves:
  "\<forall>c q t. RUN_QUEUES (switch_to me old rsp cr3 s) c = Some q \<and> t \<in> set q \<and> th_id t = old \<longrightarrow> saved_rsp t = reg_rsp (CPUS s me) - 56"
proof -
  have "reg_rsp (CPUS s me) - 8 - 48 = reg_rsp (CPUS s me) - 56" by simp
  then have "RUN_QUEUES (switch_to me old rsp cr3 s) = RUN_QUEUES (set_saved_rsp old (reg_rsp (CPUS s me) - 56) s)"
    by (simp add: switch_to_def Let_def set_saved_rsp_def cong: if_cong)
  then show ?thesis using set_saved_rsp_saves [of old "reg_rsp (CPUS s me) - 56" s] by (simp only:)
qed

text \<open>
  C27. Switching out and back in is lossless: a switch saves the stack pointer with the outgoing thread wherever it is
  queued, and when any core later switches to that stack pointer, the seven saved words being untouched, the stack
  pointer, the callee-saved registers and the return address are those the thread was switched out with, and the root
  table is the one asked for.
\<close>

theorem context_switch_round_trip:
  fixes s s' :: "'a thread_state_scheme" and a :: nat and tid rsp space :: u64
  defines "sp \<equiv> reg_rsp (CPUS s a) - 56" and "s1 \<equiv> switch_to a tid rsp space s"
  assumes "\<forall>x \<in> set (frame sp). KMEM s' x = KMEM s1 x" "set (frame (reg_rsp (CPUS s' b) - 56)) \<inter> set (frame sp) = {}"
  shows "(\<forall>c q t. RUN_QUEUES s1 c = Some q \<and> t \<in> set q \<and> th_id t = tid \<longrightarrow> saved_rsp t = sp) \<and>
    CPUS (switch_to b tid' sp space' s') b =
      \<lparr>reg_rsp = reg_rsp (CPUS s a), reg_rip = switch_return s, reg_cr3 = space', reg_callee = reg_callee (CPUS s a)\<rparr>"
proof -
  let ?sb = "reg_rsp (CPUS s' b) - 56" and ?s2 = "switch_to b tid' sp space' s'"
  have "KMEM ?s2 x = KMEM s1 x" if "x \<in> set (frame sp)" for x
  proof -
    have "x \<notin> set (frame ?sb)" "x \<noteq> ?sb + 48" using that assms(4) frame_ret [of ?sb] by blast+
    then have "KMEM ?s2 x = KMEM s' x" by (simp add: switch_to_mem(1) write_callee_other)
    with that assms(3) show ?thesis by simp
  qed
  then have "read_callee sp (KMEM ?s2) = read_callee sp (KMEM s1)" "KMEM ?s2 (sp + 48) = KMEM s1 (sp + 48)"
    using read_callee_cong [of sp "KMEM ?s2" "KMEM s1"] frame_ret [of sp] by blast+
  moreover have "read_callee sp (KMEM s1) = reg_callee (CPUS s a)" "KMEM s1 (sp + 48) = switch_return s"
    unfolding s1_def switch_to_mem(1) sp_def read_write_callee by (simp_all add: write_callee_def)
  moreover have "CPUS ?s2 b = \<lparr>reg_rsp = reg_rsp (CPUS s a), reg_rip = KMEM ?s2 (sp + 48), reg_cr3 = space', reg_callee = read_callee sp (KMEM ?s2)\<rparr>"
    unfolding switch_to_mem(2) by (simp add: sp_def)
  moreover have "\<forall>c q t. RUN_QUEUES s1 c = Some q \<and> t \<in> set q \<and> th_id t = tid \<longrightarrow> saved_rsp t = sp"
    unfolding s1_def sp_def by (rule switch_to_saves)
  ultimately show ?thesis by (simp only:)
qed

theorem context_switch_round_trip_witness:
  "set (frame (reg_rsp (CPUS (switch_to 0 1 0x4000 0x2000 two_threads) 0) - 56)) \<inter> set (frame (0x8000 - 56)) = {} \<and>
    CPUS (switch_to 0 2 (0x8000 - 56) 0x1000 (switch_to 0 1 0x4000 0x2000 two_threads)) 0 =
      \<lparr>reg_rsp = 0x8000, reg_rip = 0x300, reg_cr3 = 0x1000,
       reg_callee = \<lparr>r15 = 1, r14 = 2, r13 = 3, r12 = 4, rbx = 5, rbp = 6\<rparr>\<rparr>"
proof -
  have c: "CPUS two_threads 0 = \<lparr>reg_rsp = 0x8000, reg_rip = 0, reg_cr3 = 0x1000,
      reg_callee = \<lparr>r15 = 1, r14 = 2, r13 = 3, r12 = 4, rbx = 5, rbp = 6\<rparr>\<rparr>" "switch_return two_threads = 0x300"
    by (simp_all add: two_threads_def boot_threads_def)
  have d: "set (frame (reg_rsp (CPUS (switch_to 0 1 0x4000 0x2000 two_threads) 0) - 56)) \<inter> set (frame (0x8000 - 56)) = {}"
    unfolding switch_to_mem(2) c by (simp add: frame_eq)
  have r: "reg_rsp (CPUS two_threads 0) = 0x8000" by (simp add: c)
  show ?thesis
    using context_switch_round_trip [where s = two_threads and a = 0 and tid = 1 and rsp = "0x4000" and space = "0x2000" and b = 0
        and s' = "switch_to 0 1 0x4000 0x2000 two_threads" and tid' = 2 and space' = "0x1000", unfolded r, OF _ d] d by (simp add: c)
qed

text \<open>A fresh thread starts in its trampoline with its entry point on top of the stack.\<close>

lemma first_dispatch:
  fixes s s' :: "'a thread_state_scheme" and c :: nat and entry space stack :: u64
  defines "s1 \<equiv> snd (spawn_in_locked c entry space stack s)" and "sp \<equiv> stack + KERNEL_STACK_SIZE - 64"
  assumes "\<forall>x \<in> set (frame sp) \<union> {sp + 56}. KMEM s' x = KMEM s1 x"
    and "set (frame (reg_rsp (CPUS s' b) - 56)) \<inter> (set (frame sp) \<union> {sp + 56}) = {}"
  shows "reg_rip (CPUS (switch_to b tid sp cr3 s') b) = thread_trampoline s"
    "reg_rsp (CPUS (switch_to b tid sp cr3 s') b) = sp + 56" "KMEM (switch_to b tid sp cr3 s') (sp + 56) = entry"
proof -
  have new: "KMEM s1 (sp + 48) = thread_trampoline s" "KMEM s1 (sp + 56) = entry"
    by (simp_all add: s1_def sp_def spawn_in_locked_def make_thread_def push_words_def push_thread_def write_callee_def Let_def
        split_beta)
  have "KMEM (switch_to b tid sp cr3 s') x = KMEM s1 x" if "x \<in> set (frame sp) \<union> {sp + 56}" for x
  proof -
    have "x \<notin> set (frame (reg_rsp (CPUS s' b) - 56))" using that assms(4) by auto
    with that assms(3) show ?thesis by (auto simp: switch_to_mem(1) write_callee_other frame_eq)
  qed
  then have "KMEM (switch_to b tid sp cr3 s') (sp + 48) = KMEM s1 (sp + 48)" "KMEM (switch_to b tid sp cr3 s') (sp + 56) = KMEM s1 (sp + 56)"
    by (simp_all add: frame_eq)
  with new switch_to_mem(2) [of b tid sp cr3 s'] show "reg_rip (CPUS (switch_to b tid sp cr3 s') b) = thread_trampoline s"
    "reg_rsp (CPUS (switch_to b tid sp cr3 s') b) = sp + 56" "KMEM (switch_to b tid sp cr3 s') (sp + 56) = entry" by simp_all
qed

end
