(* ===== verification/Geometry.thy ===== *)
theory Geometry
  imports Prelude
begin

text \<open>
  Screen rectangles (\<^verbatim>\<open>kernel_common/src/geometry.rs\<close>): intersection, subtraction and the visible parts of
  a rectangle under a list of occluders. Coordinates are 32-bit signed integers, read by \<^term>\<open>sint\<close>;
  sizes are unsigned. A rectangle denotes a set of pixels, and the operations are shown to compute the set
  operations on them. Output arrays with a counter are lists.
\<close>

type_synonym i32 = "32 word"

subsection \<open>Signed integers\<close>

definition imax :: "i32 \<Rightarrow> i32 \<Rightarrow> i32" where
  "imax a b = (if sint a < sint b then b else a)"

definition imin :: "i32 \<Rightarrow> i32 \<Rightarrow> i32" where
  "imin a b = (if sint b < sint a then b else a)"

definition saturating_add :: "i32 \<Rightarrow> i32 \<Rightarrow> i32" where
  "saturating_add a b = word_of_int (max (- (2 ^ 31)) (min (2 ^ 31 - 1) (sint a + sint b)))"

lemma sint_imax [simp]: "sint (imax a b) = max (sint a) (sint b)"
  by (simp add: imax_def)

lemma sint_imin [simp]: "sint (imin a b) = min (sint a) (sint b)"
  by (simp add: imin_def)

lemma sint_range: "- (2 ^ 31) \<le> sint (a :: i32)" "sint (a :: i32) < 2 ^ 31"
  using sint_ge [of a] sint_lt [of a] by simp_all

lemma sint_of_int32: "- (2 ^ 31) \<le> k \<Longrightarrow> k < 2 ^ 31 \<Longrightarrow> sint (word_of_int k :: i32) = k"
  by (simp add: sint_sbintrunc' signed_take_bit_int_eq_self)

lemma sint_small: "uint w < 2 ^ 31 \<Longrightarrow> sint (w :: i32) = uint w"
  using sint_of_int32 [of "uint w"] uint_ge_0 [of w] by simp

lemma uint_sint_diff: "sint b \<le> sint a \<Longrightarrow> uint (a - b :: i32) = sint a - sint b"
proof -
  assume "sint b \<le> sint a"
  moreover have "sint a - sint b < 2 ^ 32" using sint_range [of a] sint_range [of b] by simp
  moreover have "uint (word_of_int (sint a - sint b) :: i32) = (sint a - sint b) mod 2 ^ 32"
    unfolding uint_word_of_int by simp
  moreover have "(word_of_int (sint a - sint b) :: i32) = a - b" by simp
  ultimately show ?thesis by (simp only: mod_pos_pos_trivial)
qed

lemma sint_add_small:
  "- (2 ^ 31) \<le> sint a + sint b \<Longrightarrow> sint a + sint b < 2 ^ 31 \<Longrightarrow> sint (a + b :: i32) = sint a + sint b"
  using sint_of_int32 [of "sint a + sint b"] by simp

subsection \<open>Rectangles\<close>

record Rect =
  rect_x :: i32
  rect_y :: i32
  rect_width :: u32
  rect_height :: u32

definition rect_new :: "i32 \<Rightarrow> i32 \<Rightarrow> u32 \<Rightarrow> u32 \<Rightarrow> Rect" where
  "rect_new x y w h = \<lparr>rect_x = x, rect_y = y, rect_width = w, rect_height = h\<rparr>"

definition rect_empty :: Rect where
  "rect_empty = \<lparr>rect_x = 0, rect_y = 0, rect_width = 0, rect_height = 0\<rparr>"

definition rect_is_empty :: "Rect \<Rightarrow> bool" where
  "rect_is_empty r \<longleftrightarrow> rect_width r = 0 \<or> rect_height r = 0"

definition rect_right :: "Rect \<Rightarrow> i32" where
  "rect_right r = saturating_add (rect_x r) (rect_width r)"

definition rect_bottom :: "Rect \<Rightarrow> i32" where
  "rect_bottom r = saturating_add (rect_y r) (rect_height r)"

definition rect_area :: "Rect \<Rightarrow> u64" where
  "rect_area r = ucast (rect_width r) * ucast (rect_height r)"

definition rect_intersect :: "Rect \<Rightarrow> Rect \<Rightarrow> Rect option" where
  "rect_intersect a b =
     (let x0 = imax (rect_x a) (rect_x b);
          y0 = imax (rect_y a) (rect_y b);
          x1 = imin (rect_right a) (rect_right b);
          y1 = imin (rect_bottom a) (rect_bottom b)
      in if sint x1 > sint x0 \<and> sint y1 > sint y0 then Some (rect_new x0 y0 (x1 - x0) (y1 - y0)) else None)"

definition contains_rect :: "Rect \<Rightarrow> Rect \<Rightarrow> bool" where
  "contains_rect a b \<longleftrightarrow>
     rect_is_empty b \<or>
     sint (rect_x a) \<le> sint (rect_x b) \<and> sint (rect_y a) \<le> sint (rect_y b) \<and>
     sint (rect_right a) \<ge> sint (rect_right b) \<and> sint (rect_bottom a) \<ge> sint (rect_bottom b)"

definition rect_subtract :: "Rect \<Rightarrow> Rect \<Rightarrow> Rect list" where
  "rect_subtract a occluder =
     (if rect_is_empty a then []
      else case rect_intersect a occluder of
             None \<Rightarrow> [a]
           | Some i \<Rightarrow>
               if contains_rect occluder a then []
               else
                 (if sint (rect_y i) > sint (rect_y a)
                  then [rect_new (rect_x a) (rect_y a) (rect_width a) (rect_y i - rect_y a)] else []) @
                 (if sint (rect_bottom a) > sint (rect_bottom i)
                  then [rect_new (rect_x a) (rect_bottom i) (rect_width a) (rect_bottom a - rect_bottom i)] else []) @
                 (if sint (rect_x i) > sint (rect_x a)
                  then [rect_new (rect_x a) (rect_y i) (rect_x i - rect_x a) (rect_height i)] else []) @
                 (if sint (rect_right a) > sint (rect_right i)
                  then [rect_new (rect_right i) (rect_y i) (rect_right a - rect_right i) (rect_height i)] else []))"

text \<open>One occluder: the pieces of every current rectangle, as far as the array of 32 holds them.\<close>

definition visible_step :: "Rect \<Rightarrow> Rect list \<Rightarrow> Rect list" where
  "visible_step occ current =
     fold (\<lambda>r next_rects. fold (\<lambda>s nx. if length nx < 32 then nx @ [s] else nx) (rect_subtract r occ) next_rects) current []"

fun visible_loop :: "Rect list \<Rightarrow> Rect list \<Rightarrow> Rect list" where
  "visible_loop [] current = current"
| "visible_loop (occ # occs) current =
     (if rect_is_empty occ then visible_loop occs current
      else if current = [] then current
      else visible_loop occs (visible_step occ current))"

definition compute_visible_rects :: "Rect \<Rightarrow> Rect list \<Rightarrow> Rect list" where
  "compute_visible_rects target occluders =
     (if rect_is_empty target then [] else visible_loop occluders [target])"

subsection \<open>Pixels\<close>

text \<open>A rectangle is sane when its far corner is a signed 32-bit point; no operation then saturates.\<close>

definition sane :: "Rect \<Rightarrow> bool" where
  "sane r \<longleftrightarrow> uint (rect_width r) < 2 ^ 31 \<and> uint (rect_height r) < 2 ^ 31 \<and>
     sint (rect_x r) + uint (rect_width r) < 2 ^ 31 \<and> sint (rect_y r) + uint (rect_height r) < 2 ^ 31"

definition pixels :: "Rect \<Rightarrow> (int \<times> int) set" where
  "pixels r = {sint (rect_x r) ..< sint (rect_x r) + uint (rect_width r)} \<times>
              {sint (rect_y r) ..< sint (rect_y r) + uint (rect_height r)}"

definition covered :: "Rect list \<Rightarrow> (int \<times> int) set" where
  "covered rs = (\<Union>r \<in> set rs. pixels r)"

definition apart :: "Rect \<Rightarrow> Rect \<Rightarrow> bool" where
  "apart a b \<longleftrightarrow> pixels a \<inter> pixels b = {}"

lemma covered_simps [simp]: "covered [] = {}" "covered (r # rs) = pixels r \<union> covered rs"
  "covered (rs @ ss) = covered rs \<union> covered ss"
  by (auto simp: covered_def)

lemma pixels_empty: "rect_is_empty r \<Longrightarrow> pixels r = {}"
  by (auto simp: rect_is_empty_def pixels_def)

lemma sat_sane: "uint w < 2 ^ 31 \<Longrightarrow> sint x + uint w < 2 ^ 31 \<Longrightarrow> sint (saturating_add x w) = sint x + uint w"
proof -
  assume w: "uint w < 2 ^ 31" and "sint x + uint w < 2 ^ 31"
  moreover have "- (2 ^ 31) \<le> sint x + uint w" using sint_range [of x] uint_ge_0 [of w] by linarith
  ultimately show ?thesis unfolding saturating_add_def sint_small [OF w] by (subst sint_of_int32) simp_all
qed

lemma sane_right [simp]: "sane r \<Longrightarrow> sint (rect_right r) = sint (rect_x r) + uint (rect_width r)"
  by (simp add: sane_def rect_right_def sat_sane)

lemma sane_bottom [simp]: "sane r \<Longrightarrow> sint (rect_bottom r) = sint (rect_y r) + uint (rect_height r)"
  by (simp add: sane_def rect_bottom_def sat_sane)

lemma rect_new_sel [simp]:
  "rect_x (rect_new x y w h) = x" "rect_y (rect_new x y w h) = y"
  "rect_width (rect_new x y w h) = w" "rect_height (rect_new x y w h) = h"
  by (simp_all add: rect_new_def)

lemma rect_intersect_Some:
  assumes "rect_intersect a b = Some i" "sane a" "sane b"
  shows "sint (rect_x i) = max (sint (rect_x a)) (sint (rect_x b))" "sint (rect_y i) = max (sint (rect_y a)) (sint (rect_y b))"
    "sint (rect_x i) + uint (rect_width i) = min (sint (rect_x a) + uint (rect_width a)) (sint (rect_x b) + uint (rect_width b))"
    "sint (rect_y i) + uint (rect_height i) = min (sint (rect_y a) + uint (rect_height a)) (sint (rect_y b) + uint (rect_height b))"
    "0 < uint (rect_width i)" "0 < uint (rect_height i)" "sane i"
  using assms by (auto simp: rect_intersect_def Let_def uint_sint_diff sane_def split: if_splits)

text \<open>The intersection lies inside the first rectangle.\<close>

lemma rect_intersect_corners:
  assumes "rect_intersect a b = Some i" "sane a" "sane b"
  shows "sint (rect_x a) \<le> sint (rect_x i)" "sint (rect_y a) \<le> sint (rect_y i)"
    "sint (rect_x i) + uint (rect_width i) \<le> sint (rect_x a) + uint (rect_width a)"
    "sint (rect_y i) + uint (rect_height i) \<le> sint (rect_y a) + uint (rect_height a)"
    "sint (rect_right i) = sint (rect_x i) + uint (rect_width i)" "sint (rect_bottom i) = sint (rect_y i) + uint (rect_height i)"
    "sint (rect_right a) = sint (rect_x a) + uint (rect_width a)" "sint (rect_bottom a) = sint (rect_y a) + uint (rect_height a)"
  using rect_intersect_Some [OF assms] assms(2) by simp_all

lemma list_memE: "x \<in> set [a, b, c, d] \<Longrightarrow> (x = a \<Longrightarrow> P) \<Longrightarrow> (x = b \<Longrightarrow> P) \<Longrightarrow> (x = c \<Longrightarrow> P) \<Longrightarrow> (x = d \<Longrightarrow> P) \<Longrightarrow> P"
  by auto

lemma rect_intersect_None:
  "rect_intersect a b = None \<Longrightarrow> sane a \<Longrightarrow> sane b \<Longrightarrow> pixels a \<inter> pixels b = {}"
  by (auto simp: rect_intersect_def Let_def pixels_def split: if_splits)

lemma rect_intersect_pixels:
  "rect_intersect a b = Some i \<Longrightarrow> sane a \<Longrightarrow> sane b \<Longrightarrow> pixels i = pixels a \<inter> pixels b"
  using rect_intersect_Some [of a b i] by (auto simp: pixels_def)

lemma rect_subtract_length: "length (rect_subtract a b) \<le> 4"
  by (simp add: rect_subtract_def split: option.split)

lemma rect_subtract_sane:
  assumes "sane a" "sane b" "r \<in> set (rect_subtract a b)"
  shows "sane r"
proof (cases "rect_intersect a b")
  case None
  with assms show ?thesis by (auto simp: rect_subtract_def split: if_splits)
next
  case (Some i)
  note i = rect_intersect_corners [OF Some assms(1,2)]
  have "r \<in> set [rect_new (rect_x a) (rect_y a) (rect_width a) (rect_y i - rect_y a),
      rect_new (rect_x a) (rect_bottom i) (rect_width a) (rect_bottom a - rect_bottom i),
      rect_new (rect_x a) (rect_y i) (rect_x i - rect_x a) (rect_height i),
      rect_new (rect_right i) (rect_y i) (rect_right a - rect_right i) (rect_height i)]"
    using assms(3) by (auto simp: rect_subtract_def Some split: if_splits)
  then show ?thesis using i assms(1) rect_intersect_Some(5,6) [OF Some assms(1,2)]
    by (elim list_memE) (auto simp: sane_def uint_sint_diff)
qed

text \<open>The four slices around the intersection, by their corners.\<close>

definition box :: "int \<Rightarrow> int \<Rightarrow> int \<Rightarrow> int \<Rightarrow> (int \<times> int) set" where
  "box l t r b = {l..<r} \<times> {t..<b}"

lemma box_empty: "r \<le> l \<or> b \<le> t \<Longrightarrow> box l t r b = {}"
  by (auto simp: box_def)

lemma box_slices:
  assumes "l \<le> l'" "l' < r'" "r' \<le> r" "t \<le> t'" "t' < b'" "b' \<le> b"
  shows "box l t r t' \<union> (box l b' r b \<union> (box l t' l' b' \<union> box r' t' r b')) = box l t r b - box l' t' r' b'"
  using assms by (auto simp: box_def)

lemma pixels_box: "pixels a = box (sint (rect_x a)) (sint (rect_y a)) (sint (rect_x a) + uint (rect_width a)) (sint (rect_y a) + uint (rect_height a))"
  by (simp add: pixels_def box_def)

lemma covered_if: "\<lbrakk>c \<Longrightarrow> pixels r = S; \<not> c \<Longrightarrow> S = {}\<rbrakk> \<Longrightarrow> covered (if c then [r] else []) = S"
  by simp

lemma rect_subtract_slices:
  assumes "rect_intersect a b = Some i" "sane a" "sane b" "\<not> contains_rect b a" "\<not> rect_is_empty a"
  defines "l \<equiv> sint (rect_x a)" and "t \<equiv> sint (rect_y a)" and "r \<equiv> sint (rect_right a)" and "bt \<equiv> sint (rect_bottom a)"
  defines "l' \<equiv> sint (rect_x i)" and "t' \<equiv> sint (rect_y i)" and "r' \<equiv> sint (rect_right i)" and "bt' \<equiv> sint (rect_bottom i)"
  obtains s1 s2 s3 s4 where "rect_subtract a b = s1 @ s2 @ s3 @ s4" "length s1 < 2" "length s2 < 2" "length s3 < 2" "length s4 < 2"
    "covered s1 = box l t r t'" "covered s2 = box l bt' r bt" "covered s3 = box l t' l' bt'" "covered s4 = box r' t' r bt'"
proof -
  note i = rect_intersect_corners [OF assms(1-3)]
  have c: "r = l + uint (rect_width a)" "bt = t + uint (rect_height a)" "r' = l' + uint (rect_width i)" "bt' = t' + uint (rect_height i)"
    using i by (simp_all add: l_def t_def r_def bt_def l'_def t'_def r'_def bt'_def)
  let ?s1 = "if t' > t then [rect_new (rect_x a) (rect_y a) (rect_width a) (rect_y i - rect_y a)] else []"
  let ?s2 = "if bt > bt' then [rect_new (rect_x a) (rect_bottom i) (rect_width a) (rect_bottom a - rect_bottom i)] else []"
  let ?s3 = "if l' > l then [rect_new (rect_x a) (rect_y i) (rect_x i - rect_x a) (rect_height i)] else []"
  let ?s4 = "if r > r' then [rect_new (rect_right i) (rect_y i) (rect_right a - rect_right i) (rect_height i)] else []"
  show ?thesis
  proof (rule that [of ?s1 ?s2 ?s3 ?s4])
    show "rect_subtract a b = ?s1 @ ?s2 @ ?s3 @ ?s4"
      using assms(4,5) by (simp add: rect_subtract_def assms(1) l_def t_def r_def bt_def l'_def t'_def r'_def bt'_def)
    show "covered ?s1 = box l t r t'"
      by (rule covered_if) (simp_all add: pixels_box uint_sint_diff box_empty c l_def t_def t'_def)
    show "covered ?s2 = box l bt' r bt"
      by (rule covered_if) (simp_all add: pixels_box uint_sint_diff box_empty c(1) l_def bt_def bt'_def)
    show "covered ?s3 = box l t' l' bt'"
      by (rule covered_if) (simp_all add: pixels_box uint_sint_diff box_empty c(4) l_def l'_def t'_def)
    show "covered ?s4 = box r' t' r bt'"
      by (rule covered_if) (simp_all add: pixels_box uint_sint_diff box_empty c(4) t'_def r_def r'_def)
  qed simp_all
qed

lemma sorted_wrt_apart_append:
  "sorted_wrt apart (rs @ ss) \<longleftrightarrow> sorted_wrt apart rs \<and> sorted_wrt apart ss \<and> covered rs \<inter> covered ss = {}"
  by (auto simp: sorted_wrt_append apart_def covered_def)

lemma sorted_wrt_single: "length rs < 2 \<Longrightarrow> sorted_wrt apart rs"
  by (cases rs) auto

lemma rect_subtract_spec:
  assumes "sane a" "sane b"
  shows "covered (rect_subtract a b) = pixels a - pixels b \<and> sorted_wrt apart (rect_subtract a b)"
proof (cases "rect_intersect a b")
  case None
  with rect_intersect_None [OF None assms] show ?thesis by (auto simp: rect_subtract_def pixels_empty)
next
  case (Some i)
  show ?thesis
  proof (cases "rect_is_empty a \<or> contains_rect b a")
    case True
    then have "pixels a - pixels b = {}"
    proof (cases "rect_is_empty a")
      case False
      with True assms show ?thesis by (auto simp: contains_rect_def pixels_def)
    qed (simp add: pixels_empty)
    moreover have "rect_subtract a b = []" using True by (auto simp: rect_subtract_def Some)
    ultimately show ?thesis by simp
  next
    case False
    note i = rect_intersect_corners [OF Some assms]
    from False obtain s1 s2 s3 s4 where s: "rect_subtract a b = s1 @ s2 @ s3 @ s4" "length s1 < 2" "length s2 < 2" "length s3 < 2" "length s4 < 2"
      "covered s1 = box (sint (rect_x a)) (sint (rect_y a)) (sint (rect_right a)) (sint (rect_y i))"
      "covered s2 = box (sint (rect_x a)) (sint (rect_bottom i)) (sint (rect_right a)) (sint (rect_bottom a))"
      "covered s3 = box (sint (rect_x a)) (sint (rect_y i)) (sint (rect_x i)) (sint (rect_bottom i))"
      "covered s4 = box (sint (rect_right i)) (sint (rect_y i)) (sint (rect_right a)) (sint (rect_bottom i))"
      using rect_subtract_slices [OF Some assms] by blast
    have p: "0 < uint (rect_width i)" "0 < uint (rect_height i)" using rect_intersect_Some [OF Some assms] by simp_all
    have "covered (rect_subtract a b) = pixels a - pixels i"
      unfolding s(1) covered_simps s(6-9) pixels_box i(5-8)
      by (rule box_slices) (use i(1-4) p in simp_all)
    also have "\<dots> = pixels a - pixels b" using rect_intersect_pixels [OF Some assms] by blast
    finally have "covered (rect_subtract a b) = pixels a - pixels b" .
    moreover have "sorted_wrt apart (rect_subtract a b)"
      unfolding s(1) sorted_wrt_apart_append covered_simps s(6-9) i(5-8)
      using s(2-5) i(1-4) p by (auto simp: sorted_wrt_single box_def)
    ultimately show ?thesis by simp
  qed
qed

subsection \<open>Visible parts\<close>

lemma visible_step_take: "visible_step occ current = take 32 (concat (map (\<lambda>r. rect_subtract r occ) current))"
proof -
  have inner: "fold (\<lambda>s nx. if length nx < 32 then nx @ [s] else nx) ss nx = take 32 (nx @ ss)" if "length nx \<le> 32" for ss nx :: "Rect list"
    using that by (induction ss arbitrary: nx) (auto simp: take_Cons')
  have "fold (\<lambda>r nx. fold (\<lambda>s nx. if length nx < 32 then nx @ [s] else nx) (rect_subtract r occ) nx) current nx =
      take 32 (nx @ concat (map (\<lambda>r. rect_subtract r occ) current))" if "length nx \<le> 32" for nx
    using that
  proof (induction current arbitrary: nx)
    case (Cons r current)
    have "length (take 32 (nx @ rect_subtract r occ)) \<le> 32" by simp
    note IH = Cons.IH [OF this]
    show ?case
      using Cons.prems IH by (cases "length (nx @ rect_subtract r occ) \<le> 32") (simp_all add: inner)
  qed simp
  from this [of "[]"] show ?thesis by (simp add: visible_step_def)
qed

text \<open>The pieces without the limit of the array, and whether they stay within it.\<close>

definition pieces :: "Rect \<Rightarrow> Rect list \<Rightarrow> Rect list" where
  "pieces occ current = concat (map (\<lambda>r. rect_subtract r occ) current)"

fun fits :: "Rect list \<Rightarrow> Rect list \<Rightarrow> bool" where
  "fits [] current = True"
| "fits (occ # occs) current =
     (if rect_is_empty occ then fits occs current
      else length (pieces occ current) \<le> 32 \<and> fits occs (pieces occ current))"

lemma covered_pieces:
  assumes "\<forall>r \<in> set current. sane r" "sane occ"
  shows "covered (pieces occ current) = covered current - pixels occ"
  using assms by (induction current) (auto simp: pieces_def rect_subtract_spec)

lemma pieces_sane: "\<forall>r \<in> set current. sane r \<Longrightarrow> sane occ \<Longrightarrow> r \<in> set (pieces occ current) \<Longrightarrow> sane r"
  by (auto simp: pieces_def intro: rect_subtract_sane)

lemma pieces_apart:
  assumes "\<forall>r \<in> set current. sane r" "sane occ" "sorted_wrt apart current"
  shows "sorted_wrt apart (pieces occ current)"
  using assms
proof (induction current)
  case (Cons r current)
  have "covered (rect_subtract r occ) \<inter> covered (pieces occ current) = {}"
  proof -
    have "pixels r \<inter> covered current = {}" using Cons.prems(3) by (auto simp: apart_def covered_def)
    moreover have "covered (rect_subtract r occ) \<subseteq> pixels r" "covered (pieces occ current) \<subseteq> covered current"
      using Cons.prems covered_pieces [of current occ] rect_subtract_spec [of r occ] by auto
    ultimately show ?thesis by blast
  qed
  with Cons show ?case by (simp add: pieces_def sorted_wrt_apart_append rect_subtract_spec)
qed (simp add: pieces_def)

lemma covered_take: "covered (take n rs) \<subseteq> covered rs"
  by (auto simp: covered_def dest: in_set_takeD)

lemma sorted_wrt_take: "sorted_wrt P xs \<Longrightarrow> sorted_wrt P (take n xs)"
  by (metis append_take_drop_id sorted_wrt_append)

lemma visible_loop_spec:
  assumes "\<forall>r \<in> set current. sane r" "\<forall>r \<in> set occs. sane r" "sorted_wrt apart current" "length current \<le> 32"
  shows "length (visible_loop occs current) \<le> 32 \<and> (\<forall>r \<in> set (visible_loop occs current). sane r) \<and>
    sorted_wrt apart (visible_loop occs current) \<and> covered (visible_loop occs current) \<subseteq> covered current - covered occs \<and>
    (fits occs current \<longrightarrow> covered (visible_loop occs current) = covered current - covered occs)"
  using assms
proof (induction occs arbitrary: current)
  case (Cons occ occs)
  show ?case
  proof (cases "rect_is_empty occ \<or> current = []")
    case True
    then show ?thesis using Cons by (auto simp: pixels_empty)
  next
    case False
    let ?next = "visible_step occ current"
    have n: "?next = take 32 (pieces occ current)" by (simp add: visible_step_take pieces_def)
    have prem: "\<forall>r \<in> set ?next. sane r" "sorted_wrt apart ?next" "length ?next \<le> 32"
      using Cons.prems pieces_sane [of current occ] pieces_apart [of current occ]
      by (auto simp: n sorted_wrt_take dest: in_set_takeD)
    have c: "covered (pieces occ current) = covered current - pixels occ" using Cons.prems by (simp add: covered_pieces)
    then have "covered ?next \<subseteq> covered current - pixels occ" using covered_take [of 32 "pieces occ current"] by (simp add: n)
    moreover have "fits (occ # occs) current \<Longrightarrow> fits occs ?next \<and> covered ?next = covered current - pixels occ"
      using False by (simp add: n c)
    ultimately show ?thesis using False Cons.IH [OF prem(1) _ prem(2,3)] Cons.prems(2) by auto
  qed
qed auto

lemma length_pieces: "length (pieces occ current) \<le> 4 * length current"
proof (induction current)
  case (Cons r current)
  then show ?case using rect_subtract_length [of r occ] by (simp add: pieces_def)
qed (simp add: pieces_def)

lemma two_occluders_fit: "length occs \<le> 2 \<Longrightarrow> fits occs [target]"
proof -
  assume "length occs \<le> 2"
  then consider "occs = []" | o1 where "occs = [o1]" | o1 o2 where "occs = [o1, o2]"
    by (cases occs; cases "tl occs") (auto simp: Suc_length_conv neq_Nil_conv)
  moreover have "length (pieces o1 [target]) \<le> 32 \<and> length (pieces o2 (pieces o1 [target])) \<le> 32" "length (pieces o2 [target]) \<le> 32" for o1 o2
    using length_pieces [of o1 "[target]"] length_pieces [of o2 "[target]"] length_pieces [of o2 "pieces o1 [target]"] by simp_all
  ultimately show ?thesis by cases simp_all
qed

text \<open>
  C28. The visible parts of a rectangle under occluders are at most 32 disjoint rectangles that lie inside it and outside
  every occluder; as long as no step produces more than 32 pieces, and always with at most two occluders, they are all
  of its visible pixels.
\<close>

theorem visible_rects_exact:
  assumes "sane target" "\<forall>r \<in> set occluders. sane r"
  defines "vis \<equiv> compute_visible_rects target occluders"
  shows "length vis \<le> 32 \<and> (\<forall>r \<in> set vis. sane r) \<and> sorted_wrt apart vis \<and> covered vis \<subseteq> pixels target - covered occluders \<and>
    (fits occluders [target] \<or> length occluders \<le> 2 \<longrightarrow> covered vis = pixels target - covered occluders)"
  using visible_loop_spec [of "[target]" occluders] assms(1,2) two_occluders_fit [of occluders target]
  by (auto simp: vis_def compute_visible_rects_def pixels_empty)

definition ten_square :: Rect where
  "ten_square = rect_new 0 0 10 10"

theorem visible_rects_exact_witness:
  "sane ten_square \<and> sane (rect_new 2 2 3 3) \<and>
   covered (compute_visible_rects ten_square [rect_new 2 2 3 3]) = pixels ten_square - covered [rect_new 2 2 3 3]"
  using visible_rects_exact [of ten_square "[rect_new 2 2 3 3]"] by (simp add: sane_def ten_square_def)

end
