(* ===== verification/Damage.thy ===== *)
theory Damage
  imports Geometry
begin

text \<open>
  The damage region of a frame (\<^verbatim>\<open>kernel_rs/src/damage.rs\<close>): an array of sixteen dirty rectangles with a
  counter. Adding a rectangle merges it with every rectangle it overlaps or touches; when the array is full
  everything becomes one bounding rectangle. No damage is ever lost, and the rectangles stay disjoint.
  Unlike the geometry module this code adds coordinates without saturation, so the statements are about
  rectangles within a quarter of the coordinate range.
\<close>

definition MAX_DIRTY_RECTS :: nat where
  "MAX_DIRTY_RECTS = 16"

record DamageRegion =
  dr_rects :: "Rect list"
  dr_count :: nat

definition DamageRegion_new :: DamageRegion where
  "DamageRegion_new = \<lparr>dr_rects = replicate MAX_DIRTY_RECTS rect_empty, dr_count = 0\<rparr>"

definition damage_is_empty :: "DamageRegion \<Rightarrow> bool" where
  "damage_is_empty d \<longleftrightarrow> dr_count d = 0"

definition damage_rects :: "DamageRegion \<Rightarrow> Rect list" where
  "damage_rects d = take (dr_count d) (dr_rects d)"

definition damage_clear :: "DamageRegion \<Rightarrow> DamageRegion" where
  "damage_clear d = d\<lparr>dr_count := 0\<rparr>"

definition rects_overlap_or_adjacent :: "Rect \<Rightarrow> Rect \<Rightarrow> bool" where
  "rects_overlap_or_adjacent a b =
     (let a_x1 = rect_x a + rect_width a;
          a_y1 = rect_y a + rect_height a;
          b_x1 = rect_x b + rect_width b;
          b_y1 = rect_y b + rect_height b
      in \<not> (sint (rect_x b) > sint a_x1 \<or> sint b_x1 < sint (rect_x a) \<or>
             sint (rect_y b) > sint a_y1 \<or> sint b_y1 < sint (rect_y a)))"

definition union_rect :: "Rect \<Rightarrow> Rect \<Rightarrow> Rect" where
  "union_rect a b =
     (let x0 = imin (rect_x a) (rect_x b);
          y0 = imin (rect_y a) (rect_y b);
          x1 = imax (rect_x a + rect_width a) (rect_x b + rect_width b);
          y1 = imax (rect_y a + rect_height a) (rect_y b + rect_height b)
      in rect_new x0 y0 (imax (x1 - x0) 0) (imax (y1 - y0) 0))"

text \<open>The merge loop; after a merge the scan starts over.\<close>

function add_loop :: "Rect list \<Rightarrow> nat \<Rightarrow> nat \<Rightarrow> Rect \<Rightarrow> Rect list \<times> nat \<times> Rect" where
  "add_loop rects count i new_rect =
     (if i < count then
        if rects_overlap_or_adjacent (rects ! i) new_rect
        then add_loop (rects[i := rects ! (count - 1), count - 1 := rects ! i]) (count - 1) 0 (union_rect (rects ! i) new_rect)
        else add_loop rects count (i + 1) new_rect
      else (rects, count, new_rect))"
  by pat_completeness auto
termination
  by (relation "measures [\<lambda>(_, count, _, _). count, \<lambda>(_, count, i, _). count - i]") auto

declare add_loop.simps [simp del]

definition add_rect :: "Rect \<Rightarrow> DamageRegion \<Rightarrow> DamageRegion" where
  "add_rect new_rect d =
     (if rect_width new_rect = 0 \<or> rect_height new_rect = 0 then d
      else case add_loop (dr_rects d) (dr_count d) 0 new_rect of
             (rects, count, new_rect) \<Rightarrow>
               if count < MAX_DIRTY_RECTS then \<lparr>dr_rects = rects[count := new_rect], dr_count = count + 1\<rparr>
               else \<lparr>dr_rects = rects[0 := fold (\<lambda>r bounding. union_rect bounding r) (take count rects) new_rect], dr_count = 1\<rparr>)"

definition total_pixels :: "DamageRegion \<Rightarrow> u64" where
  "total_pixels d = sum_list (map (\<lambda>r. ucast (rect_width r) * ucast (rect_height r)) (damage_rects d))"

subsection \<open>Rectangles near the origin\<close>

definition near :: "Rect \<Rightarrow> bool" where
  "near r \<longleftrightarrow> - (2 ^ 30) \<le> sint (rect_x r) \<and> sint (rect_x r) + uint (rect_width r) < 2 ^ 30 \<and>
     - (2 ^ 30) \<le> sint (rect_y r) \<and> sint (rect_y r) + uint (rect_height r) < 2 ^ 30"

lemma near_sint_add:
  "- (2 ^ 30) \<le> sint x \<Longrightarrow> sint x + uint w < 2 ^ 30 \<Longrightarrow> sint (x + w :: i32) = sint x + uint w"
proof -
  assume x: "- (2 ^ 30) \<le> sint x" "sint x + uint w < 2 ^ 30"
  then have "sint w = uint w" by (intro sint_small) simp
  with x show ?thesis using sint_add_small [of x w] uint_ge_0 [of w] by simp
qed

lemma near_far [simp]:
  "near r \<Longrightarrow> sint (rect_x r + rect_width r) = sint (rect_x r) + uint (rect_width r)"
  "near r \<Longrightarrow> sint (rect_y r + rect_height r) = sint (rect_y r) + uint (rect_height r)"
  by (simp_all add: near_def near_sint_add)

lemma near_sane: "near r \<Longrightarrow> sane r"
  by (auto simp: near_def sane_def)

lemma sint_diff_small:
  "sint b \<le> sint a \<Longrightarrow> sint a - sint b < 2 ^ 31 \<Longrightarrow> uint (imax (a - b) 0 :: i32) = sint a - sint b"
  using uint_sint_diff [of b a] sint_small [of "a - b"] by (simp add: imax_def)

lemma span_bound:
  fixes x y w v :: int
  assumes "- (2 ^ 30) \<le> x" "x + w < 2 ^ 30" "- (2 ^ 30) \<le> y" "y + v < 2 ^ 30" "0 \<le> w"
  shows "min x y \<le> max (x + w) (y + v) \<and> max (x + w) (y + v) - min x y < 2 ^ 31"
  using assms by auto

lemma union_rect_corners:
  assumes "near a" "near b"
  shows "sint (rect_x (union_rect a b)) = min (sint (rect_x a)) (sint (rect_x b))"
    "sint (rect_y (union_rect a b)) = min (sint (rect_y a)) (sint (rect_y b))"
    "sint (rect_x (union_rect a b)) + uint (rect_width (union_rect a b)) =
       max (sint (rect_x a) + uint (rect_width a)) (sint (rect_x b) + uint (rect_width b))"
    "sint (rect_y (union_rect a b)) + uint (rect_height (union_rect a b)) =
       max (sint (rect_y a) + uint (rect_height a)) (sint (rect_y b) + uint (rect_height b))"
proof -
  have n: "sint (rect_x a + rect_width a) = sint (rect_x a) + uint (rect_width a)" "sint (rect_x b + rect_width b) = sint (rect_x b) + uint (rect_width b)"
    "sint (rect_y a + rect_height a) = sint (rect_y a) + uint (rect_height a)" "sint (rect_y b + rect_height b) = sint (rect_y b) + uint (rect_height b)"
    using assms by simp_all
  have "uint (imax (imax (rect_x a + rect_width a) (rect_x b + rect_width b) - imin (rect_x a) (rect_x b)) 0) =
      sint (imax (rect_x a + rect_width a) (rect_x b + rect_width b)) - sint (imin (rect_x a) (rect_x b))"
    using assms span_bound [of "sint (rect_x a)" "uint (rect_width a)" "sint (rect_x b)" "uint (rect_width b)"]
    by (intro sint_diff_small) (simp_all add: near_def n)
  moreover have "uint (imax (imax (rect_y a + rect_height a) (rect_y b + rect_height b) - imin (rect_y a) (rect_y b)) 0) =
      sint (imax (rect_y a + rect_height a) (rect_y b + rect_height b)) - sint (imin (rect_y a) (rect_y b))"
    using assms span_bound [of "sint (rect_y a)" "uint (rect_height a)" "sint (rect_y b)" "uint (rect_height b)"]
    by (intro sint_diff_small) (simp_all add: near_def n)
  ultimately show "sint (rect_x (union_rect a b)) = min (sint (rect_x a)) (sint (rect_x b))"
    "sint (rect_y (union_rect a b)) = min (sint (rect_y a)) (sint (rect_y b))"
    "sint (rect_x (union_rect a b)) + uint (rect_width (union_rect a b)) =
       max (sint (rect_x a) + uint (rect_width a)) (sint (rect_x b) + uint (rect_width b))"
    "sint (rect_y (union_rect a b)) + uint (rect_height (union_rect a b)) =
       max (sint (rect_y a) + uint (rect_height a)) (sint (rect_y b) + uint (rect_height b))"
    by (simp_all add: union_rect_def Let_def n)
qed

lemma union_rect_near: "near a \<Longrightarrow> near b \<Longrightarrow> near (union_rect a b)"
  using union_rect_corners [of a b] by (auto simp: near_def)

lemma union_rect_pixels: "near a \<Longrightarrow> near b \<Longrightarrow> pixels a \<union> pixels b \<subseteq> pixels (union_rect a b)"
  using union_rect_corners [of a b] by (auto simp: pixels_def)

lemma not_touching_apart: "near a \<Longrightarrow> near b \<Longrightarrow> \<not> rects_overlap_or_adjacent a b \<Longrightarrow> apart a b"
  by (auto simp: rects_overlap_or_adjacent_def Let_def apart_def pixels_def)

subsection \<open>The invariant\<close>

text \<open>The live rectangles are near, non-empty and pairwise disjoint.\<close>

definition live_ok :: "Rect list \<Rightarrow> nat \<Rightarrow> bool" where
  "live_ok rects count \<longleftrightarrow> (\<forall>i < count. near (rects ! i) \<and> \<not> rect_is_empty (rects ! i)) \<and>
     (\<forall>i < count. \<forall>j < count. i \<noteq> j \<longrightarrow> apart (rects ! i) (rects ! j))"

definition damage_wf :: "DamageRegion \<Rightarrow> bool" where
  "damage_wf d \<longleftrightarrow> length (dr_rects d) = MAX_DIRTY_RECTS \<and> dr_count d \<le> MAX_DIRTY_RECTS \<and> live_ok (dr_rects d) (dr_count d)"

lemma union_not_empty: "near a \<Longrightarrow> near b \<Longrightarrow> \<not> rect_is_empty a \<Longrightarrow> \<not> rect_is_empty (union_rect a b)"
proof -
  assume n: "near a" "near b" "\<not> rect_is_empty a"
  then have "0 < uint (rect_width a)" "0 < uint (rect_height a)"
    by (simp_all add: rect_is_empty_def uint_0_iff order_less_le)
  then have "0 < uint (rect_width (union_rect a b))" "0 < uint (rect_height (union_rect a b))"
    using union_rect_corners [OF n(1,2)] by auto
  then show ?thesis by (auto simp: rect_is_empty_def)
qed

lemma covered_nth: "n \<le> length rs \<Longrightarrow> covered (take n rs) = (\<Union>i < n. pixels (rs ! i))"
proof -
  assume "n \<le> length rs"
  then have "set (take n rs) = (!) rs ` {..<n}" using nth_image [of n rs] by (simp add: lessThan_atLeast0)
  then show ?thesis by (simp add: covered_def)
qed

lemma swap_out:
  assumes "i < count" "count \<le> length rects" "live_ok rects count"
  defines "rects' \<equiv> rects[i := rects ! (count - 1), count - 1 := rects ! i]"
  shows "live_ok rects' (count - 1)" "length rects' = length rects"
    "covered (take count rects) = covered (take (count - 1) rects') \<union> pixels (rects ! i)"
proof -
  have n: "rects' ! j = (if j = i then rects ! (count - 1) else rects ! j)" if "j < count - 1" for j
    using that assms(1,2) by (simp add: rects'_def nth_list_update)
  then show "live_ok rects' (count - 1)" using assms(1,3) by (simp add: live_ok_def)
  show l: "length rects' = length rects" by (simp add: rects'_def)
  have c: "{..<count} = insert i ((\<lambda>j. if j = i then count - 1 else j) ` {..<count - 1})"
    using assms(1) by (auto simp: image_iff less_Suc_eq_le)
  have "(\<Union>j < count. pixels (rects ! j)) = pixels (rects ! i) \<union> (\<Union>j < count - 1. pixels (rects' ! j))"
  proof -
    have "(\<Union>j < count - 1. pixels (rects' ! j)) = (\<Union>j < count - 1. pixels (rects ! (if j = i then count - 1 else j)))"
      by (rule SUP_cong) (simp_all add: n)
    also have "\<dots> = (\<Union>k \<in> (\<lambda>j. if j = i then count - 1 else j) ` {..<count - 1}. pixels (rects ! k))" by blast
    finally show ?thesis unfolding c by (simp only: UN_insert)
  qed
  then show "covered (take count rects) = covered (take (count - 1) rects') \<union> pixels (rects ! i)"
    using assms(2) l by (simp add: covered_nth Un_commute)
qed

lemma add_loop_spec:
  assumes "add_loop rects count i r = (rects', count', r')" "count \<le> length rects" "live_ok rects count"
    and "near r" "\<not> rect_is_empty r" "\<forall>j < i. \<not> rects_overlap_or_adjacent (rects ! j) r"
  shows "length rects' = length rects \<and> count' \<le> count \<and> live_ok rects' count' \<and> near r' \<and> \<not> rect_is_empty r' \<and>
    (\<forall>j < count'. \<not> rects_overlap_or_adjacent (rects' ! j) r') \<and>
    covered (take count rects) \<union> pixels r \<subseteq> covered (take count' rects') \<union> pixels r'"
  using assms
proof (induction rects count i r rule: add_loop.induct)
  case (1 rects count i r)
  show ?case
  proof (cases "i < count \<and> rects_overlap_or_adjacent (rects ! i) r")
    case True
    let ?rects = "rects[i := rects ! (count - 1), count - 1 := rects ! i]" and ?r = "union_rect (rects ! i) r"
    note sw = swap_out [OF conjunct1 [OF True] "1.prems"(2,3)]
    have o: "near (rects ! i)" "\<not> rect_is_empty (rects ! i)" using True "1.prems"(3) by (simp_all add: live_ok_def)
    have eq: "add_loop ?rects (count - 1) 0 ?r = (rects', count', r')" using "1.prems"(1) True by (simp add: add_loop.simps [of rects])
    have "count - 1 \<le> length ?rects" using "1.prems"(2) by simp
    from "1.IH"(1) [OF conjunct1 [OF True] conjunct2 [OF True] eq this sw(1)] show ?thesis
      using o "1.prems"(4) union_rect_near union_not_empty union_rect_pixels [of "rects ! i" r] sw by auto
  next
    case False
    show ?thesis
    proof (cases "i < count")
      case True
      with False have no: "\<not> rects_overlap_or_adjacent (rects ! i) r" by simp
      have "\<forall>j < i + 1. \<not> rects_overlap_or_adjacent (rects ! j) r" using "1.prems"(6) no by (auto simp: less_Suc_eq)
      moreover have "add_loop rects count (i + 1) r = (rects', count', r')"
        using "1.prems"(1) True no by (simp add: add_loop.simps [of rects count i])
      ultimately show ?thesis using "1.IH"(2) [OF True no] "1.prems"(2-5) by blast
    next
      case False
      then show ?thesis using "1.prems" by (auto simp: add_loop.simps [of rects count i])
    qed
  qed
qed

lemma bounding_spec:
  assumes "near b" "\<forall>r \<in> set rs. near r"
  defines "h \<equiv> fold (\<lambda>r bounding. union_rect bounding r) rs b"
  shows "near h \<and> pixels b \<union> covered rs \<subseteq> pixels h \<and> (\<not> rect_is_empty b \<longrightarrow> \<not> rect_is_empty h)"
  unfolding h_def using assms(1,2)
proof (induction rs arbitrary: b)
  case (Cons r rs)
  have u: "near (union_rect b r)" "pixels b \<union> pixels r \<subseteq> pixels (union_rect b r)"
    using Cons.prems union_rect_near [of b r] union_rect_pixels [of b r] by simp_all
  have "\<forall>r \<in> set rs. near r" using Cons.prems by simp
  from Cons.IH [OF u(1) this] u(2) union_not_empty [of b r] Cons.prems show ?case by (simp, blast)
qed simp

lemma add_rect_spec:
  assumes "damage_wf d" "near r"
  shows "damage_wf (add_rect r d) \<and> covered (damage_rects d) \<union> pixels r \<subseteq> covered (damage_rects (add_rect r d))"
proof (cases "rect_is_empty r")
  case True
  with assms show ?thesis by (simp add: add_rect_def rect_is_empty_def pixels_empty)
next
  case False
  obtain rects count r' where l: "add_loop (dr_rects d) (dr_count d) 0 r = (rects, count, r')" by (metis prod_cases3)
  have wf: "dr_count d \<le> length (dr_rects d)" "live_ok (dr_rects d) (dr_count d)" "length (dr_rects d) = MAX_DIRTY_RECTS"
    using assms(1) by (simp_all add: damage_wf_def)
  from add_loop_spec [OF l wf(1,2) assms(2) False]
  have s: "length rects = MAX_DIRTY_RECTS" "count \<le> MAX_DIRTY_RECTS" "live_ok rects count" "near r'" "\<not> rect_is_empty r'"
    "\<forall>j < count. \<not> rects_overlap_or_adjacent (rects ! j) r'"
    "covered (damage_rects d) \<union> pixels r \<subseteq> covered (take count rects) \<union> pixels r'"
    using wf assms(1) by (auto simp: damage_rects_def damage_wf_def)
  have ap: "apart (rects ! j) r'" "apart r' (rects ! j)" if "j < count" for j
    using s(3-6) that not_touching_apart [of "rects ! j" r'] by (auto simp: live_ok_def apart_def)
  show ?thesis
  proof (cases "count < MAX_DIRTY_RECTS")
    case True
    then have "add_rect r d = \<lparr>dr_rects = rects[count := r'], dr_count = count + 1\<rparr>"
      using False l by (simp add: add_rect_def rect_is_empty_def)
    moreover have "live_ok (rects[count := r']) (count + 1)"
      using s(1,3-5) ap True by (auto simp: live_ok_def less_Suc_eq nth_list_update)
    moreover have "covered (take (count + 1) (rects[count := r'])) = covered (take count rects) \<union> pixels r'"
      using True s(1) by (simp add: take_Suc_conv_app_nth)
    ultimately show ?thesis using s True by (simp add: damage_wf_def damage_rects_def)
  next
    case False
    let ?h = "fold (\<lambda>r bounding. union_rect bounding r) (take count rects) r'"
    have "add_rect r d = \<lparr>dr_rects = rects[0 := ?h], dr_count = 1\<rparr>"
      using False \<open>\<not> rect_is_empty r\<close> l by (simp add: add_rect_def rect_is_empty_def)
    moreover have "\<forall>r \<in> set (take count rects). near r" using s(1-3) by (auto simp: live_ok_def in_set_conv_nth)
    moreover have "take 1 (rects[0 := ?h]) = [?h]" using s(1) by (cases rects) (simp_all add: MAX_DIRTY_RECTS_def)
    ultimately show ?thesis
      using bounding_spec [OF s(4), of "take count rects"] s by (auto simp: damage_wf_def damage_rects_def live_ok_def MAX_DIRTY_RECTS_def)
  qed
qed

text \<open>
  C29. No damage is lost: however many rectangles are added to a fresh region, the region stays within sixteen non-empty,
  pairwise disjoint rectangles, and they cover every pixel of every rectangle added.
\<close>

theorem damage_region_covers:
  assumes "\<forall>r \<in> set rs. near r"
  defines "d \<equiv> fold add_rect rs DamageRegion_new"
  shows "damage_wf d \<and> dr_count d \<le> 16 \<and> covered rs \<subseteq> covered (damage_rects d)"
proof -
  have "damage_wf (fold add_rect rs e) \<and> covered rs \<union> covered (damage_rects e) \<subseteq> covered (damage_rects (fold add_rect rs e))"
    if "damage_wf e" for e
    using that assms(1)
  proof (induction rs arbitrary: e)
    case (Cons r rs)
    have a: "damage_wf (add_rect r e)" "covered (damage_rects e) \<union> pixels r \<subseteq> covered (damage_rects (add_rect r e))"
      using Cons.prems add_rect_spec [of e r] by simp_all
    have "\<forall>r \<in> set rs. near r" using Cons.prems by simp
    from Cons.IH [OF a(1) this] a(2) show ?case by (simp, blast)
  qed simp
  from this [of DamageRegion_new] show ?thesis
    by (auto simp: d_def damage_wf_def DamageRegion_new_def live_ok_def MAX_DIRTY_RECTS_def)
qed

theorem damage_region_covers_witness:
  "near ten_square \<and> near (rect_new 5 5 20 20) \<and>
   covered [ten_square, rect_new 5 5 20 20] \<subseteq> covered (damage_rects (fold add_rect [ten_square, rect_new 5 5 20 20] DamageRegion_new))"
  using damage_region_covers [of "[ten_square, rect_new 5 5 20 20]"] by (simp add: near_def ten_square_def)

end
