(* ===== verification/Compositing.thy ===== *)
theory Compositing
  imports Damage Bytes
begin

text \<open>
  Composition of the desktop: the CPU renderer's clipped blit (\<^verbatim>\<open>kernel_rs/src/renderer.rs\<close>) and the
  composition pass of \<^verbatim>\<open>present\<close> in \<^verbatim>\<open>kernel_rs/src/window_manager.rs\<close>. Buffers are lists of
  pixels in rows; a slice access out of range is a panic, \<open>None\<close>. The reference is the painter's algorithm: every
  window drawn in full, bottom to top.
\<close>

subsection \<open>The renderer\<close>

definition irange :: "i32 \<Rightarrow> i32 \<Rightarrow> i32 list" where
  "irange a b = map word_of_int [sint a .. sint b - 1]"

definition copy_span :: "nat \<Rightarrow> nat \<Rightarrow> nat \<Rightarrow> u32 list \<Rightarrow> u32 list \<Rightarrow> u32 list option" where
  "copy_span dst_off src_off n src dst =
     (if dst_off + n \<le> length dst \<and> src_off + n \<le> length src then Some (put_bytes dst_off (get_bytes src_off n src) dst) else None)"

definition blit_row :: "u32 \<Rightarrow> u32 list \<Rightarrow> u32 \<Rightarrow> i32 \<Rightarrow> i32 \<Rightarrow> Rect \<Rightarrow> i32 \<Rightarrow> u32 list \<Rightarrow> u32 list option" where
  "blit_row fb_width src_buf src_w dst_x dst_y rc sy bb =
     (let local_y = sy - dst_y;
          local_x = rect_x rc - dst_x;
          src_off = unat (local_y * src_w + local_x);
          dst_off = unat (sy * fb_width + rect_x rc)
      in copy_span dst_off src_off (unat (rect_width rc)) src_buf bb)"

definition blit_rows :: "u32 \<Rightarrow> u32 list \<Rightarrow> u32 \<Rightarrow> i32 \<Rightarrow> i32 \<Rightarrow> Rect \<Rightarrow> u32 list \<Rightarrow> u32 list option" where
  "blit_rows fb_width src_buf src_w dst_x dst_y rc =
     fold_opt (blit_row fb_width src_buf src_w dst_x dst_y rc) (irange (rect_y rc) (rect_bottom rc))"

definition blit_surface_clipped ::
    "u32 \<Rightarrow> u32 \<Rightarrow> u32 list \<Rightarrow> u32 \<Rightarrow> u32 \<Rightarrow> i32 \<Rightarrow> i32 \<Rightarrow> Rect \<Rightarrow> Rect list \<Rightarrow> u32 list \<Rightarrow> u32 list option" where
  "blit_surface_clipped fb_width fb_height src_buf src_w src_h dst_x dst_y clip_rect occluders bb =
     (case rect_intersect (rect_new dst_x dst_y src_w src_h) clip_rect of
        None \<Rightarrow> Some bb
      | Some target_rect \<Rightarrow>
          fold_opt (\<lambda>r bb.
            case rect_intersect r (rect_new 0 0 fb_width fb_height) of
              None \<Rightarrow> Some bb
            | Some rc \<Rightarrow> blit_rows fb_width src_buf src_w dst_x dst_y rc bb)
          (compute_visible_rects target_rect occluders) bb)"

subsection \<open>Windows\<close>

definition TITLE_BAR_HEIGHT :: u32 where
  "TITLE_BAR_HEIGHT = 20"

record Window =
  surface_object :: u32
  win_width :: u32
  win_height :: u32
  win_x :: i32
  win_y :: i32
  win_buffer :: "u32 list"
  title_buffer :: "u32 list"
  win_title :: "u8 list"

definition window_bounds :: "Window \<Rightarrow> Rect" where
  "window_bounds w = rect_new (win_x w) (win_y w - TITLE_BAR_HEIGHT) (win_width w) (win_height w + TITLE_BAR_HEIGHT)"

definition blit_window_clipped :: "u32 \<Rightarrow> u32 \<Rightarrow> Window \<Rightarrow> Rect list \<Rightarrow> u32 list \<Rightarrow> u32 list option" where
  "blit_window_clipped fb_width fb_height w occluders bb =
     (let screen_rect = rect_new 0 0 fb_width fb_height;
          bar_y = win_y w - TITLE_BAR_HEIGHT
      in case blit_surface_clipped fb_width fb_height (title_buffer w) (win_width w) TITLE_BAR_HEIGHT (win_x w) bar_y
                screen_rect occluders bb of
           None \<Rightarrow> None
         | Some bb \<Rightarrow>
             blit_surface_clipped fb_width fb_height (win_buffer w) (win_width w) (win_height w) (win_x w) (win_y w)
               screen_rect occluders bb)"

definition win_bounds :: "Window list \<Rightarrow> Rect list" where
  "win_bounds windows =
     (let bounds = map window_bounds (take 16 windows) in bounds @ replicate (16 - length bounds) rect_empty)"

text \<open>\<^verbatim>\<open>&win_bounds[i + 1..num_windows.min(16)]\<close>\<close>

definition occluders_above :: "Window list \<Rightarrow> nat \<Rightarrow> Rect list option" where
  "occluders_above windows i =
     (let stop = min (length windows) 16
      in if i + 1 \<le> stop then Some (get_bytes (i + 1) (stop - (i + 1)) (win_bounds windows)) else None)"

definition compose_step :: "u32 \<Rightarrow> u32 \<Rightarrow> Window list \<Rightarrow> nat \<Rightarrow> u32 list \<Rightarrow> u32 list option" where
  "compose_step fb_width fb_height windows i bb =
     (case occluders_above windows i of
        None \<Rightarrow> None
      | Some occluders \<Rightarrow> blit_window_clipped fb_width fb_height (windows ! i) occluders bb)"

definition compose_windows :: "u32 \<Rightarrow> u32 \<Rightarrow> Window list \<Rightarrow> u32 list \<Rightarrow> u32 list option" where
  "compose_windows fb_width fb_height windows bb =
     fold_opt (compose_step fb_width fb_height windows) [0..<length windows] bb"

subsection \<open>Pixels of a buffer\<close>

definition pixel :: "u32 \<Rightarrow> u32 list \<Rightarrow> int \<Rightarrow> int \<Rightarrow> u32" where
  "pixel width buf x y = buf ! nat (y * uint width + x)"

definition screen_ok :: "u32 \<Rightarrow> u32 \<Rightarrow> u32 list \<Rightarrow> bool" where
  "screen_ok w h buf \<longleftrightarrow> uint w < 2 ^ 31 \<and> uint h < 2 ^ 31 \<and> uint w * uint h < 2 ^ 32 \<and> int (length buf) = uint w * uint h"

lemma uint_offset: "uint a * uint b + uint c < 2 ^ 32 \<Longrightarrow> uint (a * b + c :: u32) = uint a * uint b + uint c"
  by (simp add: uint_word_ariths mod_simps)

lemma row_offset_less:
  fixes x y w h :: int
  assumes "0 \<le> x" "x < w" "0 \<le> y" "y < h"
  shows "0 \<le> y * w + x" "y * w + x < w * h"
proof -
  have "y * w \<le> (h - 1) * w" using assms by (intro mult_right_mono) auto
  then show "y * w + x < w * h" using assms by (simp add: algebra_simps)
  show "0 \<le> y * w + x" using assms by simp
qed

lemma row_offset_inj:
  fixes x y w :: int
  assumes "0 \<le> x" "x < w" "0 \<le> x'" "x' < w" "y * w + x = y' * w + x'"
  shows "x = x' \<and> y = y'"
proof -
  have "(x + y * w) div w = y" "(x' + y' * w) div w = y'" using assms(1-4) by (simp_all add: div_mult_self1)
  then have "y = y'" using assms(5) by (simp add: add.commute)
  with assms(5) show ?thesis by simp
qed

lemma span_fits: "0 \<le> (k :: int) \<Longrightarrow> k + int n \<le> int m \<Longrightarrow> nat k + n \<le> m"
  by linarith

text \<open>A step that changes exactly the pixels of a set, to given colours.\<close>

definition paints :: "u32 \<Rightarrow> u32 \<Rightarrow> (int \<times> int) set \<Rightarrow> (int \<Rightarrow> int \<Rightarrow> u32) \<Rightarrow> u32 list \<Rightarrow> u32 list \<Rightarrow> bool" where
  "paints w h S f buf buf' \<longleftrightarrow> length buf' = length buf \<and>
     (\<forall>x y. 0 \<le> x \<and> x < uint w \<and> 0 \<le> y \<and> y < uint h \<longrightarrow>
        pixel w buf' x y = (if (x, y) \<in> S then f x y else pixel w buf x y))"

lemma paints_refl: "paints w h {} f buf buf"
  by (simp add: paints_def)

lemma paints_trans: "paints w h S f buf buf1 \<Longrightarrow> paints w h T f buf1 buf2 \<Longrightarrow> paints w h (S \<union> T) f buf buf2"
  by (simp add: paints_def)

lemma paints_ok: "paints w h S f buf buf' \<Longrightarrow> screen_ok w h buf' = screen_ok w h buf"
  by (simp add: paints_def screen_ok_def)

lemma paints_cong:
  "paints w h S f buf buf' \<Longrightarrow> (\<And>x y. 0 \<le> x \<Longrightarrow> x < uint w \<Longrightarrow> 0 \<le> y \<Longrightarrow> y < uint h \<Longrightarrow> (x, y) \<in> S \<longleftrightarrow> (x, y) \<in> T) \<Longrightarrow>
   (\<And>x y. (x, y) \<in> S \<Longrightarrow> f x y = g x y) \<Longrightarrow> paints w h T g buf buf'"
  by (simp add: paints_def)

lemma paints_fold:
  assumes "\<And>r buf. r \<in> set rs \<Longrightarrow> screen_ok w h buf \<Longrightarrow> \<exists>buf'. step r buf = Some buf' \<and> paints w h (S r) f buf buf'"
    and "screen_ok w h buf"
  shows "\<exists>buf'. fold_opt step rs buf = Some buf' \<and> paints w h (\<Union>r \<in> set rs. S r) f buf buf'"
  using assms
proof (induction rs arbitrary: buf)
  case (Cons r rs)
  obtain buf1 where 1: "step r buf = Some buf1" "paints w h (S r) f buf buf1" using Cons.prems by (meson list.set_intros(1))
  then have "screen_ok w h buf1" using Cons.prems(2) by (simp add: paints_ok)
  then obtain buf' where 2: "fold_opt step rs buf1 = Some buf'" "paints w h (\<Union>r \<in> set rs. S r) f buf1 buf'"
    using Cons.IH [of buf1] Cons.prems(1) by (meson list.set_intros(2))
  from paints_trans [OF 1(2) 2(2)] 1(1) 2(1) show ?case by simp
qed (simp add: paints_refl)

lemma put_bytes_outside:
  "off + length v \<le> length b \<Longrightarrow> \<not> (off \<le> i \<and> i < off + length v) \<Longrightarrow> put_bytes off v b ! i = b ! i"
  by (subst nth_put_bytes) (assumption, simp only: if_False)

lemma copy_row:
  assumes ok: "screen_ok w h buf" and y: "0 \<le> y" "y < uint h" and x: "0 \<le> x0" "x0 + int n \<le> uint w" and src: "so + n \<le> length src"
  shows "\<exists>buf'. copy_span (nat (y * uint w + x0)) so n src buf = Some buf' \<and>
    paints w h ({x0 ..< x0 + int n} \<times> {y}) (\<lambda>x _. src ! (so + nat (x - x0))) buf buf'"
proof (cases "n = 0")
  case True
  have "nat (y * uint w + x0) \<le> length buf"
  proof -
    have "y * uint w \<le> (uint h - 1) * uint w" using y by (intro mult_right_mono) auto
    then have "y * uint w + x0 \<le> uint w * uint h" using x by (simp add: algebra_simps)
    then show ?thesis using ok by (auto simp: screen_ok_def nat_le_iff)
  qed
  with True src show ?thesis by (simp add: copy_span_def put_bytes_def get_bytes_def paints_def)
next
  case False
  let ?o = "nat (y * uint w + x0)"
  have "y * uint w + (x0 + int n - 1) < uint w * uint h" using False y x by (intro row_offset_less) auto
  moreover have "0 \<le> y * uint w + x0" using row_offset_less(1) [of x0 "uint w" y "uint h"] False y x by simp
  ultimately have fit: "?o + n \<le> length buf" using ok by (intro span_fits) (simp_all add: screen_ok_def)
  let ?buf = "put_bytes ?o (get_bytes so n src) buf"
  have "pixel w ?buf x y' = (if (x, y') \<in> {x0 ..< x0 + int n} \<times> {y} then src ! (so + nat (x - x0)) else pixel w buf x y')"
    if r: "0 \<le> x" "x < uint w" "0 \<le> y'" "y' < uint h" for x y'
  proof -
    let ?i = "nat (y' * uint w + x)"
    have nn: "0 \<le> y' * uint w + x" "0 \<le> y * uint w + x0"
      using row_offset_less(1) [OF r] row_offset_less(1) [of x0 "uint w" y "uint h"] y x False by auto
    have iff: "?o \<le> ?i \<and> ?i < ?o + n \<longleftrightarrow> x0 \<le> x \<and> x < x0 + int n \<and> y' = y"
    proof
      assume i: "?o \<le> ?i \<and> ?i < ?o + n"
      define k where "k = y' * uint w + x - (y * uint w + x0)"
      have k: "0 \<le> k" "k < int n" using i nn unfolding k_def by linarith+
      have "x = x0 + k \<and> y' = y"
        by (rule row_offset_inj [of x "uint w"]) (use r k x in \<open>simp_all add: k_def\<close>)
      then show "x0 \<le> x \<and> x < x0 + int n \<and> y' = y" using k by simp
    next
      assume "x0 \<le> x \<and> x < x0 + int n \<and> y' = y"
      then show "?o \<le> ?i \<and> ?i < ?o + n" using nn by (elim conjE, intro conjI) (simp_all, linarith+)
    qed
    show ?thesis
    proof (cases "x0 \<le> x \<and> x < x0 + int n \<and> y' = y")
      case True
      then have "?i - ?o = nat (x - x0)" using nn by simp
      moreover have "nat (x - x0) < n" using True by linarith
      moreover have "?buf ! ?i = get_bytes so n src ! (?i - ?o)" using True iff fit src by (simp add: nth_put_bytes)
      ultimately show ?thesis using True src by (simp add: pixel_def nth_get_bytes)
    next
      case False
      then have "\<not> (?o \<le> ?i \<and> ?i < ?o + n)" using iff by blast
      then have "?buf ! ?i = buf ! ?i" using fit src by (intro put_bytes_outside) simp_all
      then show ?thesis using False by (auto simp: pixel_def)
    qed
  qed
  then show ?thesis using fit src by (simp add: copy_span_def paints_def)
qed

subsection \<open>Blits\<close>

lemma uint_sint_nonneg: "0 \<le> sint a \<Longrightarrow> uint (a :: i32) = sint a"
  using uint_sint_diff [of 0 a] by simp

definition surface_pixels :: "i32 \<Rightarrow> i32 \<Rightarrow> u32 \<Rightarrow> u32 list \<Rightarrow> int \<Rightarrow> int \<Rightarrow> u32" where
  "surface_pixels dx dy w src x y = pixel w src (x - sint dx) (y - sint dy)"

lemma pixels_bounds:
  assumes "pixels rc \<subseteq> {l..<r} \<times> {t..<b}" "\<not> rect_is_empty rc"
  shows "l \<le> sint (rect_x rc)" "sint (rect_x rc) + uint (rect_width rc) \<le> r"
    "t \<le> sint (rect_y rc)" "sint (rect_y rc) + uint (rect_height rc) \<le> b"
proof -
  let ?x = "sint (rect_x rc)" and ?y = "sint (rect_y rc)"
  have "0 < uint (rect_width rc)" "0 < uint (rect_height rc)"
    using assms(2) by (auto simp: rect_is_empty_def uint_0_iff order_less_le)
  then have "(?x, ?y) \<in> pixels rc" "(?x + uint (rect_width rc) - 1, ?y + uint (rect_height rc) - 1) \<in> pixels rc"
    by (auto simp: pixels_def)
  then have "(?x, ?y) \<in> {l..<r} \<times> {t..<b}" "(?x + uint (rect_width rc) - 1, ?y + uint (rect_height rc) - 1) \<in> {l..<r} \<times> {t..<b}"
    using assms(1) by blast+
  then show "l \<le> ?x" "?x + uint (rect_width rc) \<le> r" "t \<le> ?y" "?y + uint (rect_height rc) \<le> b" by auto
qed

lemma blit_row_paints:
  assumes ok: "screen_ok fw fh bb" "screen_ok sw sh src"
    and rc: "pixels rc \<subseteq> pixels (rect_new dx dy sw sh)" "pixels rc \<subseteq> {0..<uint fw} \<times> {0..<uint fh}" "\<not> rect_is_empty rc"
    and sy: "sint (rect_y rc) \<le> sint sy" "sint sy < sint (rect_y rc) + uint (rect_height rc)"
  shows "\<exists>bb'. blit_row fw src sw dx dy rc sy bb = Some bb' \<and>
    paints fw fh ({sint (rect_x rc) ..< sint (rect_x rc) + uint (rect_width rc)} \<times> {sint sy}) (surface_pixels dx dy sw src) bb bb'"
proof -
  let ?x = "sint (rect_x rc)" and ?n = "unat (rect_width rc)"
  have pos: "0 < uint (rect_width rc)" using rc(3) by (auto simp: rect_is_empty_def uint_0_iff order_less_le)
  note i1 = pixels_bounds [OF rc(2,3)]
  have "pixels rc \<subseteq> {sint dx ..< sint dx + uint sw} \<times> {sint dy ..< sint dy + uint sh}" using rc(1) by (simp add: pixels_def)
  note i2 = pixels_bounds [OF this rc(3)]
  let ?lx = "?x - sint dx" and ?ly = "sint sy - sint dy"
  have dst: "unat (sy * fw + rect_x rc) = nat (sint sy * uint fw + ?x)"
  proof -
    have "0 \<le> sint sy" using sy i1 by linarith
    then have u: "uint sy = sint sy" "uint (rect_x rc) = ?x" using i1 by (simp_all add: uint_sint_nonneg)
    have "sint sy * uint fw + ?x < uint fw * uint fh" using sy i1 pos by (intro row_offset_less) linarith+
    moreover have "uint fw * uint fh < 2 ^ 32" using ok(1) by (simp add: screen_ok_def)
    ultimately have "uint sy * uint fw + uint (rect_x rc) < 2 ^ 32" unfolding u by (rule less_trans)
    from uint_offset [OF this] show ?thesis by (simp add: unat_eq_nat_uint u)
  qed
  have l: "0 \<le> ?lx" "?lx + uint (rect_width rc) \<le> uint sw" "0 \<le> ?ly" "?ly < uint sh" using sy i2 by linarith+
  have src: "unat ((sy - dy) * sw + (rect_x rc - dx)) = nat (?ly * uint sw + ?lx)"
  proof -
    have u: "uint (sy - dy) = ?ly" "uint (rect_x rc - dx) = ?lx" using l by (simp_all add: uint_sint_diff)
    have "?ly * uint sw + ?lx < uint sw * uint sh" using l pos by (intro row_offset_less) linarith+
    moreover have "uint sw * uint sh < 2 ^ 32" using ok(2) by (simp add: screen_ok_def)
    ultimately have "uint (sy - dy) * uint sw + uint (rect_x rc - dx) < 2 ^ 32" unfolding u by (rule less_trans)
    from uint_offset [OF this] show ?thesis by (simp add: unat_eq_nat_uint u)
  qed
  have nn: "0 \<le> ?ly * uint sw + ?lx" using l pos by (intro row_offset_less) linarith+
  have "?ly * uint sw + (?lx + uint (rect_width rc) - 1) < uint sw * uint sh" using l pos by (intro row_offset_less) linarith+
  then have fit: "nat (?ly * uint sw + ?lx) + ?n \<le> length src" using ok(2) nn by (intro span_fits) (simp_all add: screen_ok_def)
  have h: "0 \<le> sint sy" "sint sy < uint fh" "0 \<le> ?x" "?x + int ?n \<le> uint fw" using sy i1 by simp_all
  obtain bb' where bb': "copy_span (nat (sint sy * uint fw + ?x)) (nat (?ly * uint sw + ?lx)) ?n src bb = Some bb'"
      "paints fw fh ({?x ..< ?x + int ?n} \<times> {sint sy}) (\<lambda>x _. src ! (nat (?ly * uint sw + ?lx) + nat (x - ?x))) bb bb'"
    using copy_row [OF ok(1) h fit] by blast
  have "paints fw fh ({?x ..< ?x + uint (rect_width rc)} \<times> {sint sy}) (surface_pixels dx dy sw src) bb bb'"
  proof (rule paints_cong [OF bb'(2)])
    fix x y assume "(x, y) \<in> {?x ..< ?x + int ?n} \<times> {sint sy}"
    then have "y = sint sy" "?x \<le> x" by auto
    then have "nat (?ly * uint sw + ?lx) + nat (x - ?x) = nat ((y - sint dy) * uint sw + (x - sint dx))"
      using nn by (simp add: nat_add_distrib [symmetric])
    then show "src ! (nat (?ly * uint sw + ?lx) + nat (x - ?x)) = surface_pixels dx dy sw src x y"
      by (simp add: surface_pixels_def pixel_def)
  qed simp
  with bb'(1) show ?thesis by (simp add: blit_row_def Let_def dst src)
qed

lemma blit_rows_paints:
  assumes ok: "screen_ok fw fh bb" "screen_ok sw sh src" and rc: "sane rc"
    and inside: "pixels rc \<subseteq> pixels (rect_new dx dy sw sh)" "pixels rc \<subseteq> {0..<uint fw} \<times> {0..<uint fh}" "\<not> rect_is_empty rc"
  shows "\<exists>bb'. blit_rows fw src sw dx dy rc bb = Some bb' \<and> paints fw fh (pixels rc) (surface_pixels dx dy sw src) bb bb'"
proof -
  let ?rows = "irange (rect_y rc) (rect_bottom rc)" and ?X = "{sint (rect_x rc) ..< sint (rect_x rc) + uint (rect_width rc)}"
  have rows: "sint ` set ?rows = {sint (rect_y rc) ..< sint (rect_y rc) + uint (rect_height rc)}"
  proof -
    have "sint (word_of_int k :: i32) = k" if "k \<in> {sint (rect_y rc) .. sint (rect_bottom rc) - 1}" for k
      using that sint_range [of "rect_y rc"] sint_range [of "rect_bottom rc"] by (intro sint_of_int32) auto
    then show ?thesis using rc by (auto simp: irange_def image_iff)
  qed
  have "\<exists>bb'. blit_row fw src sw dx dy rc sy bb = Some bb' \<and> paints fw fh (?X \<times> {sint sy}) (surface_pixels dx dy sw src) bb bb'"
    if "sy \<in> set ?rows" "screen_ok fw fh bb" for sy bb
  proof -
    have "sint sy \<in> {sint (rect_y rc) ..< sint (rect_y rc) + uint (rect_height rc)}" using rows that(1) by blast
    then show ?thesis using blit_row_paints [OF that(2) ok(2) inside, of sy] by simp
  qed
  then have f: "\<exists>bb'. fold_opt (blit_row fw src sw dx dy rc) ?rows bb = Some bb' \<and>
      paints fw fh (\<Union>sy \<in> set ?rows. ?X \<times> {sint sy}) (surface_pixels dx dy sw src) bb bb'"
    by (intro paints_fold [OF _ ok(1)])
  have "(\<Union>sy \<in> set ?rows. ?X \<times> {sint sy}) = ?X \<times> sint ` set ?rows" by auto
  then have "(\<Union>sy \<in> set ?rows. ?X \<times> {sint sy}) = pixels rc" by (simp add: rows pixels_def)
  with f show ?thesis unfolding blit_rows_def by simp
qed

text \<open>The visible parts of the clipped surface stay within the array of the visibility computation.\<close>

definition fits_clipped :: "Rect list \<Rightarrow> Rect \<Rightarrow> Rect \<Rightarrow> bool" where
  "fits_clipped occs full clip = (case rect_intersect full clip of None \<Rightarrow> True | Some target \<Rightarrow> fits occs [target])"

lemma screen_sane: "screen_ok w h buf \<Longrightarrow> sane (rect_new 0 0 w h)"
  by (simp add: screen_ok_def sane_def)

lemma screen_pixels: "pixels (rect_new 0 0 w h) = {0..<uint w} \<times> {0..<uint h}"
  by (simp add: pixels_def)

lemma visible_blit_paints:
  assumes ok: "screen_ok fw fh bb" "screen_ok sw sh src" and r: "sane r" "pixels r \<subseteq> pixels (rect_new dx dy sw sh)"
  shows "\<exists>bb'. (case rect_intersect r (rect_new 0 0 fw fh) of None \<Rightarrow> Some bb | Some rc \<Rightarrow> blit_rows fw src sw dx dy rc bb) = Some bb' \<and>
    paints fw fh (pixels r) (surface_pixels dx dy sw src) bb bb'"
proof (cases "rect_intersect r (rect_new 0 0 fw fh)")
  case None
  then have "pixels r \<inter> ({0..<uint fw} \<times> {0..<uint fh}) = {}"
    using rect_intersect_None [OF None r(1) screen_sane [OF ok(1)]] by (simp add: screen_pixels)
  then have "paints fw fh (pixels r) (surface_pixels dx dy sw src) bb bb" by (auto simp: paints_def)
  with None show ?thesis by simp
next
  case (Some rc)
  note i = rect_intersect_Some [OF Some r(1) screen_sane [OF ok(1)]]
  have px: "pixels rc = pixels r \<inter> {0..<uint fw} \<times> {0..<uint fh}"
    using rect_intersect_pixels [OF Some r(1) screen_sane [OF ok(1)]] by (simp add: screen_pixels)
  have "\<not> rect_is_empty rc" using i(5,6) by (auto simp: rect_is_empty_def)
  from blit_rows_paints [OF ok i(7) _ _ this, of dx dy] px r(2)
  obtain bb' where bb': "blit_rows fw src sw dx dy rc bb = Some bb'" "paints fw fh (pixels rc) (surface_pixels dx dy sw src) bb bb'" by auto
  have "paints fw fh (pixels r) (surface_pixels dx dy sw src) bb bb'"
    by (rule paints_cong [OF bb'(2)]) (simp_all add: px)
  with bb'(1) Some show ?thesis by simp
qed

lemma blit_surface_paints:
  assumes ok: "screen_ok fw fh bb" "screen_ok sw sh src" and full: "sane (rect_new dx dy sw sh)" and clip: "sane clip"
    and occs: "\<forall>r \<in> set occs. sane r" "fits_clipped occs (rect_new dx dy sw sh) clip"
  shows "\<exists>bb'. blit_surface_clipped fw fh src sw sh dx dy clip occs bb = Some bb' \<and>
    paints fw fh (pixels (rect_new dx dy sw sh) \<inter> pixels clip - covered occs) (surface_pixels dx dy sw src) bb bb'"
proof (cases "rect_intersect (rect_new dx dy sw sh) clip")
  case None
  with rect_intersect_None [OF None full clip] show ?thesis by (simp add: blit_surface_clipped_def paints_def)
next
  case (Some target)
  let ?vis = "compute_visible_rects target occs"
  note t = rect_intersect_Some [OF Some full clip]
  have px: "pixels target = pixels (rect_new dx dy sw sh) \<inter> pixels clip" by (rule rect_intersect_pixels [OF Some full clip])
  have "\<not> rect_is_empty target" using t(5,6) by (auto simp: rect_is_empty_def)
  moreover have "fits occs [target]" using occs(2) Some by (simp add: fits_clipped_def)
  ultimately have vis: "\<forall>r \<in> set ?vis. sane r" "covered ?vis = pixels target - covered occs"
    using visible_loop_spec [of "[target]" occs] t(7) occs(1) by (simp_all add: compute_visible_rects_def)
  have "pixels r \<subseteq> pixels (rect_new dx dy sw sh)" if "r \<in> set ?vis" for r
    using vis(2) that px by (auto simp: covered_def)
  with vis(1) have "\<exists>bb'. fold_opt (\<lambda>r bb. case rect_intersect r (rect_new 0 0 fw fh) of None \<Rightarrow> Some bb
      | Some rc \<Rightarrow> blit_rows fw src sw dx dy rc bb) ?vis bb = Some bb' \<and> paints fw fh (\<Union>r \<in> set ?vis. pixels r) (surface_pixels dx dy sw src) bb bb'"
    by (intro paints_fold [OF visible_blit_paints]) (use ok in auto)
  with Some vis(2) px show ?thesis by (simp add: blit_surface_clipped_def covered_def)
qed

subsection \<open>Windows and the painter's algorithm\<close>

definition window_ok :: "Window \<Rightarrow> bool" where
  "window_ok w \<longleftrightarrow> screen_ok (win_width w) (win_height w) (win_buffer w) \<and> screen_ok (win_width w) TITLE_BAR_HEIGHT (title_buffer w) \<and>
     sane (rect_new (win_x w) (win_y w) (win_width w) (win_height w)) \<and>
     - (2 ^ 31) + 20 \<le> sint (win_y w) \<and> uint (win_height w) + 20 < 2 ^ 31"

definition title_rect :: "Window \<Rightarrow> Rect" where
  "title_rect w = rect_new (win_x w) (win_y w - TITLE_BAR_HEIGHT) (win_width w) TITLE_BAR_HEIGHT"

definition content_rect :: "Window \<Rightarrow> Rect" where
  "content_rect w = rect_new (win_x w) (win_y w) (win_width w) (win_height w)"

definition window_color :: "Window \<Rightarrow> int \<Rightarrow> int \<Rightarrow> u32" where
  "window_color w x y =
     (if y < sint (win_y w) then surface_pixels (win_x w) (win_y w - TITLE_BAR_HEIGHT) (win_width w) (title_buffer w) x y
      else surface_pixels (win_x w) (win_y w) (win_width w) (win_buffer w) x y)"

text \<open>The reference: windows drawn in full, from the bottom of the stack to the top.\<close>

fun painter :: "Window list \<Rightarrow> (int \<Rightarrow> int \<Rightarrow> u32) \<Rightarrow> int \<Rightarrow> int \<Rightarrow> u32" where
  "painter [] img = img"
| "painter (w # ws) img = painter ws (\<lambda>x y. if (x, y) \<in> pixels (window_bounds w) then window_color w x y else img x y)"

lemma painter_outside: "(x, y) \<notin> covered (map window_bounds ws) \<Longrightarrow> painter ws img x y = img x y"
  by (induction ws arbitrary: img) simp_all

lemma painter_inside: "(x, y) \<in> covered (map window_bounds ws) \<Longrightarrow> painter ws img x y = painter ws img' x y"
proof (induction ws arbitrary: img img')
  case (Cons w ws)
  show ?case
  proof (cases "(x, y) \<in> covered (map window_bounds ws)")
    case True
    then show ?thesis using Cons.IH by simp
  next
    case False
    with Cons.prems show ?thesis by (simp add: painter_outside)
  qed
qed simp

lemma painter_cong:
  "(\<And>x y. (x, y) \<notin> covered (map window_bounds ws) \<Longrightarrow> img x y = img' x y) \<Longrightarrow> painter ws img x y = painter ws img' x y"
  by (cases "(x, y) \<in> covered (map window_bounds ws)") (auto simp: painter_outside intro: painter_inside)

lemma title_height [simp]: "uint TITLE_BAR_HEIGHT = 20" "sint TITLE_BAR_HEIGHT = 20"
  by (simp_all add: TITLE_BAR_HEIGHT_def)

lemma sint_minus_small:
  "- (2 ^ 31) \<le> sint a - sint b \<Longrightarrow> sint a - sint b < 2 ^ 31 \<Longrightarrow> sint (a - b :: i32) = sint a - sint b"
  using sint_of_int32 [of "sint a - sint b"] by simp

lemma bar_y: "window_ok w \<Longrightarrow> sint (win_y w - TITLE_BAR_HEIGHT) = sint (win_y w) - 20"
  using sint_range [of "win_y w"] by (subst sint_minus_small) (simp_all add: window_ok_def)

lemma total_h: "window_ok w \<Longrightarrow> uint (win_height w + TITLE_BAR_HEIGHT) = uint (win_height w) + 20"
  by (simp add: window_ok_def uint_plus_if')

lemma window_rects:
  assumes "window_ok w"
  shows "sane (title_rect w)" "sane (content_rect w)" "sane (window_bounds w)"
    "pixels (window_bounds w) = pixels (title_rect w) \<union> pixels (content_rect w)"
    "(x, y) \<in> pixels (title_rect w) \<Longrightarrow> y < sint (win_y w)" "(x, y) \<in> pixels (content_rect w) \<Longrightarrow> sint (win_y w) \<le> y"
proof -
  define h where "h = uint (win_height w)"
  have "0 \<le> h" by (simp add: h_def)
  then show "sane (title_rect w)" "sane (content_rect w)" "sane (window_bounds w)"
    "pixels (window_bounds w) = pixels (title_rect w) \<union> pixels (content_rect w)"
    "(x, y) \<in> pixels (title_rect w) \<Longrightarrow> y < sint (win_y w)" "(x, y) \<in> pixels (content_rect w) \<Longrightarrow> sint (win_y w) \<le> y"
    using assms bar_y [OF assms] total_h [OF assms]
    by (auto simp: title_rect_def content_rect_def window_bounds_def window_ok_def sane_def pixels_def h_def [symmetric])
qed

lemma paints_seq:
  "paints w h S f buf buf1 \<Longrightarrow> paints w h T g buf1 buf2 \<Longrightarrow> paints w h (S \<union> T) (\<lambda>x y. if (x, y) \<in> T then g x y else f x y) buf buf2"
  by (simp add: paints_def)

lemma blit_window_paints:
  assumes ok: "screen_ok fw fh bb" "window_ok w" and occs: "\<forall>r \<in> set occs. sane r"
    and fit: "fits_clipped occs (title_rect w) (rect_new 0 0 fw fh)" "fits_clipped occs (content_rect w) (rect_new 0 0 fw fh)"
  shows "\<exists>bb'. blit_window_clipped fw fh w occs bb = Some bb' \<and>
    paints fw fh (pixels (window_bounds w) - covered occs) (window_color w) bb bb'"
proof -
  let ?screen = "rect_new 0 0 fw fh" and ?bar = "win_y w - TITLE_BAR_HEIGHT"
  note wr = window_rects [OF ok(2)] and sc = screen_sane [OF ok(1)]
  have bufs: "screen_ok (win_width w) TITLE_BAR_HEIGHT (title_buffer w)" "screen_ok (win_width w) (win_height w) (win_buffer w)"
    using ok(2) by (simp_all add: window_ok_def)
  obtain b1 where b1: "blit_surface_clipped fw fh (title_buffer w) (win_width w) TITLE_BAR_HEIGHT (win_x w) ?bar ?screen occs bb = Some b1"
      "paints fw fh (pixels (title_rect w) \<inter> pixels ?screen - covered occs) (surface_pixels (win_x w) ?bar (win_width w) (title_buffer w)) bb b1"
    using blit_surface_paints [OF ok(1) bufs(1) _ sc occs, of "win_x w" ?bar] wr(1) fit(1) by (auto simp: title_rect_def)
  have "screen_ok fw fh b1" using paints_ok [OF b1(2)] ok(1) by simp
  from blit_surface_paints [OF this bufs(2) _ sc occs, of "win_x w" "win_y w"] wr(2) fit(2)
  obtain b2 where b2: "blit_surface_clipped fw fh (win_buffer w) (win_width w) (win_height w) (win_x w) (win_y w) ?screen occs b1 = Some b2"
      "paints fw fh (pixels (content_rect w) \<inter> pixels ?screen - covered occs) (surface_pixels (win_x w) (win_y w) (win_width w) (win_buffer w)) b1 b2"
    by (auto simp: content_rect_def)
  have "paints fw fh (pixels (window_bounds w) - covered occs) (window_color w) bb b2"
  proof (rule paints_cong [OF paints_seq [OF b1(2) b2(2)]])
    fix x y assume "(x, y) \<in> pixels (title_rect w) \<inter> pixels ?screen - covered occs \<union> (pixels (content_rect w) \<inter> pixels ?screen - covered occs)"
    then show "(if (x, y) \<in> pixels (content_rect w) \<inter> pixels ?screen - covered occs
        then surface_pixels (win_x w) (win_y w) (win_width w) (win_buffer w) x y
        else surface_pixels (win_x w) ?bar (win_width w) (title_buffer w) x y) = window_color w x y"
      using wr(5) [of x y] wr(6) [of x y] by (auto simp: window_color_def)
  qed (auto simp: wr(4) screen_pixels)
  with b1(1) b2(1) show ?thesis by (simp add: blit_window_clipped_def Let_def)
qed

lemma occluders_above_eq:
  assumes "length ws \<le> 16" "i < length ws"
  shows "occluders_above ws i = Some (map window_bounds (drop (Suc i) ws))"
proof -
  have "win_bounds ws = map window_bounds ws @ replicate (16 - length ws) rect_empty"
    using assms(1) by (simp add: win_bounds_def)
  then show ?thesis using assms by (simp add: occluders_above_def get_bytes_def drop_map)
qed

definition stack_fits :: "u32 \<Rightarrow> u32 \<Rightarrow> Window list \<Rightarrow> bool" where
  "stack_fits fw fh ws \<longleftrightarrow> (\<forall>i < length ws.
     fits_clipped (map window_bounds (drop (Suc i) ws)) (title_rect (ws ! i)) (rect_new 0 0 fw fh) \<and>
     fits_clipped (map window_bounds (drop (Suc i) ws)) (content_rect (ws ! i)) (rect_new 0 0 fw fh))"

lemma compose_suffix:
  assumes "screen_ok fw fh bb" "\<forall>w \<in> set ws. window_ok w" "length ws \<le> 16" "stack_fits fw fh ws" "i \<le> length ws"
  shows "\<exists>bb'. fold_opt (compose_step fw fh ws) [i..<length ws] bb = Some bb' \<and> length bb' = length bb \<and>
    (\<forall>x y. 0 \<le> x \<and> x < uint fw \<and> 0 \<le> y \<and> y < uint fh \<longrightarrow> pixel fw bb' x y = painter (drop i ws) (pixel fw bb) x y)"
  using assms(1,5)
proof (induction "length ws - i" arbitrary: i bb)
  case 0
  then show ?case by simp
next
  case (Suc n)
  then have i: "i < length ws" by simp
  let ?occs = "map window_bounds (drop (Suc i) ws)"
  have occ: "occluders_above ws i = Some ?occs" by (rule occluders_above_eq [OF assms(3) i])
  have "\<forall>r \<in> set ?occs. sane r" using assms(2) by (auto dest!: in_set_dropD intro: window_rects(3))
  moreover have "window_ok (ws ! i)" using assms(2) i by simp
  ultimately obtain b1 where b1: "blit_window_clipped fw fh (ws ! i) ?occs bb = Some b1"
      "paints fw fh (pixels (window_bounds (ws ! i)) - covered ?occs) (window_color (ws ! i)) bb b1"
    using blit_window_paints [OF Suc.prems(1)] assms(4) i unfolding stack_fits_def by meson
  have e: "n = length ws - Suc i" using Suc.hyps(2) by simp
  have ok1: "screen_ok fw fh b1" using paints_ok [OF b1(2)] Suc.prems(1) by simp
  obtain bb' where bb': "fold_opt (compose_step fw fh ws) [Suc i..<length ws] b1 = Some bb'" "length bb' = length b1"
      "\<forall>x y. 0 \<le> x \<and> x < uint fw \<and> 0 \<le> y \<and> y < uint fh \<longrightarrow> pixel fw bb' x y = painter (drop (Suc i) ws) (pixel fw b1) x y"
    using Suc.hyps(1) [OF e ok1 Suc_leI [OF i]] by (elim exE conjE)
  have "painter (drop (Suc i) ws) (pixel fw b1) x y = painter (drop i ws) (pixel fw bb) x y"
    if "0 \<le> x" "x < uint fw" "0 \<le> y" "y < uint fh" for x y
  proof (cases "(x, y) \<in> covered ?occs")
    case True
    have "painter (drop i ws) (pixel fw bb) = painter (drop (Suc i) ws) (\<lambda>x y. if (x, y) \<in> pixels (window_bounds (ws ! i))
        then window_color (ws ! i) x y else pixel fw bb x y)"
      using i by (simp add: Cons_nth_drop_Suc [symmetric])
    then show ?thesis by (simp only: painter_inside [OF True, of "pixel fw b1"])
  next
    case False
    then show ?thesis using i b1(2) that by (simp add: Cons_nth_drop_Suc [symmetric] painter_outside paints_def)
  qed
  moreover have "length b1 = length bb" using b1(2) by (simp add: paints_def)
  moreover have "fold_opt (compose_step fw fh ws) [i..<length ws] bb = Some bb'"
    using bb'(1) b1(1) i by (simp add: upt_conv_Cons compose_step_def occ)
  ultimately show ?case using bb'(2,3) by simp
qed

text \<open>
  C30. Composing with occlusion culling is the painter's algorithm: with at most sixteen windows whose visible parts
  stay within the fixed arrays, the composition pass does not panic and every pixel of the back buffer is the one that
  drawing all windows in full, from the bottom of the stack to the top, would leave.
\<close>

theorem compose_is_painter:
  assumes "screen_ok fw fh bb" "\<forall>w \<in> set ws. window_ok w" "length ws \<le> 16" "stack_fits fw fh ws"
  shows "\<exists>bb'. compose_windows fw fh ws bb = Some bb' \<and> length bb' = length bb \<and>
    (\<forall>x y. 0 \<le> x \<and> x < uint fw \<and> 0 \<le> y \<and> y < uint fh \<longrightarrow> pixel fw bb' x y = painter ws (pixel fw bb) x y)"
  using compose_suffix [OF assms, of 0] by (simp add: compose_windows_def)

text \<open>
  C39. The seventeenth window crashes the compositor: with more than sixteen windows the composition pass slices its
  array of bounds with a start past its end and panics, whatever the windows are.
\<close>

theorem seventeen_windows_panic: "16 < length ws \<Longrightarrow> compose_windows fw fh ws bb = None"
proof -
  assume n: "16 < length ws"
  then have "[0..<length ws] = [0..<16] @ 16 # [17..<length ws]"
    using upt_add_eq_append [of 0 16 "length ws - 16"] by (simp add: upt_conv_Cons)
  moreover have "occluders_above ws 16 = None" using n by (simp add: occluders_above_def)
  ultimately show ?thesis by (simp add: compose_windows_def compose_step_def fold_opt_append split: option.split)
qed

definition small_window :: Window where
  "small_window = \<lparr>surface_object = 3, win_width = 2, win_height = 3, win_x = 1, win_y = 22,
     win_buffer = replicate 6 7, title_buffer = replicate 40 9, win_title = []\<rparr>"

theorem compose_is_painter_witness:
  "screen_ok 4 30 (replicate 120 0) \<and> window_ok small_window \<and> stack_fits 4 30 [small_window] \<and>
   (\<exists>bb. compose_windows 4 30 [small_window] (replicate 120 0) = Some bb \<and> length bb = 120)"
proof -
  have h: "screen_ok 4 30 (replicate 120 0)" "\<forall>w \<in> set [small_window]. window_ok w" "length [small_window] \<le> 16"
    by (simp_all add: screen_ok_def window_ok_def small_window_def sane_def TITLE_BAR_HEIGHT_def)
  have f: "stack_fits 4 30 [small_window]" by (simp add: stack_fits_def fits_clipped_def split: option.split)
  show ?thesis using compose_is_painter [OF h f] h f by auto
qed

theorem seventeen_windows_panic_witness:
  "16 < length (replicate 17 small_window) \<and> compose_windows 4 30 (replicate 17 small_window) (replicate 120 0) = None"
  using seventeen_windows_panic [of "replicate 17 small_window"] by simp

end
