(* ===== verification/Text.thy ===== *)
theory Text
  imports Compositing
begin

text \<open>
  Text in pixel buffers (\<^verbatim>\<open>kernel_rs/src/text.rs\<close>): glyph rows are copied from a table of all 256 row
  patterns that is rebuilt when the colours change. Drawing never leaves the buffer, so it never panics, and the table
  gives each pixel the colour its bit asks for. The font is read from boot memory once and is part of the state.
\<close>

definition GLYPH_WIDTH :: u32 where
  "GLYPH_WIDTH = 8"

record RowLut =
  lut_fg :: u32
  lut_bg :: u32
  lut_valid :: bool
  lut :: "u32 list list"

record font_state =
  glyph_height :: u32
  GLYPH_RAW_CACHE :: "u8 list list"
  ACTIVE_ROW_LUT :: RowLut

definition lut_row :: "u32 \<Rightarrow> u32 \<Rightarrow> u8 \<Rightarrow> u32 list" where
  "lut_row fg bg byte =
     map (\<lambda>m. if byte AND m \<noteq> 0 then fg else bg) [0x80, 0x40, 0x20, 0x10, 0x08, 0x04, 0x02, 0x01]"

definition ensure_row_lut :: "u32 \<Rightarrow> u32 \<Rightarrow> 'a font_state_scheme \<Rightarrow> 'a font_state_scheme" where
  "ensure_row_lut fg bg s =
     (if \<not> lut_valid (ACTIVE_ROW_LUT s) \<or> lut_fg (ACTIVE_ROW_LUT s) \<noteq> fg \<or> lut_bg (ACTIVE_ROW_LUT s) \<noteq> bg
      then s\<lparr>ACTIVE_ROW_LUT := \<lparr>lut_fg = fg, lut_bg = bg, lut_valid = True, lut = map (\<lambda>p. lut_row fg bg (of_nat p)) [0..<256]\<rparr>\<rparr>
      else s)"

text \<open>One row of a glyph; both branches of the source copy the first \<open>copy_w\<close> pixels.\<close>

definition glyph_row :: "u32 \<Rightarrow> u32 \<Rightarrow> u32 \<Rightarrow> nat \<Rightarrow> u8 \<Rightarrow> 'a font_state_scheme \<Rightarrow> nat \<Rightarrow> u32 list \<Rightarrow> u32 list option" where
  "glyph_row buf_width x y copy_w ch s row buf =
     (let row_byte = GLYPH_RAW_CACHE s ! unat ch ! row;
          row_pixels = lut (ACTIVE_ROW_LUT s) ! unat row_byte;
          dst_off = unat ((y + of_nat row) * buf_width + x)
      in copy_span dst_off 0 copy_w row_pixels buf)"

definition blit_glyph_to_buffer ::
    "u32 \<Rightarrow> u32 \<Rightarrow> u32 \<Rightarrow> u32 \<Rightarrow> u8 \<Rightarrow> u32 \<Rightarrow> u32 \<Rightarrow> 'a font_state_scheme \<Rightarrow> u32 list \<Rightarrow> ('a font_state_scheme \<times> u32 list) option" where
  "blit_glyph_to_buffer buf_width buf_height x y ch fg bg s buf =
     (let h = glyph_height s
      in if h = 0 \<or> y \<ge> buf_height \<or> x \<ge> buf_width then Some (s, buf)
         else
           (let s = ensure_row_lut fg bg s;
                max_rows = min (min h 16) (buf_height - y);
                copy_w = unat (min GLYPH_WIDTH (buf_width - x))
            in map_option (Pair s) (fold_opt (glyph_row buf_width x y copy_w ch s) [0..<unat max_rows] buf)))"

fun draw_chars ::
    "u32 \<Rightarrow> u32 \<Rightarrow> u32 \<Rightarrow> u32 \<Rightarrow> u32 \<Rightarrow> u8 list \<Rightarrow> u32 \<Rightarrow> u32 \<Rightarrow> 'a font_state_scheme \<Rightarrow> u32 list \<Rightarrow> ('a font_state_scheme \<times> u32 list) option" where
  "draw_chars buf_width buf_height x y i [] fg bg s buf = Some (s, buf)"
| "draw_chars buf_width buf_height x y i (ch # chs) fg bg s buf =
     (let cx = x + i * GLYPH_WIDTH
      in if cx \<ge> buf_width then Some (s, buf)
         else case blit_glyph_to_buffer buf_width buf_height cx y ch fg bg s buf of
                None \<Rightarrow> None
              | Some (s, buf) \<Rightarrow> draw_chars buf_width buf_height x y (i + 1) chs fg bg s buf)"

definition draw_text_to_buffer ::
    "u32 \<Rightarrow> u32 \<Rightarrow> u32 \<Rightarrow> u32 \<Rightarrow> u8 list \<Rightarrow> u32 \<Rightarrow> u32 \<Rightarrow> 'a font_state_scheme \<Rightarrow> u32 list \<Rightarrow> ('a font_state_scheme \<times> u32 list) option" where
  "draw_text_to_buffer buf_width buf_height x y chs fg bg s buf =
     (if y \<ge> buf_height \<or> x \<ge> buf_width then Some (s, buf)
      else draw_chars buf_width buf_height x y 0 chs fg bg (ensure_row_lut fg bg s) buf)"

subsection \<open>The font state\<close>

definition lut_ok :: "RowLut \<Rightarrow> bool" where
  "lut_ok l \<longleftrightarrow> (lut_valid l \<longrightarrow> lut l = map (\<lambda>p. lut_row (lut_fg l) (lut_bg l) (of_nat p)) [0..<256])"

definition font_ok :: "'a font_state_scheme \<Rightarrow> bool" where
  "font_ok s \<longleftrightarrow> length (GLYPH_RAW_CACHE s) = 256 \<and> (\<forall>g \<in> set (GLYPH_RAW_CACHE s). length g = 16) \<and> lut_ok (ACTIVE_ROW_LUT s)"

lemma length_lut_row [simp]: "length (lut_row fg bg byte) = 8"
  by (simp add: lut_row_def)

lemma ensure_row_lut_spec:
  assumes "font_ok s"
  shows "font_ok (ensure_row_lut fg bg s)" "lut (ACTIVE_ROW_LUT (ensure_row_lut fg bg s)) = map (\<lambda>p. lut_row fg bg (of_nat p)) [0..<256]"
    "glyph_height (ensure_row_lut fg bg s) = glyph_height s" "GLYPH_RAW_CACHE (ensure_row_lut fg bg s) = GLYPH_RAW_CACHE s"
    "font_state.more (ensure_row_lut fg bg s) = font_state.more s"
  using assms by (auto simp: ensure_row_lut_def font_ok_def lut_ok_def)

text \<open>Bit \<open>7 - c\<close> of the pattern decides the colour of column \<open>c\<close>.\<close>

lemma lut_row_bits: "lut_row fg bg byte = map (\<lambda>k. if bit byte k then fg else bg) [7, 6, 5, 4, 3, 2, 1, 0]"
  unfolding lut_row_def list.map bit_iff_and_push_bit_not_eq_0 by simp

lemma lut_row_bit: "c < 8 \<Longrightarrow> lut_row fg bg byte ! c = (if bit byte (7 - c) then fg else bg)"
proof -
  assume c: "c < 8"
  have "[7, 6, 5, 4, 3, 2, 1, 0 :: nat] = map (\<lambda>c. 7 - c) [0..<8]" by (simp add: upt_rec)
  then show ?thesis unfolding lut_row_bits using c by simp
qed

lemma glyph_row_spec:
  assumes ok: "screen_ok w h buf" "font_ok s" and l: "lut (ACTIVE_ROW_LUT s) = map (\<lambda>p. lut_row fg bg (of_nat p)) [0..<256]"
    and x: "x < w" "n \<le> 8" "uint x + int n \<le> uint w" and y: "uint y + int row < uint h" "row < 16"
  shows "\<exists>buf'. glyph_row w x y n ch s row buf = Some buf' \<and>
    paints w h ({uint x ..< uint x + int n} \<times> {uint y + int row})
      (\<lambda>px _. if bit (GLYPH_RAW_CACHE s ! unat ch ! row) (7 - nat (px - uint x)) then fg else bg) buf buf'"
proof -
  let ?byte = "GLYPH_RAW_CACHE s ! unat ch ! row"
  have u8: "unat c < 256" for c :: u8 using unsigned_less [of c, where ?'a = nat] by simp
  then have pix: "lut (ACTIVE_ROW_LUT s) ! unat ?byte = lut_row fg bg ?byte" by (simp add: l)
  have hh: "uint h < 2 ^ 31" "uint w * uint h < 2 ^ 32" using ok(1) by (simp_all add: screen_ok_def)
  have yr: "uint (y + of_nat row) = uint y + int row"
  proof -
    have "uint (of_nat row :: u32) = int row" using y(2) by (simp add: unsigned_of_nat take_bit_nat_eq_self)
    then show ?thesis using y(1) hh(1) by (simp add: uint_plus_if')
  qed
  have "(uint y + int row) * uint w + uint x < uint w * uint h"
    using x y by (intro row_offset_less) (auto simp: word_less_def)
  then have "uint (y + of_nat row) * uint w + uint x < 2 ^ 32" using hh(2) unfolding yr by (rule less_trans)
  from uint_offset [OF this] have off: "unat ((y + of_nat row) * w + x) = nat ((uint y + int row) * uint w + uint x)"
    by (simp add: unat_eq_nat_uint yr)
  have fit: "0 + n \<le> length (lut_row fg bg ?byte)" using x(2) by simp
  obtain buf' where b: "copy_span (nat ((uint y + int row) * uint w + uint x)) 0 n (lut_row fg bg ?byte) buf = Some buf'"
      "paints w h ({uint x ..< uint x + int n} \<times> {uint y + int row}) (\<lambda>px _. lut_row fg bg ?byte ! (0 + nat (px - uint x))) buf buf'"
    using copy_row [OF ok(1) _ y(1) _ x(3) fit] by auto
  have "paints w h ({uint x ..< uint x + int n} \<times> {uint y + int row}) (\<lambda>px _. if bit ?byte (7 - nat (px - uint x)) then fg else bg) buf buf'"
    by (rule paints_cong [OF b(2)]) (use x(2) in \<open>auto simp: lut_row_bit nat_less_iff\<close>)
  with b(1) show ?thesis by (simp add: glyph_row_def Let_def pix off)
qed

lemma uint_min: "uint (min a b :: u32) = min (uint a) (uint b)"
  by (simp add: min_def word_le_def)

lemma blit_glyph_spec:
  assumes ok: "screen_ok w h buf" "font_ok s"
  shows "\<exists>s' buf'. blit_glyph_to_buffer w h x y ch fg bg s buf = Some (s', buf') \<and> screen_ok w h buf' \<and> font_ok s' \<and>
    font_state.more s' = font_state.more s \<and> glyph_height s' = glyph_height s \<and> length buf' = length buf"
proof (cases "glyph_height s = 0 \<or> y \<ge> h \<or> x \<ge> w")
  case True
  with assms show ?thesis by (auto simp: blit_glyph_to_buffer_def)
next
  case False
  let ?s = "ensure_row_lut fg bg s" and ?rows = "min (min (glyph_height s) 16) (h - y)" and ?n = "unat (min GLYPH_WIDTH (w - x))"
  note e = ensure_row_lut_spec [OF ok(2), of fg bg]
  have d: "uint (w - x) = uint w - uint x" "uint (h - y) = uint h - uint y" "x < w"
    using False by (auto simp: uint_sub_if' not_le word_less_def)
  have "int ?n = min 8 (uint w - uint x)" by (simp add: uint_min GLYPH_WIDTH_def d)
  then have n: "?n \<le> 8" "uint x + int ?n \<le> uint w" by linarith+
  have "int (unat ?rows) = min (min (uint (glyph_height s)) 16) (uint h - uint y)" by (simp add: uint_min d)
  then have rows: "row < 16 \<and> uint y + int row < uint h" if "row < unat ?rows" for row using that by linarith
  have "\<exists>buf'. glyph_row w x y ?n ch ?s row buf = Some buf' \<and> paints w h ({uint x ..< uint x + int ?n} \<times> {uint y + int row})
      (\<lambda>px py. if bit (GLYPH_RAW_CACHE ?s ! unat ch ! nat (py - uint y)) (7 - nat (px - uint x)) then fg else bg) buf buf'"
    if r: "row \<in> set [0..<unat ?rows]" and sc: "screen_ok w h buf" for row buf
  proof -
    obtain buf' where b: "glyph_row w x y ?n ch ?s row buf = Some buf'" "paints w h ({uint x ..< uint x + int ?n} \<times> {uint y + int row})
      (\<lambda>px _. if bit (GLYPH_RAW_CACHE ?s ! unat ch ! row) (7 - nat (px - uint x)) then fg else bg) buf buf'"
      using glyph_row_spec [OF sc e(1,2) d(3) n, of y row ch] rows [of row] r by auto
    from b(1) paints_cong [OF b(2)] show ?thesis by auto
  qed
  then have "\<exists>buf'. fold_opt (glyph_row w x y ?n ch ?s) [0..<unat ?rows] buf = Some buf' \<and>
      paints w h (\<Union>row \<in> set [0..<unat ?rows]. {uint x ..< uint x + int ?n} \<times> {uint y + int row})
        (\<lambda>px py. if bit (GLYPH_RAW_CACHE ?s ! unat ch ! nat (py - uint y)) (7 - nat (px - uint x)) then fg else bg) buf buf'"
    by (intro paints_fold [OF _ ok(1)])
  then obtain buf' where b: "fold_opt (glyph_row w x y ?n ch ?s) [0..<unat ?rows] buf = Some buf'"
    "length buf' = length buf" by (auto simp: paints_def)
  moreover have "screen_ok w h buf'" using ok(1) b(2) by (simp add: screen_ok_def)
  ultimately show ?thesis using False e by (simp add: blit_glyph_to_buffer_def Let_def)
qed

lemma draw_chars_spec:
  assumes "screen_ok w h buf" "font_ok s"
  shows "\<exists>s' buf'. draw_chars w h x y i chs fg bg s buf = Some (s', buf') \<and> screen_ok w h buf' \<and> font_ok s' \<and>
    font_state.more s' = font_state.more s \<and> glyph_height s' = glyph_height s \<and> length buf' = length buf"
  using assms
proof (induction chs arbitrary: i s buf)
  case (Cons ch chs)
  show ?case
  proof (cases "x + i * GLYPH_WIDTH \<ge> w")
    case False
    obtain s1 b1 where 1: "blit_glyph_to_buffer w h (x + i * GLYPH_WIDTH) y ch fg bg s buf = Some (s1, b1)" "screen_ok w h b1" "font_ok s1"
        "font_state.more s1 = font_state.more s" "glyph_height s1 = glyph_height s" "length b1 = length buf"
      using blit_glyph_spec [OF Cons.prems] by blast
    then show ?thesis using Cons.IH [OF 1(2,3), of "i + 1"] False by (auto simp: Let_def)
  qed (use Cons.prems in auto)
qed auto

lemma draw_text_spec:
  assumes "screen_ok w h buf" "font_ok s"
  shows "\<exists>s' buf'. draw_text_to_buffer w h x y chs fg bg s buf = Some (s', buf') \<and> screen_ok w h buf' \<and> font_ok s' \<and>
    font_state.more s' = font_state.more s \<and> glyph_height s' = glyph_height s \<and> length buf' = length buf"
  using draw_chars_spec [OF assms(1) ensure_row_lut_spec(1) [OF assms(2)], of x y 0 chs fg bg fg bg] assms
    ensure_row_lut_spec [OF assms(2), of fg bg]
  by (auto simp: draw_text_to_buffer_def)

end
