(* ===== verification/Window_Manager.thy ===== *)
theory Window_Manager
  imports Text Event_Rings
begin

text \<open>
  The window manager (\<^verbatim>\<open>kernel_rs/src/window_manager.rs\<close>): the window list in stacking order, title bars,
  surface operations, hit testing, focus, dragging and damage. Calls that draw to the display are recorded in the order
  they are made. A panic (a slice out of range, \<^verbatim>\<open>clamp\<close> with its bounds crossed) is \<open>None\<close>.
  The last part bounds what any sequence of window operations and mouse reports can do.
\<close>

subsection \<open>State\<close>

definition MAX_TITLE_LEN :: nat where
  "MAX_TITLE_LEN = 24"

datatype display_call =
    RedrawRect i32 i32 u32 u32
  | Present
  | DrawCursor
  | RequestPresentation bool
  | TryPresentPending
  | MoveCursorOverlay i32 i32 i32 i32

record wm_state = font_state +
  WINDOWS :: "Window list"
  CURSOR_X :: i32
  CURSOR_Y :: i32
  LEFT_BUTTON_DOWN :: bool
  DRAGGING :: "(u32 \<times> i32 \<times> i32) option"
  GLOBAL_DAMAGE :: DamageRegion
  WINDOW_DIRTY :: bool
  CURSOR_DIRTY :: bool
  FOCUSED_SURFACE :: u32
  INPUT_QUEUE :: input_queue
  display_calls :: "display_call list"

definition call_display :: "display_call \<Rightarrow> wm_state \<Rightarrow> wm_state" where
  "call_display c s = s\<lparr>display_calls := display_calls s @ [c]\<rparr>"

definition mark_window_dirty :: "wm_state \<Rightarrow> wm_state" where
  "mark_window_dirty s = s\<lparr>WINDOW_DIRTY := True\<rparr>"

definition mark_cursor_dirty :: "wm_state \<Rightarrow> wm_state" where
  "mark_cursor_dirty s = s\<lparr>CURSOR_DIRTY := True\<rparr>"

definition add_damage_rect :: "Rect \<Rightarrow> wm_state \<Rightarrow> wm_state" where
  "add_damage_rect r s = mark_window_dirty (s\<lparr>GLOBAL_DAMAGE := add_rect r (GLOBAL_DAMAGE s)\<rparr>)"

definition clear_damage_rects :: "wm_state \<Rightarrow> wm_state" where
  "clear_damage_rects s = s\<lparr>GLOBAL_DAMAGE := damage_clear (GLOBAL_DAMAGE s)\<rparr>"

definition set_focus :: "u32 \<Rightarrow> wm_state \<Rightarrow> wm_state" where
  "set_focus surface s = s\<lparr>FOCUSED_SURFACE := surface\<rparr>"

subsection \<open>Title bars\<close>

definition fill_range :: "nat \<Rightarrow> nat \<Rightarrow> u32 \<Rightarrow> u32 list \<Rightarrow> u32 list option" where
  "fill_range from n c buf = (if from + n \<le> length buf then Some (put_bytes from (replicate n c) buf) else None)"

definition set_pixel :: "nat \<Rightarrow> u32 \<Rightarrow> u32 list \<Rightarrow> u32 list option" where
  "set_pixel i c buf = (if i < length buf then Some (buf[i := c]) else None)"

definition control_dot :: "u32 \<Rightarrow> u32 \<Rightarrow> i32 \<Rightarrow> i32 \<Rightarrow> u32 \<Rightarrow> u32 \<Rightarrow> int \<times> int \<Rightarrow> u32 list \<Rightarrow> u32 list option" where
  "control_dot buf_width buf_height cx cy inner_color ring_color d buf =
     (case d of (a, b) \<Rightarrow>
        let py = cy + word_of_int b; px = cx + word_of_int a; d2 = a * a + b * b
        in if sint py < 0 \<or> sint py \<ge> sint buf_height then Some buf
           else if d2 \<le> 9 \<and> sint px \<ge> 0 \<and> sint px < sint buf_width
           then set_pixel (unat (py * buf_width + px)) (if d2 \<le> 4 then inner_color else ring_color) buf
           else Some buf)"

definition draw_control_button :: "u32 \<Rightarrow> u32 \<Rightarrow> i32 \<Rightarrow> i32 \<Rightarrow> u32 \<Rightarrow> u32 \<Rightarrow> u32 list \<Rightarrow> u32 list option" where
  "draw_control_button buf_width buf_height cx cy inner_color ring_color =
     fold_opt (control_dot buf_width buf_height cx cy inner_color ring_color)
       (concat (map (\<lambda>b. map (\<lambda>a. (a, b)) [-3..3]) [-3..3]))"

definition draw_dots :: "u32 \<Rightarrow> bool \<Rightarrow> u32 list \<Rightarrow> u32 list option" where
  "draw_dots width is_active =
     fold_opt (\<lambda>(cx, inner, ring). draw_control_button width TITLE_BAR_HEIGHT cx 10 inner ring)
       (if is_active then [(12, 0xEF4444, 0x991B1B), (24, 0xF59E0B, 0x92400E), (36, 0x10B981, 0x065F46)]
        else [(12, 0x475569, 0x334155), (24, 0x475569, 0x334155), (36, 0x475569, 0x334155)])"

definition title_borders :: "u32 \<Rightarrow> u32 list \<Rightarrow> u32 list option" where
  "title_borders width =
     fold_opt (\<lambda>y buf. let row = unat (of_nat y * width)
                in Option.bind (set_pixel row 0x334155 buf) (set_pixel (row + (unat width - 1)) 0x334155)) [0..<unat TITLE_BAR_HEIGHT]"

text \<open>A zero width makes \<^verbatim>\<open>width as usize - 1\<close> wrap, and the store that follows panics.\<close>

definition render_title_bar ::
    "u32 \<Rightarrow> u8 list \<Rightarrow> bool \<Rightarrow> 'a font_state_scheme \<Rightarrow> u32 list \<Rightarrow> ('a font_state_scheme \<times> u32 list) option" where
  "render_title_bar width title is_active s buf =
     (let bg = (if is_active then 0x1E293B else 0x0F172A);
          top_color = (if is_active then 0x38BDF8 else 0x1E293B);
          buf = replicate (length buf) bg
      in if width = 0 then None
         else Option.bind (fill_range 0 (unat width) top_color buf) (\<lambda>buf.
              Option.bind (fill_range (unat ((TITLE_BAR_HEIGHT - 1) * width)) (unat width) 0x334155 buf) (\<lambda>buf.
              Option.bind (title_borders width buf) (\<lambda>buf.
              Option.bind (if width \<ge> 48 then draw_dots width is_active buf else Some buf) (\<lambda>buf.
              draw_text_to_buffer width TITLE_BAR_HEIGHT (if width \<ge> 48 then 48 else 4) 2 (take MAX_TITLE_LEN title)
                (if is_active then 0xF8FAFC else 0x64748B) bg s buf)))))"

definition render_window_title :: "Window list \<Rightarrow> nat \<Rightarrow> wm_state \<Rightarrow> wm_state option" where
  "render_window_title windows i s =
     (let w = windows ! i
      in map_option (\<lambda>(s, buf). s\<lparr>WINDOWS := (WINDOWS s)[i := w\<lparr>title_buffer := buf\<rparr>]\<rparr>)
           (render_title_bar (win_width w) (win_title w) (i = length windows - 1) s (title_buffer w)))"

definition update_window_focus_visuals :: "wm_state \<Rightarrow> wm_state option" where
  "update_window_focus_visuals s =
     fold_opt (\<lambda>i s. render_window_title (WINDOWS s) i s) [0..<length (WINDOWS s)] s"

subsection \<open>The window list\<close>

definition find_window :: "u32 \<Rightarrow> wm_state \<Rightarrow> Window option" where
  "find_window ob s = List.find (\<lambda>w. surface_object w = ob) (WINDOWS s)"

definition update_window :: "u32 \<Rightarrow> (Window \<Rightarrow> Window) \<Rightarrow> wm_state \<Rightarrow> wm_state" where
  "update_window ob f s = s\<lparr>WINDOWS := update_first (\<lambda>w. surface_object w = ob) f (WINDOWS s)\<rparr>"

definition register_window :: "u32 \<Rightarrow> i32 \<Rightarrow> i32 \<Rightarrow> u32 \<Rightarrow> u32 \<Rightarrow> u8 list \<Rightarrow> wm_state \<Rightarrow> wm_state option" where
  "register_window ob x y width height title s =
     (let t = take MAX_TITLE_LEN title
      in Option.bind (render_title_bar width t True s (replicate (unat width * unat TITLE_BAR_HEIGHT) 0)) (\<lambda>(s, tbuf).
           update_window_focus_visuals (s\<lparr>WINDOWS := WINDOWS s @
             [\<lparr>surface_object = ob, win_width = width, win_height = height, win_x = x, win_y = y,
               win_buffer = replicate (unat width * unat height) 0, title_buffer = tbuf, win_title = t\<rparr>]\<rparr>)))"

definition window_exists :: "u32 \<Rightarrow> wm_state \<Rightarrow> bool" where
  "window_exists ob s = (\<exists>w \<in> set (WINDOWS s). surface_object w = ob)"

definition remove_nth :: "nat \<Rightarrow> 'b list \<Rightarrow> 'b list" where
  "remove_nth i xs = take i xs @ drop (Suc i) xs"

definition raise_window :: "u32 \<Rightarrow> wm_state \<Rightarrow> (bool \<times> wm_state) option" where
  "raise_window ob s =
     (case position (\<lambda>w. surface_object w = ob) (WINDOWS s) of
        Some pos \<Rightarrow>
          if pos + 1 < length (WINDOWS s)
          then map_option (Pair True)
                 (update_window_focus_visuals (s\<lparr>WINDOWS := remove_nth pos (WINDOWS s) @ [WINDOWS s ! pos]\<rparr>))
          else Some (False, s)
      | None \<Rightarrow> Some (False, s))"

definition unregister_window :: "u32 \<Rightarrow> wm_state \<Rightarrow> (bool \<times> wm_state) option" where
  "unregister_window ob s =
     (case position (\<lambda>w. surface_object w = ob) (WINDOWS s) of
        Some pos \<Rightarrow>
          (let w = WINDOWS s ! pos
           in Option.bind (update_window_focus_visuals (s\<lparr>WINDOWS := remove_nth pos (WINDOWS s)\<rparr>)) (\<lambda>s.
              let bar_y = win_y w - TITLE_BAR_HEIGHT; total_h = win_height w + TITLE_BAR_HEIGHT
              in Some (True, call_display DrawCursor (call_display (RedrawRect (win_x w) bar_y (win_width w) total_h) s))))
      | None \<Rightarrow> Some (False, s))"

subsection \<open>Surfaces\<close>

definition fill_window :: "u32 \<Rightarrow> u32 \<Rightarrow> wm_state \<Rightarrow> bool \<times> wm_state" where
  "fill_window ob color s =
     (case find_window ob s of
        Some w \<Rightarrow> (True, update_window ob (\<lambda>w. w\<lparr>win_buffer := replicate (length (win_buffer w)) color\<rparr>) s)
      | None \<Rightarrow> (False, s))"

definition width_height :: "u32 \<Rightarrow> wm_state \<Rightarrow> (u32 \<times> u32) option" where
  "width_height ob s = map_option (\<lambda>w. (win_width w, win_height w)) (find_window ob s)"

definition saturating_sub :: "u32 \<Rightarrow> u32 \<Rightarrow> u32" where
  "saturating_sub a b = (if a \<le> b then 0 else a - b)"

definition commit_window_damage :: "u32 \<Rightarrow> u32 \<Rightarrow> u32 \<Rightarrow> u32 \<Rightarrow> u32 \<Rightarrow> wm_state \<Rightarrow> bool \<times> wm_state" where
  "commit_window_damage ob x y width height s =
     (case find_window ob s of
        None \<Rightarrow> (False, s)
      | Some w \<Rightarrow>
          let dirty_x = win_x w + x; dirty_y = win_y w + y;
              dirty_w = min width (saturating_sub (win_width w) x);
              dirty_h = min height (saturating_sub (win_height w) y)
          in if dirty_w > 0 \<and> dirty_h > 0 then (True, add_damage_rect (rect_new dirty_x dirty_y dirty_w dirty_h) s)
             else (False, s))"

definition draw_text :: "u32 \<Rightarrow> u32 \<Rightarrow> u32 \<Rightarrow> u8 list \<Rightarrow> u32 \<Rightarrow> u32 \<Rightarrow> wm_state \<Rightarrow> (bool \<times> wm_state) option" where
  "draw_text ob x y chs fg bg s =
     (case find_window ob s of
        Some w \<Rightarrow>
          map_option (\<lambda>(s, buf). (True, update_window ob (\<lambda>w. w\<lparr>win_buffer := buf\<rparr>) s))
            (draw_text_to_buffer (win_width w) (win_height w) x y chs fg bg s (win_buffer w))
      | None \<Rightarrow> Some (False, s))"

fun bitmap_cols :: "Window \<Rightarrow> u32 \<Rightarrow> u32 \<Rightarrow> nat \<Rightarrow> nat \<Rightarrow> u8 list \<Rightarrow> u32 \<Rightarrow> u32 \<Rightarrow> nat list \<Rightarrow> u32 list \<Rightarrow> u32 list option" where
  "bitmap_cols w x py row pitch bitmap_data fg bg [] buf = Some buf"
| "bitmap_cols w x py row pitch bitmap_data fg bg (col # cols) buf =
     (let px = x + of_nat col; byte_idx = row * pitch + col div 8
      in if px \<ge> win_width w \<or> byte_idx \<ge> length bitmap_data then Some buf
         else
           (let bit_set = (bitmap_data ! byte_idx AND drop_bit (col mod 8) 0x80 \<noteq> 0); off = unat (py * win_width w + px)
            in Option.bind (if bit_set then set_pixel off fg buf else if bg \<noteq> 0 then set_pixel off bg buf else Some buf)
                 (bitmap_cols w x py row pitch bitmap_data fg bg cols)))"

fun bitmap_rows :: "Window \<Rightarrow> u32 \<Rightarrow> u32 \<Rightarrow> u32 \<Rightarrow> nat \<Rightarrow> u8 list \<Rightarrow> u32 \<Rightarrow> u32 \<Rightarrow> nat list \<Rightarrow> u32 list \<Rightarrow> u32 list option" where
  "bitmap_rows w x y bm_width pitch bitmap_data fg bg [] buf = Some buf"
| "bitmap_rows w x y bm_width pitch bitmap_data fg bg (row # rows) buf =
     (let py = y + of_nat row
      in if py \<ge> win_height w then Some buf
         else Option.bind (bitmap_cols w x py row pitch bitmap_data fg bg [0..<unat bm_width] buf)
                (bitmap_rows w x y bm_width pitch bitmap_data fg bg rows))"

definition draw_bitmap :: "u32 \<Rightarrow> u32 \<Rightarrow> u32 \<Rightarrow> u32 \<Rightarrow> u32 \<Rightarrow> u8 list \<Rightarrow> u32 \<Rightarrow> u32 \<Rightarrow> wm_state \<Rightarrow> (bool \<times> wm_state) option" where
  "draw_bitmap ob x y bm_width bm_height bitmap_data fg bg s =
     (case find_window ob s of
        Some w \<Rightarrow>
          map_option (\<lambda>buf. (True, update_window ob (\<lambda>w. w\<lparr>win_buffer := buf\<rparr>) s))
            (bitmap_rows w x y bm_width (unat ((bm_width + 7) div 8)) bitmap_data fg bg [0..<unat bm_height] (win_buffer w))
      | None \<Rightarrow> Some (False, s))"

subsection \<open>Moving windows and the mouse\<close>

text \<open>\<^verbatim>\<open>Ord::clamp\<close> panics when its bounds are crossed.\<close>

definition iclamp :: "i32 \<Rightarrow> i32 \<Rightarrow> i32 \<Rightarrow> i32 option" where
  "iclamp lo hi v = (if sint lo > sint hi then None else Some (if sint v < sint lo then lo else if sint v > sint hi then hi else v))"

definition move_window :: "u32 \<Rightarrow> i32 \<Rightarrow> i32 \<Rightarrow> u32 \<Rightarrow> u32 \<Rightarrow> wm_state \<Rightarrow> (bool \<times> wm_state) option" where
  "move_window ob new_x new_y fb_width fb_height s =
     (case find_window ob s of
        Some w \<Rightarrow>
          let min_y = TITLE_BAR_HEIGHT; max_x = imax (fb_width - win_width w) 0; max_y = imax (fb_height - win_height w) 0
          in Option.bind (iclamp 0 max_x new_x) (\<lambda>clamped_x.
             Option.bind (iclamp min_y max_y new_y) (\<lambda>clamped_y.
             if win_x w = clamped_x \<and> win_y w = clamped_y then Some (False, s)
             else Some (True, update_window ob (\<lambda>w. w\<lparr>win_x := clamped_x, win_y := clamped_y\<rparr>) s)))
      | None \<Rightarrow> Some (False, s))"

definition point_in_rect :: "i32 \<Rightarrow> i32 \<Rightarrow> i32 \<Rightarrow> i32 \<Rightarrow> u32 \<Rightarrow> u32 \<Rightarrow> bool" where
  "point_in_rect px py rx ry rw rh \<longleftrightarrow>
     sint px \<ge> sint rx \<and> sint px < sint (rx + rw) \<and> sint py \<ge> sint ry \<and> sint py < sint (ry + rh)"

definition topmost_titlebar_at :: "i32 \<Rightarrow> i32 \<Rightarrow> wm_state \<Rightarrow> u32 option" where
  "topmost_titlebar_at x y s =
     map_option surface_object
       (List.find (\<lambda>w. point_in_rect x y (win_x w) (win_y w - TITLE_BAR_HEIGHT) (win_width w) TITLE_BAR_HEIGHT) (rev (WINDOWS s)))"

definition topmost_content_at :: "i32 \<Rightarrow> i32 \<Rightarrow> wm_state \<Rightarrow> u32 option" where
  "topmost_content_at x y s =
     map_option surface_object
       (List.find (\<lambda>w. point_in_rect x y (win_x w) (win_y w) (win_width w) (win_height w)) (rev (WINDOWS s)))"

text \<open>The press edge of \<^verbatim>\<open>report_mouse\<close>; the flag is \<^verbatim>\<open>window_raised\<close>.\<close>

definition press_at :: "i32 \<Rightarrow> i32 \<Rightarrow> wm_state \<Rightarrow> (bool \<times> wm_state) option" where
  "press_at x y s =
     (case topmost_titlebar_at x y s of
        Some target \<Rightarrow>
          map_option (\<lambda>(raised, s). (raised,
              case find_window target s of
                Some w \<Rightarrow> s\<lparr>DRAGGING := Some (target, x - win_x w, y - win_y w)\<rparr>
              | None \<Rightarrow> s))
            (raise_window target (set_focus target s))
      | None \<Rightarrow>
          (case topmost_content_at x y s of
             Some target \<Rightarrow> raise_window target (set_focus target s)
           | None \<Rightarrow> Some (False, s)))"

text \<open>Moves the dragged window; the rectangle is where it was.\<close>

definition drag_to :: "i32 \<Rightarrow> i32 \<Rightarrow> u32 \<Rightarrow> u32 \<Rightarrow> wm_state \<Rightarrow> (Rect option \<times> bool \<times> wm_state) option" where
  "drag_to x y fb_width fb_height s =
     (case DRAGGING s of
        Some (ob, off_x, off_y) \<Rightarrow>
          map_option (Pair (map_option window_bounds (find_window ob s))) (move_window ob (x - off_x) (y - off_y) fb_width fb_height s)
      | None \<Rightarrow> Some (None, False, s))"

definition damage_windows :: "Rect option \<Rightarrow> wm_state \<Rightarrow> wm_state" where
  "damage_windows old_win_rect s =
     (let s = (case old_win_rect of Some r \<Rightarrow> add_damage_rect r s | None \<Rightarrow> s)
      in mark_window_dirty
           (case DRAGGING s of
              Some (ob, _, _) \<Rightarrow>
                (case find_window ob s of Some w \<Rightarrow> add_damage_rect (window_bounds w) s | None \<Rightarrow> s)
            | None \<Rightarrow> fold (\<lambda>w. add_damage_rect (window_bounds w)) (WINDOWS s) s))"

definition report_mouse :: "u64 \<Rightarrow> (u32 \<times> u32) option \<Rightarrow> i32 \<Rightarrow> i32 \<Rightarrow> bool \<Rightarrow> wm_state \<Rightarrow> wm_state option" where
  "report_mouse tsc fb_params mx my left s =
     Option.bind (enqueue tsc (MouseMotion mx my left) (INPUT_QUEUE s)) (\<lambda>q.
       let s = s\<lparr>INPUT_QUEUE := q\<rparr>
       in case fb_params of
            None \<Rightarrow> Some s
          | Some (fb_width, fb_height) \<Rightarrow>
              let old_x = CURSOR_X s; old_y = CURSOR_Y s; was_down = LEFT_BUTTON_DOWN s
              in Option.bind (iclamp 0 (fb_width - 1) (old_x + mx)) (\<lambda>new_x.
                 Option.bind (iclamp 0 (fb_height - 1) (old_y + my)) (\<lambda>new_y.
                 let s = s\<lparr>CURSOR_X := new_x, CURSOR_Y := new_y, LEFT_BUTTON_DOWN := left\<rparr>
                 in Option.bind (if left \<and> \<not> was_down then press_at new_x new_y s else Some (False, s)) (\<lambda>(window_raised, s).
                    let s = (if left then s else s\<lparr>DRAGGING := None\<rparr>)
                    in Option.bind (drag_to new_x new_y fb_width fb_height s) (\<lambda>(old_win_rect, window_moved, s).
                       Some (if window_moved \<or> window_raised
                             then call_display (RequestPresentation (\<not> left \<and> was_down)) (damage_windows old_win_rect s)
                             else call_display (MoveCursorOverlay old_x old_y new_x new_y) (call_display TryPresentPending s)))))))"

definition flush_dirty_surfaces :: "wm_state \<Rightarrow> wm_state" where
  "flush_dirty_surfaces s =
     (if WINDOW_DIRTY s
      then let s = s\<lparr>WINDOW_DIRTY := False\<rparr>
           in if damage_is_empty (GLOBAL_DAMAGE s) then call_display Present s
              else call_display DrawCursor (clear_damage_rects
                (fold (\<lambda>r. call_display (RedrawRect (rect_x r) (rect_y r) (rect_width r) (rect_height r))) (damage_rects (GLOBAL_DAMAGE s)) s))
      else if CURSOR_DIRTY s then call_display DrawCursor (s\<lparr>CURSOR_DIRTY := False\<rparr>) else s)"

subsection \<open>Buffers keep their shape\<close>

lemma fold_opt_keeps:
  assumes "P s" "\<And>x s. x \<in> set xs \<Longrightarrow> P s \<Longrightarrow> \<exists>s'. f x s = Some s' \<and> P s'"
  shows "\<exists>s'. fold_opt f xs s = Some s' \<and> P s'"
  using assms
proof (induction xs arbitrary: s)
  case (Cons x xs)
  obtain s1 where "f x s = Some s1" "P s1" using Cons.prems(1) Cons.prems(2) [of x s] by auto
  then show ?case using Cons.IH [of s1] Cons.prems(2) by simp
qed simp

lemma screen_ok_length: "screen_ok w h buf \<Longrightarrow> length buf' = length buf \<Longrightarrow> screen_ok w h buf'"
  by (simp add: screen_ok_def)

lemma uint_sint: "0 \<le> sint (a :: i32) \<Longrightarrow> uint a = sint a"
  using uint_sint_diff [of 0 a] by simp

lemma fill_range_ok: "from + n \<le> length buf \<Longrightarrow> \<exists>buf'. fill_range from n c buf = Some buf' \<and> length buf' = length buf"
  by (simp add: fill_range_def)

lemma set_pixel_ok: "i < length buf \<Longrightarrow> \<exists>buf'. set_pixel i c buf = Some buf' \<and> length buf' = length buf"
  by (simp add: set_pixel_def)

lemma pixel_offset_ok:
  assumes "screen_ok w h buf" "uint px < uint w" "uint py < uint h"
  shows "unat (py * w + px) < length buf"
proof -
  have "0 \<le> uint py * uint w + uint px" "uint py * uint w + uint px < uint w * uint h"
    using assms row_offset_less [of "uint px" "uint w" "uint py" "uint h"] by auto
  moreover from this have "uint (py * w + px) = uint py * uint w + uint px" using assms(1) by (intro uint_offset) (simp add: screen_ok_def)
  ultimately have "uint (py * w + px) < int (length buf)" using assms(1) by (simp add: screen_ok_def)
  then have "int (unat (py * w + px)) < int (length buf)" by simp
  then show ?thesis by (rule of_nat_less_imp_less)
qed

lemma draw_control_button_ok:
  assumes "screen_ok bw bh buf"
  shows "\<exists>buf'. draw_control_button bw bh cx cy ic rc buf = Some buf' \<and> screen_ok bw bh buf'"
  unfolding draw_control_button_def
proof (rule fold_opt_keeps [where P = "screen_ok bw bh", OF assms])
  fix d :: "int \<times> int" and buf assume ok: "screen_ok bw bh buf"
  obtain a b where d: "d = (a, b)" by (cases d)
  let ?px = "cx + word_of_int a" and ?py = "cy + word_of_int b"
  have set: "\<exists>buf'. set_pixel (unat (?py * bw + ?px)) c buf = Some buf' \<and> screen_ok bw bh buf'"
    if s: "0 \<le> sint ?px" "sint ?px < sint bw" "0 \<le> sint ?py" "sint ?py < sint bh" for c
  proof -
    have "sint bw = uint bw" "sint bh = uint bh" using ok by (simp_all add: screen_ok_def sint_small)
    with s(2,4) have "uint ?px < uint bw" "uint ?py < uint bh" unfolding uint_sint [OF s(1)] uint_sint [OF s(3)] by simp_all
    from set_pixel_ok [OF pixel_offset_ok [OF ok this], of c] show ?thesis using screen_ok_length [OF ok] by blast
  qed
  show "\<exists>buf'. control_dot bw bh cx cy ic rc d buf = Some buf' \<and> screen_ok bw bh buf'"
  proof (cases "sint ?py < 0 \<or> sint ?py \<ge> sint bh")
    case True
    show ?thesis unfolding control_dot_def d prod.case Let_def if_P [OF True] using ok by simp
  next
    case False
    show ?thesis
    proof (cases "a * a + b * b \<le> 9 \<and> sint ?px \<ge> 0 \<and> sint ?px < sint bw")
      case True
      have "0 \<le> sint ?px" "sint ?px < sint bw" using True by blast+
      moreover have "0 \<le> sint ?py" "sint ?py < sint bh" using False unfolding de_Morgan_disj not_less not_le by blast+
      ultimately show ?thesis unfolding control_dot_def d prod.case Let_def if_not_P [OF False] if_P [OF True] by (rule set)
    next
      case F: False
      show ?thesis unfolding control_dot_def d prod.case Let_def if_not_P [OF False] if_not_P [OF F] using ok by simp
    qed
  qed
qed

lemma draw_dots_ok: "screen_ok w TITLE_BAR_HEIGHT buf \<Longrightarrow> \<exists>buf'. draw_dots w act buf = Some buf' \<and> screen_ok w TITLE_BAR_HEIGHT buf'"
  unfolding draw_dots_def by (rule fold_opt_keeps) (auto intro: draw_control_button_ok)

lemma title_row:
  assumes "screen_ok w TITLE_BAR_HEIGHT buf" "y < 20"
  shows "unat (of_nat y * w) + unat w \<le> length buf"
proof -
  have "int (length buf) = int (20 * unat w)" "int (20 * unat w) < int (2 ^ 32)"
    using assms(1) by (simp_all add: screen_ok_def TITLE_BAR_HEIGHT_def)
  then have l: "length buf = 20 * unat w" "20 * unat w < 2 ^ 32" by (simp_all only: of_nat_eq_iff of_nat_less_iff)
  have y: "Suc y * unat w \<le> 20 * unat w" using assms(2) by (intro mult_le_mono1) simp
  have o: "unat (of_nat y :: u32) = y" using assms(2) by (simp add: unat_of_nat take_bit_nat_eq_self)
  have "y * unat w < 2 ^ 32" by (rule le_less_trans [OF _ le_less_trans [OF y l(2)]]) simp
  then have "unat (of_nat y * w) = y * unat w" unfolding unat_word_ariths o by simp
  then show ?thesis using l(1) y by simp
qed

lemma title_borders_ok:
  assumes "screen_ok w TITLE_BAR_HEIGHT buf" "w \<noteq> 0"
  shows "\<exists>buf'. title_borders w buf = Some buf' \<and> screen_ok w TITLE_BAR_HEIGHT buf'"
  unfolding title_borders_def
proof (rule fold_opt_keeps [where P = "screen_ok w TITLE_BAR_HEIGHT", OF assms(1)])
  fix y buf assume y: "y \<in> set [0..<unat TITLE_BAR_HEIGHT]" and ok: "screen_ok w TITLE_BAR_HEIGHT buf"
  have "0 < unat w" using assms(2) by (simp add: unat_gt_0)
  with title_row [OF ok, of y] y have "unat (of_nat y * w) < length buf" "unat (of_nat y * w) + (unat w - 1) < length buf"
    by (simp_all add: TITLE_BAR_HEIGHT_def)
  then show "\<exists>buf'. (let row = unat (of_nat y * w) in Option.bind (set_pixel row 0x334155 buf) (set_pixel (row + (unat w - 1)) 0x334155)) =
      Some buf' \<and> screen_ok w TITLE_BAR_HEIGHT buf'"
    using ok by (auto simp: set_pixel_def Let_def intro: screen_ok_length)
qed

text \<open>A title bar of non-zero width renders without a panic and keeps its buffer's size.\<close>

lemma render_title_bar_ok:
  assumes "screen_ok w TITLE_BAR_HEIGHT buf" "w \<noteq> 0" "font_ok s"
  shows "\<exists>s' buf'. render_title_bar w title act s buf = Some (s', buf') \<and> screen_ok w TITLE_BAR_HEIGHT buf' \<and> font_ok s' \<and>
    font_state.more s' = font_state.more s"
proof -
  define bg :: u32 where "bg = (if act then 0x1E293B else 0x0F172A)"
  let ?b0 = "replicate (length buf) bg"
  have b0: "screen_ok w TITLE_BAR_HEIGHT ?b0" using assms(1) by (rule screen_ok_length) simp
  obtain b1 where b1: "fill_range 0 (unat w) (if act then 0x38BDF8 else 0x1E293B) ?b0 = Some b1" "screen_ok w TITLE_BAR_HEIGHT b1"
    using fill_range_ok [of 0 "unat w" ?b0] title_row [OF b0, of 0] screen_ok_length [OF b0] by auto
  obtain b2 where b2: "fill_range (unat ((TITLE_BAR_HEIGHT - 1) * w)) (unat w) 0x334155 b1 = Some b2" "screen_ok w TITLE_BAR_HEIGHT b2"
    using fill_range_ok [of "unat ((TITLE_BAR_HEIGHT - 1) * w)" "unat w" b1] title_row [OF b1(2), of 19] screen_ok_length [OF b1(2)]
    by (auto simp: TITLE_BAR_HEIGHT_def)
  obtain b3 where b3: "title_borders w b2 = Some b3" "screen_ok w TITLE_BAR_HEIGHT b3"
    using title_borders_ok [OF b2(2) assms(2)] by blast
  obtain b4 where b4: "(if w \<ge> 48 then draw_dots w act b3 else Some b3) = Some b4" "screen_ok w TITLE_BAR_HEIGHT b4"
    using draw_dots_ok [OF b3(2), of act] b3(2) by (cases "w \<ge> 48") auto
  show ?thesis
    using draw_text_spec [OF b4(2) assms(3), of "if w \<ge> 48 then 48 else 4" 2 "take MAX_TITLE_LEN title" "if act then 0xF8FAFC else 0x64748B" bg]
      b1(1) b2(1) b3(1) b4(1) assms(2)
    by (elim exE conjE) (simp add: render_title_bar_def Let_def flip: bg_def)
qed

subsection \<open>The desktop invariant\<close>

text \<open>
  A display of less than \<open>2 ^ 16\<close> pixels each way; a window inside it, below the strip its title bar needs; and the
  state in which every buffer has the size its window declares and the pointer is on the display.
\<close>

definition screen_size :: "u32 \<Rightarrow> u32 \<Rightarrow> bool" where
  "screen_size fw fh \<longleftrightarrow> 0 < uint fw \<and> uint fw < 2 ^ 16 \<and> 0 < uint fh \<and> uint fh < 2 ^ 16"

definition on_screen :: "u32 \<Rightarrow> u32 \<Rightarrow> i32 \<Rightarrow> i32 \<Rightarrow> u32 \<Rightarrow> u32 \<Rightarrow> bool" where
  "on_screen fw fh x y w h \<longleftrightarrow> 0 \<le> sint x \<and> sint x + uint w \<le> uint fw \<and> 20 \<le> sint y \<and> sint y + uint h \<le> uint fh"

definition win_ok :: "u32 \<Rightarrow> u32 \<Rightarrow> Window \<Rightarrow> bool" where
  "win_ok fw fh w \<longleftrightarrow> win_width w \<noteq> 0 \<and> on_screen fw fh (win_x w) (win_y w) (win_width w) (win_height w) \<and>
     screen_ok (win_width w) (win_height w) (win_buffer w) \<and> screen_ok (win_width w) TITLE_BAR_HEIGHT (title_buffer w)"

definition desktop_ok :: "u32 \<Rightarrow> u32 \<Rightarrow> wm_state \<Rightarrow> bool" where
  "desktop_ok fw fh s \<longleftrightarrow> font_ok s \<and> iq_wf (INPUT_QUEUE s) \<and> damage_wf (GLOBAL_DAMAGE s) \<and>
     (\<forall>w \<in> set (WINDOWS s). win_ok fw fh w) \<and>
     0 \<le> sint (CURSOR_X s) \<and> sint (CURSOR_X s) < uint fw \<and> 0 \<le> sint (CURSOR_Y s) \<and> sint (CURSOR_Y s) < uint fh"

lemma more_fields:
  fixes s s' :: wm_state
  assumes "font_state.more s' = font_state.more s"
  shows "WINDOWS s' = WINDOWS s" "CURSOR_X s' = CURSOR_X s" "CURSOR_Y s' = CURSOR_Y s" "INPUT_QUEUE s' = INPUT_QUEUE s"
    "GLOBAL_DAMAGE s' = GLOBAL_DAMAGE s" "DRAGGING s' = DRAGGING s" "FOCUSED_SURFACE s' = FOCUSED_SURFACE s"
    "display_calls s' = display_calls s" "LEFT_BUTTON_DOWN s' = LEFT_BUTTON_DOWN s"
  using assms by (cases s; cases s'; simp)+

lemma desktop_ok_more:
  "desktop_ok fw fh s \<Longrightarrow> font_ok s' \<Longrightarrow> font_state.more s' = font_state.more s \<Longrightarrow> desktop_ok fw fh s'"
  unfolding desktop_ok_def by (frule more_fields(1), frule more_fields(2), frule more_fields(3), frule more_fields(4), drule more_fields(5)) simp

lemma desktop_ok_updates [simp]:
  "desktop_ok fw fh (s\<lparr>LEFT_BUTTON_DOWN := b\<rparr>) = desktop_ok fw fh s"
  "desktop_ok fw fh (s\<lparr>DRAGGING := d\<rparr>) = desktop_ok fw fh s"
  "desktop_ok fw fh (s\<lparr>WINDOW_DIRTY := b\<rparr>) = desktop_ok fw fh s"
  "desktop_ok fw fh (s\<lparr>CURSOR_DIRTY := b\<rparr>) = desktop_ok fw fh s"
  "desktop_ok fw fh (set_focus ob s) = desktop_ok fw fh s"
  "desktop_ok fw fh (call_display c s) = desktop_ok fw fh s"
  "desktop_ok fw fh (mark_window_dirty s) = desktop_ok fw fh s"
  by (simp_all add: desktop_ok_def font_ok_def set_focus_def call_display_def mark_window_dirty_def)

lemma desktop_ok_windows:
  "desktop_ok fw fh s \<Longrightarrow> \<forall>w \<in> set ws. win_ok fw fh w \<Longrightarrow> desktop_ok fw fh (s\<lparr>WINDOWS := ws\<rparr>)"
  by (simp add: desktop_ok_def font_ok_def)

lemma desktop_ok_update_window:
  "desktop_ok fw fh s \<Longrightarrow> (\<And>w. w \<in> set (WINDOWS s) \<Longrightarrow> surface_object w = ob \<Longrightarrow> win_ok fw fh w \<Longrightarrow> win_ok fw fh (f w)) \<Longrightarrow>
   desktop_ok fw fh (update_window ob f s)"
  unfolding update_window_def
proof (rule desktop_ok_windows)
  assume a: "desktop_ok fw fh s" "\<And>w. w \<in> set (WINDOWS s) \<Longrightarrow> surface_object w = ob \<Longrightarrow> win_ok fw fh w \<Longrightarrow> win_ok fw fh (f w)"
  have k: "\<forall>w \<in> set (update_first (\<lambda>w. surface_object w = ob) f ws). win_ok fw fh w"
    if "\<forall>w \<in> set ws. win_ok fw fh w \<and> w \<in> set (WINDOWS s)" for ws
    using that a(2) by (induction ws) auto
  show "\<forall>w \<in> set (update_first (\<lambda>w. surface_object w = ob) f (WINDOWS s)). win_ok fw fh w"
    by (rule k) (use a(1) in \<open>simp add: desktop_ok_def\<close>)
qed

text \<open>Redrawing the title bars changes nothing but title buffers and the font's colour table.\<close>

definition bare :: "Window \<Rightarrow> Window" where
  "bare w = w\<lparr>title_buffer := []\<rparr>"

definition titles_only :: "wm_state \<Rightarrow> wm_state \<Rightarrow> bool" where
  "titles_only s s' \<longleftrightarrow> map bare (WINDOWS s') = map bare (WINDOWS s) \<and>
     DRAGGING s' = DRAGGING s \<and> FOCUSED_SURFACE s' = FOCUSED_SURFACE s \<and> GLOBAL_DAMAGE s' = GLOBAL_DAMAGE s \<and>
     CURSOR_X s' = CURSOR_X s \<and> CURSOR_Y s' = CURSOR_Y s \<and> display_calls s' = display_calls s"

lemma render_window_title_ok:
  assumes "desktop_ok fw fh t" "titles_only s t" "i < length (WINDOWS t)"
  shows "\<exists>s'. render_window_title (WINDOWS t) i t = Some s' \<and> desktop_ok fw fh s' \<and> titles_only s s'"
proof -
  let ?w = "WINDOWS t ! i"
  have w: "win_ok fw fh ?w" "font_ok t" using assms(1,3) by (simp_all add: desktop_ok_def)
  then have "win_width ?w \<noteq> 0" "screen_ok (win_width ?w) TITLE_BAR_HEIGHT (title_buffer ?w)" by (simp_all add: win_ok_def)
  from render_title_bar_ok [OF this(2,1) w(2), of "win_title ?w" "i = length (WINDOWS t) - 1"]
  obtain t' buf where r: "render_title_bar (win_width ?w) (win_title ?w) (i = length (WINDOWS t) - 1) t (title_buffer ?w) = Some (t', buf)"
      "screen_ok (win_width ?w) TITLE_BAR_HEIGHT buf" "font_ok t'" "font_state.more t' = font_state.more t"
    by (elim exE conjE)
  note m = more_fields [OF r(4)]
  let ?t = "t'\<lparr>WINDOWS := (WINDOWS t)[i := ?w\<lparr>title_buffer := buf\<rparr>]\<rparr>"
  have "win_ok fw fh (?w\<lparr>title_buffer := buf\<rparr>)" using w(1) r(2) by (simp add: win_ok_def)
  moreover have "\<forall>w \<in> set (WINDOWS t). win_ok fw fh w" using assms(1) by (simp add: desktop_ok_def)
  ultimately have "\<forall>w \<in> set ((WINDOWS t)[i := ?w\<lparr>title_buffer := buf\<rparr>]). win_ok fw fh w"
    using set_update_subset_insert [of "WINDOWS t" i "?w\<lparr>title_buffer := buf\<rparr>"] by blast
  with desktop_ok_more [OF assms(1) r(3,4)] have "desktop_ok fw fh ?t" by (rule desktop_ok_windows)
  moreover have "map bare ((WINDOWS t)[i := ?w\<lparr>title_buffer := buf\<rparr>]) = map bare (WINDOWS t)"
  proof -
    have "bare (?w\<lparr>title_buffer := buf\<rparr>) = map bare (WINDOWS t) ! i" using assms(3) by (simp add: bare_def)
    then show ?thesis by (simp only: map_update list_update_id)
  qed
  then have "titles_only s ?t" using assms(2) by (simp add: titles_only_def m)
  moreover have "render_window_title (WINDOWS t) i t = Some ?t" unfolding render_window_title_def Let_def r(1) by (simp add: m)
  ultimately show ?thesis by blast
qed

lemma focus_visuals_ok:
  assumes "desktop_ok fw fh s"
  shows "\<exists>s'. update_window_focus_visuals s = Some s' \<and> desktop_ok fw fh s' \<and> titles_only s s'"
  unfolding update_window_focus_visuals_def
proof (rule fold_opt_keeps [where P = "\<lambda>t. desktop_ok fw fh t \<and> titles_only s t"])
  fix i t
  assume i: "i \<in> set [0..<length (WINDOWS s)]" and t: "desktop_ok fw fh t \<and> titles_only s t"
  have "length (WINDOWS t) = length (WINDOWS s)" using t unfolding titles_only_def by (metis length_map)
  then show "\<exists>s'. render_window_title (WINDOWS t) i t = Some s' \<and> desktop_ok fw fh s' \<and> titles_only s s'"
    using render_window_title_ok [of fw fh t s i] i t by simp
qed (use assms in \<open>simp add: titles_only_def\<close>)

subsection \<open>Every operation keeps the invariant\<close>

lemma sint_sub_small: "uint b \<le> uint a \<Longrightarrow> uint a < 2 ^ 31 \<Longrightarrow> sint (a - b :: u32) = uint a - uint b"
proof -
  assume a: "uint b \<le> uint a" "uint a < 2 ^ 31"
  then have "uint (a - b) = uint a - uint b" by (simp add: uint_sub_if')
  then show ?thesis using a sint_small [of "a - b"] uint_ge_0 [of b] by simp
qed

lemma win_ok_sizes:
  assumes "on_screen fw fh x y w h" "screen_size fw fh"
  shows "uint w < 2 ^ 16" "uint h < 2 ^ 16" "sint x < 2 ^ 16" "sint y < 2 ^ 16"
proof -
  have "0 \<le> uint w" "0 \<le> uint h" by simp_all
  then show "uint w < 2 ^ 16" "uint h < 2 ^ 16" "sint x < 2 ^ 16" "sint y < 2 ^ 16"
    using assms unfolding on_screen_def screen_size_def by linarith+
qed

lemma small_screen_ok:
  assumes "uint w < 2 ^ 16" "uint h < 2 ^ 16" "length buf = unat w * unat h"
  shows "screen_ok w h buf"
proof -
  have "uint w * uint h \<le> (2 ^ 16 - 1) * (2 ^ 16 - 1)" using assms by (intro mult_mono) auto
  then show ?thesis using assms by (simp add: screen_ok_def)
qed

lemma register_window_ok:
  assumes "desktop_ok fw fh s" "screen_size fw fh" "on_screen fw fh x y w h" "w \<noteq> 0"
  shows "\<exists>s'. register_window ob x y w h title s = Some s' \<and> desktop_ok fw fh s'"
proof -
  let ?tb = "replicate (unat w * unat TITLE_BAR_HEIGHT) 0 :: u32 list"
  note sz = win_ok_sizes [OF assms(3,2)]
  have tb: "screen_ok w TITLE_BAR_HEIGHT ?tb" by (rule small_screen_ok) (use sz in \<open>simp_all add: TITLE_BAR_HEIGHT_def\<close>)
  have "font_ok s" using assms(1) by (simp add: desktop_ok_def)
  from render_title_bar_ok [OF tb assms(4) this, of "take MAX_TITLE_LEN title" True]
  obtain t buf where r: "render_title_bar w (take MAX_TITLE_LEN title) True s ?tb = Some (t, buf)" "screen_ok w TITLE_BAR_HEIGHT buf"
      "font_ok t" "font_state.more t = font_state.more s" by (elim exE conjE)
  let ?w = "\<lparr>surface_object = ob, win_width = w, win_height = h, win_x = x, win_y = y,
    win_buffer = replicate (unat w * unat h) 0, title_buffer = buf, win_title = take MAX_TITLE_LEN title\<rparr>"
  have t: "desktop_ok fw fh t" by (rule desktop_ok_more [OF assms(1) r(3,4)])
  have "win_ok fw fh ?w" using assms(3,4) r(2) small_screen_ok [OF sz(1,2)] by (simp add: win_ok_def)
  then have "desktop_ok fw fh (t\<lparr>WINDOWS := WINDOWS t @ [?w]\<rparr>)" using t by (intro desktop_ok_windows) (auto simp: desktop_ok_def)
  from focus_visuals_ok [OF this] show ?thesis by (auto simp: register_window_def Let_def r(1))
qed

lemma position_less: "position P xs = Some i \<Longrightarrow> i < length xs \<and> P (xs ! i)"
  by (induction xs arbitrary: i) (auto split: if_splits)

lemma remove_nth_insert: "i < length xs \<Longrightarrow> set (remove_nth i xs @ [xs ! i]) = set xs"
proof -
  assume i: "i < length xs"
  then have "xs = take i xs @ xs ! i # drop (Suc i) xs" by (simp add: id_take_nth_drop)
  then have "set xs = set (take i xs) \<union> {xs ! i} \<union> set (drop (Suc i) xs)" by (metis (no_types) set_append list.set(2) Un_insert_left Un_insert_right Un_empty_right insert_is_Un Un_assoc)
  then show ?thesis by (auto simp: remove_nth_def)
qed

lemma raise_window_ok:
  assumes "desktop_ok fw fh s"
  shows "\<exists>b s'. raise_window ob s = Some (b, s') \<and> desktop_ok fw fh s' \<and> bare ` set (WINDOWS s') = bare ` set (WINDOWS s) \<and>
    CURSOR_X s' = CURSOR_X s \<and> CURSOR_Y s' = CURSOR_Y s \<and> GLOBAL_DAMAGE s' = GLOBAL_DAMAGE s \<and> FOCUSED_SURFACE s' = FOCUSED_SURFACE s"
proof (cases "position (\<lambda>w. surface_object w = ob) (WINDOWS s)")
  case (Some i)
  then have i: "i < length (WINDOWS s)" using position_less by blast
  let ?s = "s\<lparr>WINDOWS := remove_nth i (WINDOWS s) @ [WINDOWS s ! i]\<rparr>"
  have "desktop_ok fw fh ?s" using assms by (intro desktop_ok_windows) (simp_all add: remove_nth_insert [OF i] desktop_ok_def del: set_append)
  then obtain s' where s': "update_window_focus_visuals ?s = Some s'" "desktop_ok fw fh s'" "titles_only ?s s'"
    using focus_visuals_ok by blast
  have w: "WINDOWS ?s = remove_nth i (WINDOWS s) @ [WINDOWS s ! i]" by simp
  have "bare ` set (WINDOWS s') = set (map bare (WINDOWS ?s))" using s'(3) unfolding titles_only_def by (metis list.set_map)
  also have "\<dots> = bare ` set (WINDOWS s)" unfolding set_map w remove_nth_insert [OF i] ..
  finally show ?thesis using Some s' assms by (auto simp: raise_window_def titles_only_def)
qed (use assms in \<open>auto simp: raise_window_def\<close>)

lemma unregister_window_ok:
  assumes "desktop_ok fw fh s"
  shows "\<exists>b s'. unregister_window ob s = Some (b, s') \<and> desktop_ok fw fh s'"
proof (cases "position (\<lambda>w. surface_object w = ob) (WINDOWS s)")
  case (Some i)
  have "desktop_ok fw fh (s\<lparr>WINDOWS := remove_nth i (WINDOWS s)\<rparr>)"
    using assms by (intro desktop_ok_windows) (auto simp: remove_nth_def desktop_ok_def dest: in_set_takeD in_set_dropD)
  from focus_visuals_ok [OF this] Some show ?thesis by (auto simp: unregister_window_def Let_def)
qed (use assms in \<open>auto simp: unregister_window_def\<close>)

lemma fill_window_ok: "desktop_ok fw fh s \<Longrightarrow> desktop_ok fw fh (snd (fill_window ob c s))"
  by (auto simp: fill_window_def win_ok_def split: option.split intro!: desktop_ok_update_window elim!: screen_ok_length)

lemma find_window_ok: "find_window ob s = Some w \<Longrightarrow> desktop_ok fw fh s \<Longrightarrow> win_ok fw fh w \<and> surface_object w = ob \<and> w \<in> set (WINDOWS s)"
  by (auto simp: find_window_def find_Some_iff desktop_ok_def)

lemma add_damage_rect_ok: "desktop_ok fw fh s \<Longrightarrow> near r \<Longrightarrow> desktop_ok fw fh (add_damage_rect r s)"
  using add_rect_spec [of "GLOBAL_DAMAGE s" r] by (simp add: desktop_ok_def add_damage_rect_def mark_window_dirty_def font_ok_def)

lemma window_bounds_near:
  assumes "win_ok fw fh w" "screen_size fw fh"
  shows "near (window_bounds w)"
    "pixels (window_bounds w) = {sint (win_x w) ..< sint (win_x w) + uint (win_width w)} \<times> {sint (win_y w) - 20 ..< sint (win_y w) + uint (win_height w)}"
proof -
  have o: "on_screen fw fh (win_x w) (win_y w) (win_width w) (win_height w)" using assms(1) by (simp add: win_ok_def)
  note sz = win_ok_sizes [OF o assms(2)]
  have o': "0 \<le> sint (win_x w)" "20 \<le> sint (win_y w)" using o by (simp_all add: on_screen_def)
  have y: "sint (win_y w - TITLE_BAR_HEIGHT) = sint (win_y w) - 20"
    using sint_sub_small [of TITLE_BAR_HEIGHT "win_y w"] uint_sint [of "win_y w"] o' sz(4) by (simp add: TITLE_BAR_HEIGHT_def)
  have h: "uint (win_height w + TITLE_BAR_HEIGHT) = uint (win_height w) + 20" using sz(2) by (simp add: TITLE_BAR_HEIGHT_def uint_plus_if')
  show "near (window_bounds w)" using o' sz by (simp add: near_def window_bounds_def y h)
  show "pixels (window_bounds w) = {sint (win_x w) ..< sint (win_x w) + uint (win_width w)} \<times> {sint (win_y w) - 20 ..< sint (win_y w) + uint (win_height w)}"
    by (simp add: pixels_def window_bounds_def y h)
qed

lemma near_ints: "0 \<le> a \<Longrightarrow> a < 2 ^ 16 \<Longrightarrow> 0 \<le> b \<Longrightarrow> b + c < 2 ^ 16 \<Longrightarrow> - (2 ^ 30) \<le> a + b \<and> a + b + c < (2 ^ 30 :: int)"
  by simp

lemma commit_window_damage_ok:
  assumes "desktop_ok fw fh s" "screen_size fw fh"
  shows "desktop_ok fw fh (snd (commit_window_damage ob x y width height s))"
proof (cases "find_window ob s")
  case (Some w)
  let ?dw = "min width (saturating_sub (win_width w) x)" and ?dh = "min height (saturating_sub (win_height w) y)"
  have o: "on_screen fw fh (win_x w) (win_y w) (win_width w) (win_height w)"
    using find_window_ok [OF Some assms(1)] by (simp add: win_ok_def)
  note sz = win_ok_sizes [OF o assms(2)]
  have o': "0 \<le> sint (win_x w)" "20 \<le> sint (win_y w)" using o by (simp_all add: on_screen_def)
  have d: "uint c + uint (min n (saturating_sub a c)) \<le> uint a" if "0 < min n (saturating_sub a c)" for n a c
  proof -
    have "c < a" using that by (auto simp: saturating_sub_def min_def split: if_splits)
    then have "uint (saturating_sub a c) = uint a - uint c" by (auto simp: saturating_sub_def uint_sub_if' word_less_def word_le_def)
    then show ?thesis by (simp add: uint_min)
  qed
  have p: "sint (a + c) = sint a + uint c" if "0 \<le> sint a" "sint a < 2 ^ 16" "uint c < 2 ^ 16" for a c :: i32
    using near_sint_add [of a c] that by simp
  have "near (rect_new (win_x w + x) (win_y w + y) ?dw ?dh)" if g: "0 < ?dw" "0 < ?dh"
  proof -
    have n: "uint x < 2 ^ 16" "uint y < 2 ^ 16" "0 \<le> uint x" "0 \<le> uint y" "uint x + uint ?dw < 2 ^ 16" "uint y + uint ?dh < 2 ^ 16"
      using d [OF g(1)] d [OF g(2)] sz(1,2) uint_ge_0 [of ?dw] uint_ge_0 [of ?dh] uint_ge_0 [of x] uint_ge_0 [of y] by linarith+
    have y: "0 \<le> sint (win_y w)" using o'(2) by simp
    show ?thesis unfolding near_def rect_new_sel p [OF o'(1) sz(3) n(1)] p [OF y sz(4) n(2)]
      using near_ints [OF o'(1) sz(3) n(3,5)] near_ints [OF y sz(4) n(4,6)] by blast
  qed
  then show ?thesis using Some assms(1) by (simp add: commit_window_damage_def Let_def add_damage_rect_ok)
qed (use assms in \<open>simp add: commit_window_damage_def\<close>)

lemma bitmap_cols_ok:
  assumes "screen_ok (win_width w) (win_height w) buf" "py < win_height w"
  shows "\<exists>buf'. bitmap_cols w x py row pitch bits fg bg cols buf = Some buf' \<and> screen_ok (win_width w) (win_height w) buf'"
  using assms(1)
proof (induction cols arbitrary: buf)
  case (Cons col cols)
  let ?px = "x + of_nat col" and ?idx = "row * pitch + col div 8"
  show ?case
  proof (cases "?px \<ge> win_width w \<or> ?idx \<ge> length bits")
    case True
    show ?thesis unfolding bitmap_cols.simps Let_def if_P [OF True] using Cons.prems by blast
  next
    case False
    have px: "uint ?px < uint (win_width w)" "uint py < uint (win_height w)" using False assms(2) by (simp_all add: not_le word_less_def)
    define step where "step = (if bits ! ?idx AND drop_bit (col mod 8) 0x80 \<noteq> 0 then set_pixel (unat (py * win_width w + ?px)) fg buf
      else if bg \<noteq> 0 then set_pixel (unat (py * win_width w + ?px)) bg buf else Some buf)"
    have "\<exists>b. step = Some b \<and> length b = length buf"
      using set_pixel_ok [OF pixel_offset_ok [OF Cons.prems px], of fg] set_pixel_ok [OF pixel_offset_ok [OF Cons.prems px], of bg]
      unfolding step_def by (simp split: if_split)
    then obtain b where b: "step = Some b" "length b = length buf" by blast
    from Cons.IH [OF screen_ok_length [OF Cons.prems b(2)]]
    show ?thesis unfolding bitmap_cols.simps Let_def if_not_P [OF False] step_def [symmetric] b(1) by simp
  qed
qed simp

lemma bitmap_rows_ok:
  "screen_ok (win_width w) (win_height w) buf \<Longrightarrow>
   \<exists>buf'. bitmap_rows w x y bw pitch bits fg bg rows buf = Some buf' \<and> screen_ok (win_width w) (win_height w) buf'"
proof (induction rows arbitrary: buf)
  case (Cons row rows)
  show ?case
  proof (cases "y + of_nat row \<ge> win_height w")
    case False
    then obtain b where "bitmap_cols w x (y + of_nat row) row pitch bits fg bg [0..<unat bw] buf = Some b"
        "screen_ok (win_width w) (win_height w) b"
      using bitmap_cols_ok [OF Cons.prems, of "y + of_nat row"] by fastforce
    with Cons.IH [of b] False show ?thesis by simp
  qed (use Cons.prems in simp)
qed simp

lemma set_buffer_ok:
  assumes "desktop_ok fw fh s" "find_window ob s = Some w" "screen_ok (win_width w) (win_height w) buf"
  shows "desktop_ok fw fh (update_window ob (\<lambda>w. w\<lparr>win_buffer := buf\<rparr>) s)"
proof -
  have upd: "\<forall>w' \<in> set (update_first P (\<lambda>w. w\<lparr>win_buffer := buf\<rparr>) ws). win_ok fw fh w'"
    if "List.find P ws = Some w" "\<forall>w \<in> set ws. win_ok fw fh w" for P ws
    using that assms(3) by (induction ws) (auto simp: win_ok_def split: if_splits)
  have "\<forall>w \<in> set (WINDOWS s). win_ok fw fh w" using assms(1) by (simp add: desktop_ok_def)
  with assms(1,2) show ?thesis unfolding update_window_def by (intro desktop_ok_windows upd) (simp_all add: find_window_def)
qed

lemma draw_text_ok:
  assumes "desktop_ok fw fh s"
  shows "\<exists>b s'. draw_text ob x y chs fg bg s = Some (b, s') \<and> desktop_ok fw fh s'"
proof (cases "find_window ob s")
  case (Some w)
  then have "screen_ok (win_width w) (win_height w) (win_buffer w)" "font_ok s"
    using find_window_ok [OF Some assms] assms by (simp_all add: win_ok_def desktop_ok_def)
  from draw_text_spec [OF this, of x y chs fg bg]
  obtain s' buf where r: "draw_text_to_buffer (win_width w) (win_height w) x y chs fg bg s (win_buffer w) = Some (s', buf)"
      "screen_ok (win_width w) (win_height w) buf" "font_ok s'" "font_state.more s' = font_state.more s" by (elim exE conjE)
  have "find_window ob s' = Some w" using Some by (simp add: find_window_def more_fields(1) [OF r(4)])
  from set_buffer_ok [OF desktop_ok_more [OF assms r(3,4)] this r(2)] Some r(1) show ?thesis by (auto simp: draw_text_def)
qed (use assms in \<open>auto simp: draw_text_def\<close>)

lemma draw_bitmap_ok:
  assumes "desktop_ok fw fh s"
  shows "\<exists>b s'. draw_bitmap ob x y bw bh bits fg bg s = Some (b, s') \<and> desktop_ok fw fh s'"
proof (cases "find_window ob s")
  case (Some w)
  then have "screen_ok (win_width w) (win_height w) (win_buffer w)" using find_window_ok [OF Some assms] by (simp add: win_ok_def)
  from bitmap_rows_ok [OF this] obtain buf
    where "bitmap_rows w x y bw (unat ((bw + 7) div 8)) bits fg bg [0..<unat bh] (win_buffer w) = Some buf"
      "screen_ok (win_width w) (win_height w) buf" by blast
  with set_buffer_ok [OF assms Some] Some show ?thesis by (auto simp: draw_bitmap_def)
qed (use assms in \<open>auto simp: draw_bitmap_def\<close>)

subsection \<open>Moving and the mouse\<close>

lemma iclamp_ok: "sint lo \<le> sint hi \<Longrightarrow> \<exists>v'. iclamp lo hi v = Some v' \<and> sint lo \<le> sint v' \<and> sint v' \<le> sint hi"
  by (auto simp: iclamp_def not_less)

lemma move_window_ok:
  assumes "desktop_ok fw fh s" "screen_size fw fh"
  shows "\<exists>b s'. move_window ob x y fw fh s = Some (b, s') \<and> desktop_ok fw fh s' \<and>
    (\<exists>cx cy. s' = (if b then update_window ob (\<lambda>w. w\<lparr>win_x := cx, win_y := cy\<rparr>) s else s))"
proof (cases "find_window ob s")
  case (Some w)
  have f: "win_ok fw fh w" using find_window_ok [OF Some assms(1)] by simp
  then have o: "on_screen fw fh (win_x w) (win_y w) (win_width w) (win_height w)" by (simp add: win_ok_def)
  let ?mx = "imax (fw - win_width w) 0" and ?my = "imax (fh - win_height w) 0"
  have le: "uint (win_width w) \<le> uint fw" "uint (win_height w) + 20 \<le> uint fh" using o by (simp_all add: on_screen_def)
  have fz: "uint fw < 2 ^ 31" "uint fh < 2 ^ 31" using assms(2) by (simp_all add: screen_size_def)
  have mx: "sint ?mx = uint fw - uint (win_width w)" using sint_sub_small [OF le(1) fz(1)] le(1) by simp
  have my: "sint ?my = uint fh - uint (win_height w)" using sint_sub_small [of "win_height w" fh] fz(2) le(2) by simp
  obtain cx where cx: "iclamp 0 ?mx x = Some cx" "0 \<le> sint cx" "sint cx \<le> sint ?mx" using iclamp_ok [of 0 ?mx x] mx le by auto
  have "sint TITLE_BAR_HEIGHT = 20" by (simp add: TITLE_BAR_HEIGHT_def)
  then obtain cy where cy: "iclamp TITLE_BAR_HEIGHT ?my y = Some cy" "20 \<le> sint cy" "sint cy \<le> sint ?my"
    using iclamp_ok [of TITLE_BAR_HEIGHT ?my y] my le by auto
  let ?s = "update_window ob (\<lambda>w. w\<lparr>win_x := cx, win_y := cy\<rparr>) s"
  have upd: "\<forall>w' \<in> set (update_first P (\<lambda>w. w\<lparr>win_x := cx, win_y := cy\<rparr>) ws). win_ok fw fh w'"
    if "List.find P ws = Some w" "\<forall>w \<in> set ws. win_ok fw fh w" for P ws
    using that cx(2,3) cy(2,3) mx my by (induction ws) (auto simp: win_ok_def on_screen_def split: if_splits)
  have "\<forall>w \<in> set (WINDOWS s). win_ok fw fh w" using assms(1) by (simp add: desktop_ok_def)
  then have d: "desktop_ok fw fh ?s"
    using assms(1) Some unfolding update_window_def by (intro desktop_ok_windows upd) (simp_all add: find_window_def)
  show ?thesis
  proof (cases "win_x w = cx \<and> win_y w = cy")
    case True
    then have "move_window ob x y fw fh s = Some (False, s)" using Some cx(1) cy(1) by (simp add: move_window_def Let_def)
    then show ?thesis using assms(1) by auto
  next
    case False
    then have "move_window ob x y fw fh s = Some (True, ?s)" using Some cx(1) cy(1) by (auto simp: move_window_def Let_def)
    then show ?thesis using d by auto
  qed
qed (use assms in \<open>auto simp: move_window_def\<close>)

lemma press_at_ok:
  assumes "desktop_ok fw fh s"
  shows "\<exists>b s'. press_at x y s = Some (b, s') \<and> desktop_ok fw fh s' \<and> bare ` set (WINDOWS s') = bare ` set (WINDOWS s)"
proof -
  have f: "desktop_ok fw fh (set_focus t s)" "WINDOWS (set_focus t s) = WINDOWS s" for t using assms by (simp, simp add: set_focus_def)
  have r: "\<exists>b s'. raise_window t (set_focus t s) = Some (b, s') \<and> desktop_ok fw fh s' \<and> bare ` set (WINDOWS s') = bare ` set (WINDOWS s)" for t
    using raise_window_ok [OF f(1) [of t], of t] f(2) [of t] by (elim exE conjE) auto
  show ?thesis
  proof (cases "topmost_titlebar_at x y s")
    case None
    then show ?thesis
      using r assms by (cases "topmost_content_at x y s") (auto simp: press_at_def)
  next
    case (Some t)
    obtain b s' where "raise_window t (set_focus t s) = Some (b, s')" "desktop_ok fw fh s'" "bare ` set (WINDOWS s') = bare ` set (WINDOWS s)"
      using r [of t] by blast
    then show ?thesis using Some by (cases "find_window t s'") (simp_all add: press_at_def)
  qed
qed

lemma drag_to_ok:
  assumes "desktop_ok fw fh s" "screen_size fw fh"
  shows "\<exists>r b s'. drag_to x y fw fh s = Some (r, b, s') \<and> desktop_ok fw fh s' \<and> (\<forall>rr. r = Some rr \<longrightarrow> near rr)"
proof (cases "DRAGGING s")
  case (Some d)
  obtain ob ox oy where d: "d = (ob, ox, oy)" by (cases d)
  obtain b s' where "move_window ob (x - ox) (y - oy) fw fh s = Some (b, s')" "desktop_ok fw fh s'"
    using move_window_ok [OF assms] by blast
  moreover have "\<forall>rr. map_option window_bounds (find_window ob s) = Some rr \<longrightarrow> near rr"
    using find_window_ok [OF _ assms(1)] window_bounds_near(1) [OF _ assms(2)] by auto
  ultimately show ?thesis using Some d by (simp add: drag_to_def)
qed (use assms in \<open>auto simp: drag_to_def\<close>)

lemma WINDOWS_damage [simp]: "WINDOWS (add_damage_rect r s) = WINDOWS s" "DRAGGING (add_damage_rect r s) = DRAGGING s"
    "find_window ob (add_damage_rect r s) = find_window ob s"
  by (simp_all add: add_damage_rect_def mark_window_dirty_def find_window_def)

lemma damage_windows_ok:
  assumes "desktop_ok fw fh s" "screen_size fw fh" "\<forall>rr. r = Some rr \<longrightarrow> near rr"
  shows "desktop_ok fw fh (damage_windows r s)"
proof -
  define t where "t = (case r of Some r \<Rightarrow> add_damage_rect r s | None \<Rightarrow> s)"
  have t: "desktop_ok fw fh t" using assms(1,3) by (cases r) (simp_all add: t_def add_damage_rect_ok)
  have one: "desktop_ok fw fh (add_damage_rect (window_bounds w) u)" if "desktop_ok fw fh u" "win_ok fw fh w" for u w
    using that window_bounds_near(1) [OF _ assms(2)] by (simp add: add_damage_rect_ok)
  have all: "desktop_ok fw fh (fold (\<lambda>w. add_damage_rect (window_bounds w)) ws u)" if "desktop_ok fw fh u" "\<forall>w \<in> set ws. win_ok fw fh w" for ws u
    using that by (induction ws arbitrary: u) (simp_all add: one)
  have "\<forall>w \<in> set (WINDOWS t). win_ok fw fh w" using t by (simp add: desktop_ok_def)
  then have "desktop_ok fw fh (fold (\<lambda>w. add_damage_rect (window_bounds w)) (WINDOWS t) t)" by (rule all [OF t])
  then show ?thesis unfolding damage_windows_def t_def [symmetric] Let_def
    using t one find_window_ok by (auto split: option.split prod.split)
qed

lemma last_pixel: "0 < uint n \<Longrightarrow> uint n < 2 ^ 16 \<Longrightarrow> sint (n - 1 :: u32) = uint n - 1"
  using sint_sub_small [of 1 n] by simp

text \<open>The stages of a mouse report on a well-formed desktop.\<close>

lemma report_mouse_stages:
  assumes "desktop_ok fw fh s" "screen_size fw fh"
  obtains q x y raised s1 old_rect moved s2 where
    "desktop_ok fw fh s1" "bare ` set (WINDOWS s1) = bare ` set (WINDOWS s)"
    "drag_to x y fw fh s1 = Some (old_rect, moved, s2)" "desktop_ok fw fh s2" "\<forall>rr. old_rect = Some rr \<longrightarrow> near rr"
    "report_mouse tsc (Some (fw, fh)) mx my left s =
       Some (if moved \<or> raised then call_display (RequestPresentation (\<not> left \<and> LEFT_BUTTON_DOWN s)) (damage_windows old_rect s2)
             else call_display (MoveCursorOverlay (CURSOR_X s) (CURSOR_Y s) x y) (call_display TryPresentPending s2))"
proof -
  have z: "0 < uint fw" "uint fw < 2 ^ 16" "0 < uint fh" "uint fh < 2 ^ 16" using assms(2) by (simp_all add: screen_size_def)
  have "iq_wf (INPUT_QUEUE s)" using assms(1) by (simp add: desktop_ok_def)
  from enqueue_spec [OF this, of tsc "MouseMotion mx my left"]
  obtain q where q: "enqueue tsc (MouseMotion mx my left) (INPUT_QUEUE s) = Some q" "iq_wf q" by blast
  obtain x where x: "iclamp 0 (fw - 1) (CURSOR_X s + mx) = Some x" "0 \<le> sint x" "sint x < uint fw"
    using iclamp_ok [of 0 "fw - 1" "CURSOR_X s + mx"] last_pixel [OF z(1,2)] z(1) by auto
  obtain y where y: "iclamp 0 (fh - 1) (CURSOR_Y s + my) = Some y" "0 \<le> sint y" "sint y < uint fh"
    using iclamp_ok [of 0 "fh - 1" "CURSOR_Y s + my"] last_pixel [OF z(3,4)] z(3) by auto
  let ?s = "s\<lparr>INPUT_QUEUE := q, CURSOR_X := x, CURSOR_Y := y, LEFT_BUTTON_DOWN := left\<rparr>"
  let ?press = "if left \<and> \<not> LEFT_BUTTON_DOWN s then press_at x y ?s else Some (False, ?s)"
  have "desktop_ok fw fh ?s" using assms(1) q(2) x(2,3) y(2,3) by (simp add: desktop_ok_def font_ok_def)
  from press_at_ok [OF this, of x y] this
  obtain raised t where t: "?press = Some (raised, t)" "desktop_ok fw fh t" "bare ` set (WINDOWS t) = bare ` set (WINDOWS s)"
    by (cases "left \<and> \<not> LEFT_BUTTON_DOWN s") auto
  let ?t = "if left then t else t\<lparr>DRAGGING := None\<rparr>"
  have t': "desktop_ok fw fh ?t" "bare ` set (WINDOWS ?t) = bare ` set (WINDOWS s)" using t(2,3) by auto
  from drag_to_ok [OF t'(1) assms(2), of x y]
  obtain r b s2 where d: "drag_to x y fw fh ?t = Some (r, b, s2)" "desktop_ok fw fh s2" "\<forall>rr. r = Some rr \<longrightarrow> near rr" by blast
  show ?thesis
  proof (rule that [OF t' d])
    have "report_mouse tsc (Some (fw, fh)) mx my left s =
       Option.bind ?press (\<lambda>(raised, t). Option.bind (drag_to x y fw fh (if left then t else t\<lparr>DRAGGING := None\<rparr>)) (\<lambda>(r, b, s2).
         Some (if b \<or> raised then call_display (RequestPresentation (\<not> left \<and> LEFT_BUTTON_DOWN s)) (damage_windows r s2)
             else call_display (MoveCursorOverlay (CURSOR_X s) (CURSOR_Y s) x y) (call_display TryPresentPending s2))))"
      by (simp add: report_mouse_def Let_def q(1) x(1) y(1) cong: if_cong)
    then show "report_mouse tsc (Some (fw, fh)) mx my left s =
       Some (if b \<or> raised then call_display (RequestPresentation (\<not> left \<and> LEFT_BUTTON_DOWN s)) (damage_windows r s2)
             else call_display (MoveCursorOverlay (CURSOR_X s) (CURSOR_Y s) x y) (call_display TryPresentPending s2))"
      unfolding t(1) by (simp add: d(1))
  qed
qed

lemma report_mouse_ok:
  assumes "desktop_ok fw fh s" "screen_size fw fh"
  shows "\<exists>s'. report_mouse tsc (Some (fw, fh)) mx my left s = Some s' \<and> desktop_ok fw fh s'"
  by (rule report_mouse_stages [OF assms, of tsc mx my left]) (simp add: damage_windows_ok assms(2))

lemma flush_dirty_surfaces_ok: "desktop_ok fw fh s \<Longrightarrow> desktop_ok fw fh (flush_dirty_surfaces s)"
proof -
  assume s: "desktop_ok fw fh s"
  have draw: "desktop_ok fw fh (fold (\<lambda>r. call_display (c r)) rs t) = desktop_ok fw fh t" for c rs and t :: wm_state
    by (induction rs arbitrary: t) simp_all
  have clear: "desktop_ok fw fh (clear_damage_rects t)" if "desktop_ok fw fh t" for t
    using that by (simp add: desktop_ok_def clear_damage_rects_def damage_clear_def damage_wf_def live_ok_def font_ok_def)
  show ?thesis using s by (simp add: flush_dirty_surfaces_def Let_def draw clear)
qed

subsection \<open>Any sequence of window operations\<close>

datatype wm_event =
    Register u32 i32 i32 u32 u32 "u8 list"
  | Raise u32
  | Unregister u32
  | Fill u32 u32
  | Commit u32 u32 u32 u32 u32
  | DrawText u32 u32 u32 "u8 list" u32 u32
  | DrawBitmap u32 u32 u32 u32 u32 "u8 list" u32 u32
  | MoveWindow u32 i32 i32
  | Mouse u64 i32 i32 bool
  | Flush

fun wm_step :: "u32 \<Rightarrow> u32 \<Rightarrow> wm_event \<Rightarrow> wm_state \<Rightarrow> wm_state option" where
  "wm_step fw fh (Register ob x y w h title) s = register_window ob x y w h title s"
| "wm_step fw fh (Raise ob) s = map_option snd (raise_window ob s)"
| "wm_step fw fh (Unregister ob) s = map_option snd (unregister_window ob s)"
| "wm_step fw fh (Fill ob c) s = Some (snd (fill_window ob c s))"
| "wm_step fw fh (Commit ob x y w h) s = Some (snd (commit_window_damage ob x y w h s))"
| "wm_step fw fh (DrawText ob x y chs fg bg) s = map_option snd (draw_text ob x y chs fg bg s)"
| "wm_step fw fh (DrawBitmap ob x y w h bits fg bg) s = map_option snd (draw_bitmap ob x y w h bits fg bg s)"
| "wm_step fw fh (MoveWindow ob x y) s = map_option snd (move_window ob x y fw fh s)"
| "wm_step fw fh (Mouse tsc mx my left) s = report_mouse tsc (Some (fw, fh)) mx my left s"
| "wm_step fw fh Flush s = Some (flush_dirty_surfaces s)"

fun placed :: "u32 \<Rightarrow> u32 \<Rightarrow> wm_event \<Rightarrow> bool" where
  "placed fw fh (Register ob x y w h title) = (w \<noteq> 0 \<and> on_screen fw fh x y w h)"
| "placed fw fh e = True"

lemma wm_step_ok:
  assumes "desktop_ok fw fh s" "screen_size fw fh" "placed fw fh e"
  shows "\<exists>s'. wm_step fw fh e s = Some s' \<and> desktop_ok fw fh s'"
proof (cases e)
  case (Register ob x y w h title)
  then show ?thesis using register_window_ok [OF assms(1,2)] assms(3) by simp
next
  case (Raise ob)
  then show ?thesis using raise_window_ok [OF assms(1), of ob] by (elim exE conjE) simp
next
  case (Unregister ob)
  then show ?thesis using unregister_window_ok [OF assms(1), of ob] by (elim exE conjE) simp
next
  case (DrawText ob x y chs fg bg)
  then show ?thesis using draw_text_ok [OF assms(1), of ob x y chs fg bg] by (elim exE conjE) simp
next
  case (DrawBitmap ob x y w h bits fg bg)
  then show ?thesis using draw_bitmap_ok [OF assms(1), of ob x y w h bits fg bg] by (elim exE conjE) simp
next
  case (MoveWindow ob x y)
  then show ?thesis using move_window_ok [OF assms(1,2), of ob x y] by (elim exE conjE) simp
qed (simp_all add: assms fill_window_ok commit_window_damage_ok report_mouse_ok flush_dirty_surfaces_ok)


lemma covered_damage:
  assumes "damage_wf (GLOBAL_DAMAGE s)" "near r"
  shows "pixels r \<union> covered (damage_rects (GLOBAL_DAMAGE s)) \<subseteq> covered (damage_rects (GLOBAL_DAMAGE (add_damage_rect r s)))"
  using add_rect_spec [OF assms] by (auto simp: add_damage_rect_def mark_window_dirty_def)

lemma in_update_first: "w \<in> set (update_first P f ws) \<Longrightarrow> w \<in> set ws \<or> (\<exists>w0. List.find P ws = Some w0 \<and> w = f w0)"
  by (induction ws) (auto split: if_splits)

lemma find_after_update: "List.find P ws = Some w0 \<Longrightarrow> P (f w0) \<Longrightarrow> List.find P (update_first P f ws) = Some (f w0)"
  by (induction ws) (auto split: if_splits)

lemma WINDOWS_damage_windows [simp]: "WINDOWS (damage_windows r s) = WINDOWS s"
proof -
  have "WINDOWS (fold (\<lambda>w. add_damage_rect (window_bounds w)) ws t) = WINDOWS t" for ws t by (induction ws arbitrary: t) simp_all
  then show ?thesis by (simp add: damage_windows_def Let_def mark_window_dirty_def split: option.split prod.split)
qed

lemma damage_windows_covers:
  assumes "desktop_ok fw fh s" "screen_size fw fh" "near r" "DRAGGING s = Some (ob, ox, oy)" "find_window ob s = Some w"
  shows "pixels r \<union> pixels (window_bounds w) \<subseteq> covered (damage_rects (GLOBAL_DAMAGE (damage_windows (Some r) s)))"
proof -
  have d: "desktop_ok fw fh (add_damage_rect r s)" by (rule add_damage_rect_ok [OF assms(1,3)])
  have "near (window_bounds w)" using window_bounds_near(1) find_window_ok [OF assms(5,1)] assms(2) by blast
  with covered_damage [of s r] covered_damage [of "add_damage_rect r s" "window_bounds w"] d assms(1,3)
  have "pixels r \<union> pixels (window_bounds w) \<subseteq> covered (damage_rects (GLOBAL_DAMAGE (add_damage_rect (window_bounds w) (add_damage_rect r s))))"
    by (simp add: desktop_ok_def) blast
  then show ?thesis by (simp add: damage_windows_def mark_window_dirty_def assms(4,5))
qed

lemma bare_position: "bare w' = bare w \<Longrightarrow> surface_object w' = surface_object w \<and> window_bounds w' = window_bounds w \<and> win_x w' = win_x w \<and> win_y w' = win_y w"
  by (cases w; cases w') (simp add: bare_def window_bounds_def)

lemma drag_moves_one:
  assumes "desktop_ok fw fh s1" "screen_size fw fh" "drag_to x y fw fh s1 = Some (r, moved, s2)"
    "w' \<in> set (WINDOWS s2)" "w' \<notin> set (WINDOWS s1)"
  shows "\<exists>ob ox oy w1. moved \<and> DRAGGING s2 = Some (ob, ox, oy) \<and> find_window ob s1 = Some w1 \<and> r = Some (window_bounds w1) \<and>
    find_window ob s2 = Some w' \<and> surface_object w' = ob"
proof -
  from assms(3-5) obtain ob ox oy where d: "DRAGGING s1 = Some (ob, ox, oy)" by (cases "DRAGGING s1") (auto simp: drag_to_def)
  obtain b t where t: "move_window ob (x - ox) (y - oy) fw fh s1 = Some (b, t)"
      "\<exists>cx cy. t = (if b then update_window ob (\<lambda>w. w\<lparr>win_x := cx, win_y := cy\<rparr>) s1 else s1)"
    using move_window_ok [OF assms(1,2), of ob "x - ox" "y - oy"] by (elim exE conjE) auto
  have e: "r = map_option window_bounds (find_window ob s1)" "moved = b" "s2 = t" using assms(3) d t(1) by (auto simp: drag_to_def)
  from t(2) e assms(4,5) obtain cx cy where b: "b" and s2: "s2 = update_window ob (\<lambda>w. w\<lparr>win_x := cx, win_y := cy\<rparr>) s1" by (cases b) auto
  from in_update_first assms(4,5) s2 obtain w1 where w1: "find_window ob s1 = Some w1" "w' = w1\<lparr>win_x := cx, win_y := cy\<rparr>"
    unfolding update_window_def find_window_def by fastforce
  have ob: "surface_object w1 = ob" using find_window_ok [OF w1(1) assms(1)] by simp
  then have "find_window ob s2 = Some w'"
    using w1 unfolding s2 find_window_def update_window_def by (simp add: find_after_update)
  then show ?thesis using b d e(1,2) w1 ob by (simp add: s2 update_window_def)
qed

text \<open>
  C32. Dragging leaves no stale pixels: when a mouse report moves a window, the damaged region covers both the rectangle
  the window has left and the one it now occupies, title bar included, and a presentation has been requested.
\<close>

theorem drag_repaints_both_places:
  assumes "desktop_ok fw fh s" "screen_size fw fh" "distinct (map surface_object (WINDOWS s))"
    "report_mouse tsc (Some (fw, fh)) mx my left s = Some s'"
    "w \<in> set (WINDOWS s)" "w' \<in> set (WINDOWS s')" "surface_object w' = surface_object w" "win_x w' \<noteq> win_x w \<or> win_y w' \<noteq> win_y w"
  shows "pixels (window_bounds w) \<union> pixels (window_bounds w') \<subseteq> covered (damage_rects (GLOBAL_DAMAGE s')) \<and>
    (\<exists>force. last (display_calls s') = RequestPresentation force)"
proof (rule report_mouse_stages [OF assms(1,2), of tsc mx my left])
  fix q x y raised s1 old moved s2
  assume s1: "desktop_ok fw fh s1" "bare ` set (WINDOWS s1) = bare ` set (WINDOWS s)"
    and d: "drag_to x y fw fh s1 = Some (old, moved, s2)" "desktop_ok fw fh s2" "\<forall>rr. old = Some rr \<longrightarrow> near rr"
    and eq: "report_mouse tsc (Some (fw, fh)) mx my left s =
       Some (if moved \<or> raised then call_display (RequestPresentation (\<not> left \<and> LEFT_BUTTON_DOWN s)) (damage_windows old s2)
             else call_display (MoveCursorOverlay (CURSOR_X s) (CURSOR_Y s) x y) (call_display TryPresentPending s2))"
  from eq assms(4) have s': "s' = (if moved \<or> raised then call_display (RequestPresentation (\<not> left \<and> LEFT_BUTTON_DOWN s)) (damage_windows old s2)
             else call_display (MoveCursorOverlay (CURSOR_X s) (CURSOR_Y s) x y) (call_display TryPresentPending s2))" by simp
  then have w': "w' \<in> set (WINDOWS s2)" using assms(6) by (cases "moved \<or> raised") (simp_all add: call_display_def)
  have same: "bare v = bare w" if "v \<in> set (WINDOWS s1)" "surface_object v = surface_object w" for v
  proof -
    have "bare v \<in> bare ` set (WINDOWS s)" unfolding s1(2) [symmetric] using that(1) by (rule imageI)
    then obtain u where u: "bare v = bare u" "u \<in> set (WINDOWS s)" by (rule imageE)
    have o: "surface_object u = surface_object w" using that(2) bare_position [OF u(1)] by simp
    have "inj_on surface_object (set (WINDOWS s))" using assms(3) by (simp only: distinct_map)
    from inj_onD [OF this o u(2) assms(5)] u(1) show ?thesis by simp
  qed
  then have "w' \<notin> set (WINDOWS s1)" using assms(7,8) bare_position [of w' w] by auto
  from drag_moves_one [OF s1(1) assms(2) d(1) w' this]
  obtain ob ox oy w1 where m: "moved" "DRAGGING s2 = Some (ob, ox, oy)" "find_window ob s1 = Some w1" "old = Some (window_bounds w1)"
    "find_window ob s2 = Some w'" "surface_object w' = ob" by (elim exE conjE)
  have "window_bounds w1 = window_bounds w"
    using same [of w1] find_window_ok [OF m(3) s1(1)] m(6) assms(7) bare_position [of w1 w] by simp
  moreover have "near (window_bounds w1)" using d(3) m(4) by simp
  ultimately have "pixels (window_bounds w) \<union> pixels (window_bounds w') \<subseteq> covered (damage_rects (GLOBAL_DAMAGE (damage_windows old s2)))"
    using damage_windows_covers [OF d(2) assms(2) _ m(2,5), of "window_bounds w1"] unfolding m(4) by simp
  then show ?thesis using s' m(1) by (simp add: call_display_def)
qed

text \<open>
  C40. A window too tall for the display crashes the kernel when it is dragged: with less room above its content than the
  title bar needs, \<^verbatim>\<open>clamp\<close> is called with a lower bound above its upper bound and panics, wherever it is moved.
\<close>

theorem tall_window_drag_panics:
  assumes "find_window ob s = Some w" "uint fh < 2 ^ 31" "uint (win_height w) < 2 ^ 31" "uint fh < uint (win_height w) + 20"
  shows "move_window ob x y fw fh s = None"
proof -
  have "sint (imax (fh - win_height w) 0) < 20"
  proof (cases "uint (win_height w) \<le> uint fh")
    case True
    then show ?thesis using sint_sub_small [OF True assms(2)] assms(4) by simp
  next
    case False
    have "- (2 ^ 31) \<le> uint fh - uint (win_height w)" "uint fh - uint (win_height w) < 2 ^ 31"
      using assms(2,3) uint_ge_0 [of fh] uint_ge_0 [of "win_height w"] by linarith+
    from sint_of_int32 [OF this] show ?thesis using False by simp
  qed
  moreover have "sint TITLE_BAR_HEIGHT = 20" by (simp add: TITLE_BAR_HEIGHT_def)
  ultimately show ?thesis using assms(1) by (simp add: move_window_def Let_def iclamp_def split: bind_split)
qed

definition demo_window :: Window where
  "demo_window = \<lparr>surface_object = 5, win_width = 2, win_height = 3, win_x = 1, win_y = 22,
     win_buffer = replicate 6 7, title_buffer = replicate 40 9, win_title = []\<rparr>"

definition demo_desktop :: wm_state where
  "demo_desktop = \<lparr>glyph_height = 16, GLYPH_RAW_CACHE = replicate 256 (replicate 16 0),
     ACTIVE_ROW_LUT = \<lparr>lut_fg = 0, lut_bg = 0, lut_valid = False, lut = []\<rparr>,
     WINDOWS = [demo_window], CURSOR_X = 2, CURSOR_Y = 10, LEFT_BUTTON_DOWN = True, DRAGGING = Some (5, 1, - 12),
     GLOBAL_DAMAGE = DamageRegion_new, WINDOW_DIRTY = False, CURSOR_DIRTY = False, FOCUSED_SURFACE = 5,
     INPUT_QUEUE = input_queue_init, display_calls = []\<rparr>"

lemma demo_desktop_ok: "desktop_ok 100 80 demo_desktop" "screen_size 100 80"
  by (simp_all add: desktop_ok_def demo_desktop_def demo_window_def font_ok_def lut_ok_def iq_wf_init damage_wf_def live_ok_def
    DamageRegion_new_def win_ok_def on_screen_def screen_ok_def screen_size_def TITLE_BAR_HEIGHT_def MAX_DIRTY_RECTS_def)


text \<open>The demonstration desktop is in the middle of a drag: four pixels right and one down move its window.\<close>

lemma demo_drag: "\<exists>s'. report_mouse 7 (Some (100, 80)) 4 1 True demo_desktop = Some s' \<and> WINDOWS s' = [demo_window\<lparr>win_x := 5, win_y := 23\<rparr>]"
proof -
  have "\<exists>q. enqueue 7 (MouseMotion 4 1 True) input_queue_init = Some q"
    using enqueue_spec [OF iq_wf_init(1), of 7 "MouseMotion 4 1 True"] by blast
  then show ?thesis
    by (elim exE) (simp add: report_mouse_def demo_desktop_def iclamp_def Let_def drag_to_def move_window_def find_window_def
      demo_window_def imax_def TITLE_BAR_HEIGHT_def update_window_def call_display_def)
qed

theorem drag_repaints_both_places_witness:
  "\<exists>s'. report_mouse 7 (Some (100, 80)) 4 1 True demo_desktop = Some s' \<and>
    pixels (window_bounds demo_window) \<union> pixels (window_bounds (demo_window\<lparr>win_x := 5, win_y := 23\<rparr>))
      \<subseteq> covered (damage_rects (GLOBAL_DAMAGE s')) \<and> (\<exists>force. last (display_calls s') = RequestPresentation force)"
proof -
  obtain s' where s': "report_mouse 7 (Some (100, 80)) 4 1 True demo_desktop = Some s'" "WINDOWS s' = [demo_window\<lparr>win_x := 5, win_y := 23\<rparr>]"
    using demo_drag by blast
  have "distinct (map surface_object (WINDOWS demo_desktop))" "demo_window \<in> set (WINDOWS demo_desktop)" by (simp_all add: demo_desktop_def)
  from drag_repaints_both_places [OF demo_desktop_ok this(1) s'(1) this(2), of "demo_window\<lparr>win_x := 5, win_y := 23\<rparr>"] s'
  show ?thesis by (simp add: demo_window_def)
qed

theorem tall_window_drag_panics_witness:
  "find_window 5 (demo_desktop\<lparr>WINDOWS := [demo_window\<lparr>win_height := 70\<rparr>]\<rparr>) = Some (demo_window\<lparr>win_height := 70\<rparr>) \<and>
   move_window 5 0 0 100 80 (demo_desktop\<lparr>WINDOWS := [demo_window\<lparr>win_height := 70\<rparr>]\<rparr>) = None"
proof -
  have f: "find_window 5 (demo_desktop\<lparr>WINDOWS := [demo_window\<lparr>win_height := 70\<rparr>]\<rparr>) = Some (demo_window\<lparr>win_height := 70\<rparr>)"
    by (simp add: find_window_def demo_window_def)
  show ?thesis using tall_window_drag_panics [OF f, of 80 0 0 100] f by simp
qed

end
