(* ===== verification/Input_Routing.thy ===== *)
theory Input_Routing
  imports Window_Manager Ipc
begin

text \<open>
  Keyboard routing (\<^verbatim>\<open>kernel_rs/src/input_routing.rs\<close>) and the agent's user-interface actions
  (\<^verbatim>\<open>inject_agent_ui_action\<close> of \<^verbatim>\<open>kernel_rs/src/window_manager.rs\<close>): the composition of the window
  manager's focus with the IPC mailboxes. A key goes to the mailbox of the focused window and to no other.
  The capability table of the calling thread is passed in and out; benchmark counters are left out.
\<close>

record WindowInput =
  wi_surface :: u32
  wi_send_cap :: CapId

record desktop_state = ipc_state +
  REGISTRY :: "WindowInput list"
  SENDER_TABLE :: CapabilityTable
  wm :: wm_state

definition NO_FOCUS :: u32 where
  "NO_FOCUS = - 1"

text \<open>The unwrap of the freshly made capability panics, \<open>None\<close>, when it does not resolve.\<close>

definition register_window_input ::
    "u32 \<Rightarrow> CapabilityTable option \<Rightarrow> desktop_state \<Rightarrow> (CapId \<times> CapabilityTable option \<times> desktop_state) option" where
  "register_window_input surface current s =
     (case create_endpoint (SENDER_TABLE s) Rights_SEND s of (send_cap, table, s) \<Rightarrow>
      case resolve table send_cap Rights_SEND (s\<lparr>SENDER_TABLE := table\<rparr>) of
        (Inl _, _) \<Rightarrow> None
      | (Inr cap, s) \<Rightarrow>
          (case (case current of
                   Some t \<Rightarrow> (case grant t (cap_object_id cap) Rights_RECEIVE s of (c, t, s) \<Rightarrow> (c, Some t, s))
                 | None \<Rightarrow> (0, None, s)) of
             (receive_cap, current, s) \<Rightarrow>
               Some (receive_cap, current, s\<lparr>REGISTRY := REGISTRY s @ [\<lparr>wi_surface = surface, wi_send_cap = send_cap\<rparr>]\<rparr>)))"

text \<open>The function keys, pressed or released, that the benchmark hooks consume.\<close>

definition is_hotkey :: "u8 \<Rightarrow> bool" where
  "is_hotkey code \<longleftrightarrow> 0x3B \<le> code \<and> code \<le> 0x41 \<or> code = 0x58 \<or> 0xBB \<le> code \<and> code \<le> 0xC1 \<or> code = 0xD8"

definition key_message :: "u8 \<Rightarrow> Message" where
  "key_message code = Message_default\<lparr>msg_data := (msg_data Message_default)[0 := ucast code]\<rparr>"

definition deliver_key_event :: "u64 \<Rightarrow> u8 \<Rightarrow> desktop_state \<Rightarrow> desktop_state option" where
  "deliver_key_event tsc code s =
     Option.bind (enqueue tsc (Key code) (INPUT_QUEUE (wm s))) (\<lambda>q.
       let s = s\<lparr>wm := (wm s)\<lparr>INPUT_QUEUE := q\<rparr>\<rparr>; focused = FOCUSED_SURFACE (wm s)
       in if is_hotkey code \<or> focused = NO_FOCUS then Some s
          else case List.find (\<lambda>w. wi_surface w = focused) (REGISTRY s) of
                 None \<Rightarrow> Some s
               | Some w \<Rightarrow> map_option snd (try_send (SENDER_TABLE s) (wi_send_cap w) (key_message code) s))"

datatype ui_error = NoSuchWindow | UnknownActionType

definition inject_agent_ui_action ::
    "u64 \<Rightarrow> u32 \<Rightarrow> u32 \<Rightarrow> u32 \<Rightarrow> desktop_state \<Rightarrow> ((ui_error + unit) \<times> desktop_state) option" where
  "inject_agent_ui_action tsc surface action_type arg0 s =
     (let windows = WINDOWS (wm s);
          target = (if surface = 0 \<and> windows \<noteq> [] then surface_object (windows ! 0) else surface);
          focus = s\<lparr>wm := set_focus surface (wm s)\<rparr>
      in case position (\<lambda>w. surface_object w = target) windows of
           None \<Rightarrow> Some (Inl NoSuchWindow, s)
         | Some pos \<Rightarrow>
             if action_type = 1 then map_option (Pair (Inr ())) (deliver_key_event tsc (ucast arg0) focus)
             else if action_type = 2 then Some (Inr (), focus)
             else if action_type = 3
             then Some (Inr (), focus\<lparr>wm := mark_window_dirty ((wm focus)\<lparr>WINDOWS := remove_nth pos windows @ [windows ! pos]\<rparr>)\<rparr>)
             else if action_type = 4 then Some (Inr (), s)
             else Some (Inl UnknownActionType, s))"

subsection \<open>Mailboxes by window\<close>

definition ep_of :: "desktop_state \<Rightarrow> WindowInput \<Rightarrow> ObjectId option" where
  "ep_of s w = map_option cap_object_id (slot_at (SENDER_TABLE s) (wi_send_cap w))"

definition key_box :: "desktop_state \<Rightarrow> u32 \<Rightarrow> Message list option" where
  "key_box s surface =
     (case List.find (\<lambda>w. wi_surface w = surface) (REGISTRY s) of
        None \<Rightarrow> None
      | Some w \<Rightarrow> Option.bind (ep_of s w) (mailbox_of s))"

text \<open>Every registered window has a live send capability for an endpoint of its own.\<close>

definition entry_ok :: "desktop_state \<Rightarrow> WindowInput \<Rightarrow> bool" where
  "entry_ok s w \<longleftrightarrow> (\<exists>cap. slot_at (SENDER_TABLE s) (wi_send_cap w) = Some cap \<and>
     fst (resolve (SENDER_TABLE s) (wi_send_cap w) Rights_SEND s) = Inr cap \<and> mailbox_of s (cap_object_id cap) \<noteq> None)"

definition route_wf :: "desktop_state \<Rightarrow> bool" where
  "route_wf s \<longleftrightarrow> ipc_wf s \<and> iq_wf (INPUT_QUEUE (wm s)) \<and> length (slots (SENDER_TABLE s)) \<le> length (OBJECTS s) \<and>
     (\<forall>sl \<in> set (ENDPOINTS s). unat (es_object_id sl) < length (OBJECTS s)) \<and>
     (\<forall>w \<in> set (REGISTRY s). entry_ok s w) \<and> distinct (map (ep_of s) (REGISTRY s))"

datatype route_event = RegisterInput u32 "CapabilityTable option" | Focus u32 | KeyEvent u64 u8

fun route_step :: "route_event \<Rightarrow> desktop_state \<Rightarrow> desktop_state option" where
  "route_step (RegisterInput surface current) s = map_option (snd \<circ> snd) (register_window_input surface current s)"
| "route_step (Focus surface) s = Some (s\<lparr>wm := set_focus surface (wm s)\<rparr>)"
| "route_step (KeyEvent tsc code) s = deliver_key_event tsc code s"

text \<open>The specification: a mailbox per window and the focus.\<close>

definition route_view :: "desktop_state \<Rightarrow> (u32 \<rightharpoonup> Message list) \<times> u32" where
  "route_view s = (key_box s, FOCUSED_SURFACE (wm s))"

fun route_spec :: "route_event \<Rightarrow> (u32 \<rightharpoonup> Message list) \<times> u32 \<Rightarrow> (u32 \<rightharpoonup> Message list) \<times> u32" where
  "route_spec (RegisterInput surface current) (boxes, focused) = (if boxes surface = None then boxes(surface \<mapsto> []) else boxes, focused)"
| "route_spec (Focus surface) (boxes, focused) = (boxes, surface)"
| "route_spec (KeyEvent tsc code) (boxes, focused) =
     (if is_hotkey code \<or> focused = NO_FOCUS then boxes
      else boxes(focused := map_option (drop_new QUEUE_DEPTH (key_message code)) (boxes focused)), focused)"

subsection \<open>Frames\<close>

lemma desktop_more:
  fixes s s' :: desktop_state
  assumes "cap_state.more s' = cap_state.more s"
  shows "ENDPOINTS s' = ENDPOINTS s" "REGISTRY s' = REGISTRY s" "SENDER_TABLE s' = SENDER_TABLE s" "wm s' = wm s"
  using assms by (cases s; cases s'; simp)+

lemma desktop_audit [simp]:
  fixes s :: desktop_state
  shows "REGISTRY (audit_record ev s) = REGISTRY s" "SENDER_TABLE (audit_record ev s) = SENDER_TABLE s" "wm (audit_record ev s) = wm s"
  using desktop_more [of "audit_record ev s" s] by simp_all

lemma desktop_put [simp]:
  "REGISTRY (put_endpoint a ep s) = REGISTRY s" "SENDER_TABLE (put_endpoint a ep s) = SENDER_TABLE s" "wm (put_endpoint a ep s) = wm s"
  "OBJECTS (put_endpoint a ep s) = OBJECTS s"
  by (simp_all add: put_endpoint_def)

lemma put_endpoint_ids: "map es_object_id (ENDPOINTS (put_endpoint a ep s)) = map es_object_id (ENDPOINTS s)"
proof -
  have "map es_object_id (update_first P (\<lambda>sl. sl\<lparr>es_endpoint := ep\<rparr>) sls) = map es_object_id sls" for P sls
    by (induction sls) simp_all
  then show ?thesis by (simp add: put_endpoint_def)
qed

text \<open>What a send leaves alone besides the mailboxes.\<close>

lemma try_send_frame:
  fixes s s' :: desktop_state
  assumes "try_send table cap_id m s = Some (res, s')"
  shows "REGISTRY s' = REGISTRY s" "SENDER_TABLE s' = SENDER_TABLE s" "wm s' = wm s" "OBJECTS s' = OBJECTS s"
    "map es_object_id (ENDPOINTS s') = map es_object_id (ENDPOINTS s)"
proof -
  let ?s = "snd (resolve table cap_id Rights_SEND s)"
  have r: "REGISTRY ?s = REGISTRY s" "SENDER_TABLE ?s = SENDER_TABLE s" "wm ?s = wm s" "OBJECTS ?s = OBJECTS s" "ENDPOINTS ?s = ENDPOINTS s"
    by (simp_all add: snd_resolve)
  show "REGISTRY s' = REGISTRY s" "SENDER_TABLE s' = SENDER_TABLE s" "wm s' = wm s" "OBJECTS s' = OBJECTS s"
    "map es_object_id (ENDPOINTS s') = map es_object_id (ENDPOINTS s)"
    using assms r by (auto simp: try_send_def split_beta Let_def put_endpoint_ids split: sum.splits option.splits if_splits)
qed

lemma resolve_cong: "OBJECTS s = OBJECTS t \<Longrightarrow> fst (resolve table c r s) = fst (resolve table c r t)"
  by (simp add: fst_resolve cap_valid_def current_generation_cong [of s t] split: option.split)

lemma ids_bound: "map es_object_id xs = map es_object_id ys \<Longrightarrow> (\<forall>sl \<in> set xs. P (es_object_id sl)) = (\<forall>sl \<in> set ys. P (es_object_id sl))"
proof -
  assume "map es_object_id xs = map es_object_id ys"
  then have "es_object_id ` set xs = es_object_id ` set ys" by (metis list.set_map)
  then show ?thesis by (metis (no_types, lifting) image_iff)
qed

lemma route_wf_cong:
  assumes "route_wf s" "ipc_wf s'" "iq_wf (INPUT_QUEUE (wm s'))" "REGISTRY s' = REGISTRY s" "SENDER_TABLE s' = SENDER_TABLE s"
    "OBJECTS s' = OBJECTS s" "map es_object_id (ENDPOINTS s') = map es_object_id (ENDPOINTS s)" "dom (mailbox_of s') = dom (mailbox_of s)"
  shows "route_wf s'"
proof -
  have "(mailbox_of s' a = None) = (mailbox_of s a = None)" for a using assms(8) by (metis domIff)
  then have e: "entry_ok s' w = entry_ok s w" for w by (simp add: entry_ok_def assms(5) resolve_cong [OF assms(6)])
  have "ep_of s' = ep_of s" by (simp add: ep_of_def fun_eq_iff assms(5))
  then show ?thesis using assms(1-7) ids_bound [OF assms(7), of "\<lambda>i. unat i < length (OBJECTS s)"] by (simp add: route_wf_def e)
qed

subsection \<open>Keys\<close>

lemma key_delivery:
  assumes wf: "route_wf s" and f: "List.find (\<lambda>w. wi_surface w = focused) (REGISTRY s) = Some w"
  shows "\<exists>res s'. try_send (SENDER_TABLE s) (wi_send_cap w) m s = Some (res, s') \<and> route_wf s' \<and> wm s' = wm s \<and> OBJECTS s' = OBJECTS s \<and>
    key_box s' = (key_box s)(focused := map_option (drop_new QUEUE_DEPTH m) (key_box s focused))"
proof -
  have w: "w \<in> set (REGISTRY s)" "wi_surface w = focused" using f by (auto simp: find_Some_iff)
  then obtain cap q where c: "slot_at (SENDER_TABLE s) (wi_send_cap w) = Some cap"
      "fst (resolve (SENDER_TABLE s) (wi_send_cap w) Rights_SEND s) = Inr cap" "mailbox_of s (cap_object_id cap) = Some q"
    using wf by (auto simp: route_wf_def entry_ok_def)
  have "ipc_wf s" using wf by (simp add: route_wf_def)
  from mailbox_send [OF this, of "SENDER_TABLE s" "wi_send_cap w" m]
  obtain res s' where r: "try_send (SENDER_TABLE s) (wi_send_cap w) m s = Some (res, s')" "ipc_wf s'"
      "(res, mailbox_of s') = abs_send (cap_object_id cap) m (mailbox_of s)" by (auto simp: c(2))
  note fr = try_send_frame [OF r(1)]
  have box: "mailbox_of s' = (mailbox_of s)(cap_object_id cap \<mapsto> drop_new QUEUE_DEPTH m q)" using r(3) by (simp add: abs_send_def c(3))
  have wf': "route_wf s'"
  proof (rule route_wf_cong [OF wf r(2) _ fr(1,2,4,5)])
    show "iq_wf (INPUT_QUEUE (wm s'))" using wf by (simp add: fr(3) route_wf_def)
    show "dom (mailbox_of s') = dom (mailbox_of s)" using c(3) by (auto simp: box)
  qed
  have ep: "ep_of s' = ep_of s" by (simp add: ep_of_def fun_eq_iff fr(2))
  have w': "ep_of s w = Some (cap_object_id cap)" by (simp add: ep_of_def c(1))
  have "key_box s' sf = ((key_box s)(focused := map_option (drop_new QUEUE_DEPTH m) (key_box s focused))) sf" for sf
  proof (cases "sf = focused")
    case True
    then show ?thesis by (simp add: key_box_def fr(1) ep f w' box c(3))
  next
    case False
    have "ep_of s v \<noteq> Some (cap_object_id cap)" if "List.find (\<lambda>w. wi_surface w = sf) (REGISTRY s) = Some v" for v
    proof -
      have v: "v \<in> set (REGISTRY s)" "wi_surface v = sf" using that by (auto simp: find_Some_iff)
      then have "v \<noteq> w" using w(2) False by auto
      moreover have "inj_on (ep_of s) (set (REGISTRY s))" using wf by (simp add: route_wf_def distinct_map)
      ultimately show ?thesis using inj_onD [of "ep_of s" "set (REGISTRY s)" v w] v(1) w(1) w' by auto
    qed
    then show ?thesis using False
      by (auto simp: key_box_def fr(1) ep box split: option.split bind_split)
  qed
  then have "key_box s' = (key_box s)(focused := map_option (drop_new QUEUE_DEPTH m) (key_box s focused))" by blast
  then show ?thesis using r(1) wf' fr(3,4) by blast
qed

lemma deliver_refines:
  assumes wf: "route_wf s"
  shows "\<exists>s'. deliver_key_event tsc code s = Some s' \<and> route_wf s' \<and> OBJECTS s' = OBJECTS s \<and>
    route_view s' = route_spec (KeyEvent tsc code) (route_view s)"
proof -
  have "iq_wf (INPUT_QUEUE (wm s))" using wf by (simp add: route_wf_def)
  from enqueue_spec [OF this, of tsc "Key code"]
  obtain q where q: "enqueue tsc (Key code) (INPUT_QUEUE (wm s)) = Some q" "iq_wf q" by blast
  define t where "t = s\<lparr>wm := (wm s)\<lparr>INPUT_QUEUE := q\<rparr>\<rparr>"
  have m: "mailbox_of t = mailbox_of s" by (simp add: t_def mailbox_of_def find_endpoint_def fun_eq_iff)
  have t: "route_wf t" by (rule route_wf_cong [OF wf]) (use wf q(2) m in \<open>simp_all add: t_def route_wf_def ipc_wf_def\<close>)
  have e: "ep_of t = ep_of s" by (simp add: ep_of_def t_def fun_eq_iff)
  have f: "FOCUSED_SURFACE (wm t) = FOCUSED_SURFACE (wm s)" "REGISTRY t = REGISTRY s" "OBJECTS t = OBJECTS s" by (simp_all add: t_def)
  have k: "key_box t = key_box s" unfolding key_box_def [abs_def] m e f(2) ..
  let ?f = "FOCUSED_SURFACE (wm s)"
  have d: "deliver_key_event tsc code s =
     (if is_hotkey code \<or> ?f = NO_FOCUS then Some t
      else case List.find (\<lambda>w. wi_surface w = ?f) (REGISTRY t) of
             None \<Rightarrow> Some t
           | Some w \<Rightarrow> map_option snd (try_send (SENDER_TABLE t) (wi_send_cap w) (key_message code) t))"
    by (simp add: deliver_key_event_def q(1) Let_def t_def cong: option.case_cong if_cong)
  show ?thesis
  proof (cases "is_hotkey code \<or> ?f = NO_FOCUS")
    case True
    then show ?thesis using t k f by (auto simp: d route_view_def)
  next
    case F: False
    show ?thesis
    proof (cases "List.find (\<lambda>w. wi_surface w = ?f) (REGISTRY t)")
      case None
      then have "key_box s ?f = None" by (simp add: key_box_def f)
      then have "(key_box s)(?f := map_option (drop_new QUEUE_DEPTH (key_message code)) (key_box s ?f)) = key_box s" by (simp add: fun_upd_idem)
      then show ?thesis using t k f F None by (auto simp: d route_view_def)
    next
      case (Some w)
      from key_delivery [OF t this, of "key_message code"] Some F show ?thesis
        by (elim exE conjE) (simp add: d route_view_def k f)
    qed
  qed
qed

subsection \<open>Registration\<close>

lemma find_snoc: "List.find P (xs @ [x]) = (case List.find P xs of None \<Rightarrow> if P x then Some x else None | Some y \<Rightarrow> Some y)"
  by (induction xs) auto

text \<open>What a registration adds.\<close>

lemma register_parts:
  assumes n: "length (OBJECTS s) < 2 ^ 32" and k: "length (slots (SENDER_TABLE s)) \<le> length (OBJECTS s)"
  defines "ob \<equiv> of_nat (length (OBJECTS s)) :: ObjectId" and "c \<equiv> of_nat (length (slots (SENDER_TABLE s))) :: CapId"
  shows "\<exists>rc cur s'. register_window_input sf current s = Some (rc, cur, s') \<and> wm s' = wm s \<and>
    OBJECTS s' = OBJECTS s @ [\<lparr>ko_kind = IpcEndpoint, ko_generation = 1, ko_alive = True\<rparr>] \<and>
    ENDPOINTS s' = ENDPOINTS s @ [\<lparr>es_object_id = ob, es_endpoint = Endpoint_new\<rparr>] \<and>
    REGISTRY s' = REGISTRY s @ [\<lparr>wi_surface = sf, wi_send_cap = c\<rparr>] \<and>
    slots (SENDER_TABLE s') = slots (SENDER_TABLE s) @ [Some \<lparr>cap_object_id = ob, cap_rights = Rights_SEND, cap_generation = 1\<rparr>]"
proof -
  let ?cap = "\<lparr>cap_object_id = ob, cap_rights = Rights_SEND, cap_generation = 1\<rparr>"
  let ?T = "(SENDER_TABLE s)\<lparr>slots := slots (SENDER_TABLE s) @ [Some ?cap]\<rparr>"
  have u: "unat ob = length (OBJECTS s)" "unat c = length (slots (SENDER_TABLE s))"
    using n k by (simp_all add: ob_def c_def unat_of_nat take_bit_nat_eq_self)
  let ?s0 = "s\<lparr>OBJECTS := OBJECTS s @ [\<lparr>ko_kind = IpcEndpoint, ko_generation = 1, ko_alive = True\<rparr>],
    ENDPOINTS := ENDPOINTS s @ [\<lparr>es_object_id = ob, es_endpoint = Endpoint_new\<rparr>]\<rparr>"
  define s1 where "s1 = audit_record (Grant ob Rights_SEND) ?s0"
  have ce: "create_endpoint (SENDER_TABLE s) Rights_SEND s = (c, ?T, s1)"
    by (simp add: create_endpoint_def create_object_def grant_def u slice_get_def s1_def c_def flip: ob_def)
  have "fst (resolve ?T c Rights_SEND (s1\<lparr>SENDER_TABLE := ?T\<rparr>)) = Inr ?cap"
    by (simp add: fst_resolve slot_at_def slice_get_def u cap_valid_def current_generation_def s1_def rights_contains_def)
  then have r: "resolve ?T c Rights_SEND (s1\<lparr>SENDER_TABLE := ?T\<rparr>) = (Inr ?cap, s1\<lparr>SENDER_TABLE := ?T\<rparr>)"
    using resolve_pair [of ?T c Rights_SEND "s1\<lparr>SENDER_TABLE := ?T\<rparr>"] by simp
  show ?thesis
    by (cases current) (simp_all add: register_window_input_def ce r grant_def, simp_all add: s1_def)
qed

lemma register_refines:
  assumes wf: "route_wf s" and n: "length (OBJECTS s) < 2 ^ 32"
  shows "\<exists>rc cur s'. register_window_input sf current s = Some (rc, cur, s') \<and> route_wf s' \<and> length (OBJECTS s') = Suc (length (OBJECTS s)) \<and>
    route_view s' = route_spec (RegisterInput sf current) (route_view s)"
proof -
  define ob :: ObjectId where "ob = of_nat (length (OBJECTS s))"
  define c :: CapId where "c = of_nat (length (slots (SENDER_TABLE s)))"
  let ?cap = "\<lparr>cap_object_id = ob, cap_rights = Rights_SEND, cap_generation = 1\<rparr>" and ?e = "\<lparr>wi_surface = sf, wi_send_cap = c\<rparr>"
  have k: "length (slots (SENDER_TABLE s)) \<le> length (OBJECTS s)" using wf by (simp add: route_wf_def)
  obtain rc cur s' where r: "register_window_input sf current s = Some (rc, cur, s')" "wm s' = wm s"
    and o: "OBJECTS s' = OBJECTS s @ [\<lparr>ko_kind = IpcEndpoint, ko_generation = 1, ko_alive = True\<rparr>]"
    and ep: "ENDPOINTS s' = ENDPOINTS s @ [\<lparr>es_object_id = ob, es_endpoint = Endpoint_new\<rparr>]"
    and rg: "REGISTRY s' = REGISTRY s @ [?e]" and sl: "slots (SENDER_TABLE s') = slots (SENDER_TABLE s) @ [Some ?cap]"
    using register_parts [OF n k, of sf current] unfolding ob_def c_def by (elim exE conjE)
  have u: "unat ob = length (OBJECTS s)" "unat c = length (slots (SENDER_TABLE s))"
    using n k by (simp_all add: ob_def c_def unat_of_nat take_bit_nat_eq_self)
  have fresh: "find_endpoint ob s = None"
    using wf u(1) by (auto simp: route_wf_def find_endpoint_def find_None_iff)
  have box: "mailbox_of s' = (mailbox_of s)(ob \<mapsto> [])"
    using fresh by (auto simp: mailbox_of_def find_endpoint_def ep find_snoc ep_wf_new fun_eq_iff split: option.split)
  have old: "slot_at (SENDER_TABLE s') x = Some cap" "cap_valid cap s'" if "slot_at (SENDER_TABLE s) x = Some cap" "cap_valid cap s" for x cap
    using that by (auto simp: slot_at_def sl slice_get_def nth_append cap_valid_def current_generation_def o split: if_splits option.splits)
  have new: "slot_at (SENDER_TABLE s') c = Some ?cap" "cap_valid ?cap s'"
    by (simp_all add: slot_at_def sl slice_get_def u cap_valid_def current_generation_def o)
  have ent: "entry_ok s' w \<and> ep_of s' w = ep_of s w \<and> ep_of s w \<noteq> Some ob" if "w \<in> set (REGISTRY s)" for w
  proof -
    have "entry_ok s w" using that wf by (simp add: route_wf_def)
    then obtain cap where cap: "slot_at (SENDER_TABLE s) (wi_send_cap w) = Some cap" "cap_valid cap s" "rights_contains (cap_rights cap) Rights_SEND"
        "mailbox_of s (cap_object_id cap) \<noteq> None" unfolding entry_ok_def resolve_Inr by blast
    then have "cap_object_id cap \<noteq> ob" using fresh by (auto simp: mailbox_of_def)
    then show ?thesis using cap old [OF cap(1,2)] by (simp add: entry_ok_def resolve_Inr ep_of_def box)
  qed
  have new_ok: "entry_ok s' ?e" "ep_of s' ?e = Some ob" using new by (simp_all add: entry_ok_def resolve_Inr box rights_contains_def ep_of_def)
  have mp: "map (ep_of s') (REGISTRY s) = map (ep_of s) (REGISTRY s)" using ent by simp
  have "distinct (map (ep_of s') (REGISTRY s))" unfolding mp using wf by (simp only: route_wf_def)
  moreover have "Some ob \<notin> ep_of s' ` set (REGISTRY s)" using ent by (metis imageE)
  ultimately have "distinct (map (ep_of s') (REGISTRY s'))" using new_ok(2) by (simp add: rg)
  moreover have "\<forall>w \<in> set (REGISTRY s'). entry_ok s' w" using ent new_ok(1) by (simp add: rg)
  ultimately have wf': "route_wf s'"
    using wf u(1) unfolding route_wf_def by (auto simp: sl o ep r(2) ipc_wf_def ep_wf_new)
  have "key_box s' x = (if key_box s sf = None then (key_box s)(sf \<mapsto> []) else key_box s) x" for x
  proof (cases "List.find (\<lambda>w. wi_surface w = x) (REGISTRY s)")
    case None
    then show ?thesis by (auto simp: key_box_def rg find_snoc new_ok(2) box)
  next
    case (Some w)
    then have w: "w \<in> set (REGISTRY s)" "wi_surface w = x" by (auto simp: find_Some_iff)
    then have "entry_ok s w" using wf by (simp add: route_wf_def)
    then have "key_box s x \<noteq> None" using Some by (auto simp: key_box_def entry_ok_def ep_of_def)
    moreover have "key_box s' x = key_box s x" using Some ent [OF w(1)] by (auto simp: key_box_def rg find_snoc box split: bind_split)
    ultimately show ?thesis by auto
  qed
  then have "key_box s' = (if key_box s sf = None then (key_box s)(sf \<mapsto> []) else key_box s)" by blast
  then show ?thesis using r wf' o by (simp add: route_view_def)
qed

lemma route_step_refines:
  assumes "route_wf s" "length (OBJECTS s) < 2 ^ 32"
  shows "\<exists>s'. route_step e s = Some s' \<and> route_wf s' \<and> length (OBJECTS s') \<le> Suc (length (OBJECTS s)) \<and>
    route_view s' = route_spec e (route_view s)"
proof (cases e)
  case (RegisterInput sf current)
  then show ?thesis using register_refines [OF assms, of sf current] by (elim exE conjE) simp
next
  case (Focus sf)
  let ?t = "s\<lparr>wm := set_focus sf (wm s)\<rparr>"
  have m: "mailbox_of ?t = mailbox_of s" by (simp add: mailbox_of_def find_endpoint_def fun_eq_iff)
  have e: "ep_of ?t = ep_of s" by (simp add: ep_of_def fun_eq_iff)
  have r: "REGISTRY ?t = REGISTRY s" by simp
  have "key_box ?t = key_box s" unfolding key_box_def [abs_def] m e r ..
  moreover have "route_wf ?t"
    by (rule route_wf_cong [OF assms(1)]) (use assms(1) m in \<open>simp_all add: route_wf_def ipc_wf_def set_focus_def\<close>)
  ultimately show ?thesis using Focus by (simp add: route_view_def set_focus_def)
next
  case (KeyEvent tsc code)
  then show ?thesis using deliver_refines [OF assms(1), of tsc code] by (elim exE conjE) simp
qed

text \<open>
  C33. Keys reach only the focused window: over any sequence of registrations, focus changes and key events, routing never
  panics and the windows' mailboxes are those of the specification, in which a key is appended to the mailbox of the window
  that has the focus at that moment, unless that mailbox is full, and to no other; function keys and keys without a
  focused registered window reach nobody.
\<close>

theorem input_routing_refines:
  assumes "route_wf s" "length (OBJECTS s) + length es \<le> 2 ^ 32"
  shows "\<exists>s'. fold_opt route_step es s = Some s' \<and> route_wf s' \<and> route_view s' = fold route_spec es (route_view s)"
  using assms
proof (induction es arbitrary: s)
  case (Cons e es)
  from route_step_refines [of s e] Cons.prems
  obtain t where t: "route_step e s = Some t" "route_wf t" "length (OBJECTS t) \<le> Suc (length (OBJECTS s))"
    "route_view t = route_spec e (route_view s)" by auto
  with Cons.IH [of t] Cons.prems show ?case by simp
qed simp

text \<open>Two windows are registered; a key typed for the first stays out of the mailbox of the second.\<close>

definition demo_route :: desktop_state where
  "demo_route = \<lparr>LOG = [], NEXT_SEQ = 0, current_tid = 1, OBJECTS = [], ENDPOINTS = [], REGISTRY = [],
     SENDER_TABLE = CapabilityTable_new, wm = demo_desktop\<rparr>"

theorem input_routing_refines_witness:
  "route_wf demo_route \<and>
   (\<exists>s'. fold_opt route_step [RegisterInput 5 None, RegisterInput 6 None, KeyEvent 1 0x1E, Focus 6, KeyEvent 2 0x30, KeyEvent 3 0x3B] demo_route = Some s' \<and>
     key_box s' 5 = Some [key_message 0x1E] \<and> key_box s' 6 = Some [key_message 0x30])"
proof -
  let ?es = "[RegisterInput 5 None, RegisterInput 6 None, KeyEvent 1 0x1E, Focus 6, KeyEvent 2 0x30, KeyEvent 3 0x3B]"
  have wf: "route_wf demo_route"
    by (simp add: route_wf_def demo_route_def demo_desktop_def ipc_wf_def iq_wf_init CapabilityTable_new_def)
  have v: "route_view demo_route = (Map.empty, 5)"
    by (simp add: route_view_def key_box_def demo_route_def demo_desktop_def fun_eq_iff)
  obtain s' where s': "fold_opt route_step ?es demo_route = Some s'" "route_view s' = fold route_spec ?es (route_view demo_route)"
    using input_routing_refines [OF wf, of ?es] by (auto simp: demo_route_def)
  have "fst (route_view s') 5 = Some [key_message 0x1E]" "fst (route_view s') 6 = Some [key_message 0x30]"
    unfolding s'(2) v by (simp_all add: is_hotkey_def NO_FOCUS_def drop_new_def QUEUE_DEPTH_def)
  then show ?thesis using wf s'(1) by (simp add: route_view_def)
qed

end
