(* ===== verification/Spec2Isabelle.thy ===== *)
theory Spec2Isabelle
  imports Cap_System Event_Rings Rendezvous Kernel_Lock Certificates Heap Supervision Secure_Store Signed_Update Dispatch Input_Routing
begin

text \<open>
  \<^bold>\<open>Agentic-OS: a model of the kernel and what it guarantees.\<close>

  Agentic-OS is a capability-based microkernel with user-space drivers, written in Rust: \<^verbatim>\<open>kernel_rs\<close> (the kernel),
  \<^verbatim>\<open>kernel_common\<close> (pure code shared with the host tests), \<^verbatim>\<open>user_rs\<close> (drivers and applications) and \<^verbatim>\<open>boot_rs\<close> (the
  loader). Authority is held in per-thread capability tables over one table of kernel objects; every use is recorded in an
  audit log. Threads are scheduled on several cores under one kernel lock, talk through IPC endpoints that a capability
  names, and run in address spaces built from frames of one page allocator. Drivers are user processes restarted by a
  supervisor; the desktop is composed in the kernel, and its window manager routes keys to the mailboxes of windows.

  \<^bold>\<open>Conventions.\<close> Integers keep the width of the source as words; the release build wraps, so \<open>+\<close> wraps. A slice
  access out of range, a failed unwrap or a crossed clamp is a panic and gives \<open>None\<close>; errors of the source are values
  of a sum type with the source's constructors. State is a record that one operation takes and returns; records extend each
  other the way modules build on each other: the audit log is part of the capability state, and that of the state of IPC,
  of the threads and of the desktop; the page allocator is part of the page-table state, and that of the heap. Code that
  runs under the kernel lock is one step; the lock itself and the blocking rendezvous, where interleaving matters, are step
  relations over single atomic accesses.

  \<^bold>\<open>Theories, and the code they model.\<close>

  \<^item> \<open>Prelude\<close>, \<open>Bytes\<close>, \<open>Queues\<close>: machine integers, slices, first-match searches, loops that may panic; byte
    and slice access; the contract of a bounded queue as the locales \<open>fifo_source\<close> and \<open>event_queue\<close>, interpreted on
    the mailbox, the event ring and the input queue.
  \<^item> \<open>Audit_Log\<close> (\<^verbatim>\<open>kernel_rs/src/audit.rs\<close>), \<open>Capability\<close> (\<^verbatim>\<open>capability.rs\<close>), \<open>Cap_System\<close>: the log is the
    window of the last events; resolution is exact and audited; over any number of tables and any interleaving no rights
    are amplified, revocation is complete and destruction final.
  \<^item> \<open>Event_Rings\<close> (\<^verbatim>\<open>events.rs\<close>, \<^verbatim>\<open>input_queue.rs\<close>), \<open>Ipc\<close> and \<open>Rendezvous\<close> (\<^verbatim>\<open>ipc.rs\<close>): the rings and
    mailboxes implement their list specifications; the rendezvous delivers for one sender and one receiver, and loses a
    message when two senders race.
  \<^item> \<open>Kernel_Lock\<close> (\<^verbatim>\<open>critical.rs\<close>, the registry of \<^verbatim>\<open>smp.rs\<close>): mutual exclusion of the recursive lock.
  \<^item> \<open>Authority_Graph\<close> (\<^verbatim>\<open>kernel_common/src/authority_graph.rs\<close>, \<^verbatim>\<open>discovered_envelope.rs\<close>) and
    \<open>Certificates\<close> (\<^verbatim>\<open>impossibility_certificate.rs\<close>): both projections are exactly the graph, a certificate detects every
    change of one word, and not every change of two.
  \<^item> \<open>Bitmap\<close>, \<open>Pmm\<close> (\<^verbatim>\<open>bitmap.rs\<close>, \<^verbatim>\<open>pmm.rs\<close>): the contract of a frame allocator is the locale
    \<open>frame_allocator\<close>; no frame is handed out twice, and initialisation establishes the invariant.
  \<^item> \<open>Vmm\<close>, \<open>Page_Tables\<close>, \<open>Address_Space\<close>, \<open>Kernel_Map\<close> (\<^verbatim>\<open>vmm.rs\<close>, \<^verbatim>\<open>pagetable.rs\<close>): page tables in
    physical memory refine a function from virtual pages to entries; isolation of address spaces, exact freeing, write xor
    execute in the kernel map, exactness of the user-buffer check.
  \<^item> \<open>Heap\<close> (\<^verbatim>\<open>heap.rs\<close>): the free list as an instance of the locale \<open>block_allocator\<close>; live blocks are disjoint.
  \<^item> \<open>Policy\<close> (\<^verbatim>\<open>policy.rs\<close>, \<^verbatim>\<open>manifest.rs\<close>), \<open>Threads\<close>, \<open>Scheduler\<close>, \<open>Dispatch\<close> (\<^verbatim>\<open>thread.rs\<close>,
    \<^verbatim>\<open>gdt.rs\<close>): no thread is lost or runs twice, queued threads get their turn, spawned threads hold what policy and
    manifest allow, a context switch restores the registers.
  \<^item> \<open>Supervision\<close> (\<^verbatim>\<open>supervision.rs\<close>, \<^verbatim>\<open>device_manager.rs\<close>, \<^verbatim>\<open>supervisor.rs\<close>, \<^verbatim>\<open>service_manager.rs\<close>,
    \<^verbatim>\<open>driver_registry.rs\<close>): the restart budget is never exceeded.
  \<^item> \<open>Crypto\<close> (\<^verbatim>\<open>crypto.rs\<close>), \<open>Secure_Store\<close> (\<^verbatim>\<open>crypto_store.rs\<close>), \<open>Signed_Update\<close> (\<^verbatim>\<open>update.rs\<close>):
    streaming SHA-256 and HMAC equal the standard's one-pass definitions; round trips of sectors and packages; the version
    of a package is not authenticated.
  \<^item> \<open>Geometry\<close> (\<^verbatim>\<open>geometry.rs\<close>), \<open>Damage\<close> (\<^verbatim>\<open>damage.rs\<close>), \<open>Compositing\<close> (\<^verbatim>\<open>renderer.rs\<close> and the
    composition pass of \<^verbatim>\<open>window_manager.rs\<close>), \<open>Text\<close> (\<^verbatim>\<open>text.rs\<close>): rectangles denote sets of pixels; occlusion
    culling is the painter's algorithm, damage is never lost, text stays inside its buffer.
  \<^item> \<open>Window_Manager\<close> (\<^verbatim>\<open>window_manager.rs\<close>): the window table, title bars, surfaces, hit testing, dragging; over any
    sequence of operations buffers keep their sizes and windows stay on the display, and a drag damages what it uncovers.
  \<^item> \<open>Input_Routing\<close> (\<^verbatim>\<open>input_routing.rs\<close>): a key reaches the mailbox of the focused window only.

  \<^bold>\<open>Bounds.\<close> No definition uses fuel: every loop is structural or has a termination proof, except the page loop of the
  user-buffer check, a partial function that is proved to return below the top page. Statements that need a bound carry it
  as a hypothesis: displays below \<open>2 ^ 16\<close> pixels each way for the desktop invariant, damage rectangles
  within \<open>2 ^ 30\<close> of the origin, at most sixteen windows and thirty-two visible pieces for composition (the sizes of the
  source's arrays), at most \<open>2 ^ 32\<close> kernel objects for input routing (the width of an object number).

  \<^bold>\<open>Parameters.\<close> What the processor and the firmware provide is an argument: cycle-counter values, the memory map, font
  data, the address a stack was allocated at, the address of a respawn function.

  \<^bold>\<open>Not modelled.\<close> Device registers, interrupt entry, assembly and boot; the flush to display memory, the cursor sprite and
  the desktop chrome (the window manager's calls to them are recorded in order, not executed, so the desktop theorems do not
  cover a panic inside those calls); the system-call dispatcher; ext2 and the file services; the package installer; frame
  pacing; program loading; the user-space drivers and applications; the boot-time demonstrations. Statistics and log
  printing are left out of the modelled operations.
\<close>

end
